(* ===== verification/Prelude.thy ===== *)
theory Prelude
  imports Main "HOL-Library.Word"
begin

text \<open>
  Shared vocabulary of the development: the machine integer types the C++ code uses,
  little-endian splitting of numbers into words (the memory layout the code relies on when
  it casts integers to byte arrays and back), and the facts about them every component
  theory uses.

  \<^item> \<open>byte\<close>, \<open>u16\<close>, \<open>u32\<close>, \<open>u64\<close> are the fixed-width unsigned types
    (\<open>uint8_t\<close> to \<open>uint64_t\<close>).
  \<^item> \<open>wval\<close> reads a list of words, least significant first, as a natural number and
    \<open>wsplit\<close> is its inverse; a byte string and an array of 32-bit limbs are both
    instances of it.
\<close>

unbundle bit_operations_syntax

type_synonym byte = "8 word"
type_synonym u16 = "16 word"
type_synonym u32 = "32 word"
type_synonym u64 = "64 word"
type_synonym bytes = "byte list"

named_theorems refine_simps "equations that read a machine operation as arithmetic"

section \<open>Words in memory order\<close>

primrec wval :: "'a::len word list \<Rightarrow> nat" where
  "wval [] = 0"
| "wval (w # ws) = unat w + 2 ^ LENGTH('a) * wval ws"

primrec wsplit :: "nat \<Rightarrow> nat \<Rightarrow> 'a::len word list" where
  "wsplit 0 v = []"
| "wsplit (Suc n) v = of_nat v # wsplit n (v div 2 ^ LENGTH('a))"

lemma length_wsplit [simp]: "length (wsplit n v) = n"
  by (induction n arbitrary: v) auto

lemma unat_less_power: "unat (w :: 'a::len word) < 2 ^ LENGTH('a)"
  by simp

lemma wval_bound: "wval (ws :: 'a::len word list) < 2 ^ (LENGTH('a) * length ws)"
proof (induction ws)
  case Nil
  then show ?case by simp
next
  case (Cons w ws)
  have "unat w + 2 ^ LENGTH('a) * wval ws < 2 ^ LENGTH('a) * (wval ws + 1)"
    using unat_less_power [of w] by simp
  also have "\<dots> \<le> 2 ^ LENGTH('a) * 2 ^ (LENGTH('a) * length ws)"
    using Cons by (intro mult_le_mono) auto
  finally show ?case by (simp add: power_add)
qed

lemma wval_wsplit [refine_simps]:
  "wval (wsplit n v :: 'a::len word list) = v mod 2 ^ (LENGTH('a) * n)"
proof (induction n arbitrary: v)
  case 0
  then show ?case by simp
next
  case (Suc n)
  let ?L = "LENGTH('a)"
  have "wval (wsplit (Suc n) v :: 'a word list)
      = v mod 2 ^ ?L + 2 ^ ?L * (v div 2 ^ ?L mod 2 ^ (?L * n))"
    by (simp add: Suc unat_of_nat)
  also have "\<dots> = v mod (2 ^ ?L * 2 ^ (?L * n))"
    by (simp add: mod_mult2_eq)
  finally show ?case by (simp add: power_add)
qed

lemma wsplit_wval [simp]: "wsplit (length ws) (wval ws) = (ws :: 'a::len word list)"
  by (induction ws) simp_all

lemma wval_inject:
  "length xs = length ys \<Longrightarrow> wval xs = wval ys \<longleftrightarrow> (xs = (ys :: 'a::len word list))"
  by (metis wsplit_wval)

lemma wval_append:
  "wval (xs @ ys) = wval xs + 2 ^ (LENGTH('a) * length xs) * wval (ys :: 'a::len word list)"
  by (induction xs) (simp_all add: power_add algebra_simps)

lemma wval_replicate_0 [simp]: "wval (replicate n 0 :: 'a::len word list) = 0"
  by (induction n) auto

lemma wval_eq_0_iff: "wval ws = 0 \<longleftrightarrow> list_all (\<lambda>w. w = 0) (ws :: 'a::len word list)"
  by (induction ws) (auto simp: unat_eq_0)

section \<open>Bits of a word list\<close>

lemma bit_add_shifted:
  assumes "x < 2 ^ m"
  shows "bit (x + 2 ^ m * y :: nat) n = (if n < m then bit x n else bit y (n - m))"
proof (cases "n < m")
  case True
  then obtain k where m: "m = n + Suc k" by (metis add_Suc_right less_iff_Suc_add)
  have "2 ^ m * y = 2 ^ n * (2 * (2 ^ k * y))"
    by (simp add: m power_add)
  then have "(x + 2 ^ m * y) div 2 ^ n = 2 * (2 ^ k * y) + x div 2 ^ n"
    by (simp only: div_mult_self2 [of "2 ^ n :: nat"] power_not_zero zero_neq_numeral not_False_eq_True)
  with True show ?thesis by (simp add: bit_iff_odd)
next
  case False
  then obtain k where n: "n = m + k" by (metis le_Suc_ex not_less)
  have "(x + 2 ^ m * y) div 2 ^ n = y div 2 ^ k"
    using assms by (simp add: n power_add div_mult2_eq)
  with False show ?thesis by (simp add: bit_iff_odd n)
qed

lemma bit_wval:
  "bit (wval (ws :: 'a::len word list)) n
     = (n div LENGTH('a) < length ws \<and> bit (ws ! (n div LENGTH('a))) (n mod LENGTH('a)))"
proof (induction ws arbitrary: n)
  case Nil
  then show ?case by simp
next
  case (Cons w ws)
  let ?L = "LENGTH('a)"
  show ?case
  proof (cases "n < ?L")
    case True
    then show ?thesis by (simp add: bit_add_shifted bit_unsigned_iff)
  next
    case False
    then have "n div ?L = Suc ((n - ?L) div ?L)" and "n mod ?L = (n - ?L) mod ?L"
      by (simp_all add: le_div_geq mod_if)
    with False show ?thesis by (simp add: bit_add_shifted Cons)
  qed
qed

lemma wsplit_nth: "j < k \<Longrightarrow> wsplit k v ! j = (of_nat (v div 2 ^ (LENGTH('a) * j)) :: 'a::len word)"
  by (induction k arbitrary: v j) (auto simp: nth_Cons' power_add div_mult2_eq gr0_conv_Suc)

lemma wval_take: "wval (take k ws) = wval ws mod 2 ^ (LENGTH('a) * k)" for ws :: "'a::len word list"
proof (cases "k \<le> length ws")
  case True
  have "wval ws = wval (take k ws) + 2 ^ (LENGTH('a) * k) * wval (drop k ws)"
    using wval_append [of "take k ws" "drop k ws"] True by simp
  moreover have "wval (take k ws) < 2 ^ (LENGTH('a) * k)"
    using wval_bound [of "take k ws"] True by simp
  ultimately show ?thesis by simp
next
  case False
  then have "wval ws < 2 ^ (LENGTH('a) * k)"
    by (intro less_le_trans [OF wval_bound] power_increasing) simp_all
  then show ?thesis using False by simp
qed

section \<open>Words as numbers\<close>

lemma bit_top_iff: "x < 2 ^ Suc n \<Longrightarrow> bit x n \<longleftrightarrow> 2 ^ n \<le> (x :: nat)"
proof -
  assume "x < 2 ^ Suc n"
  then have "x div 2 ^ n < 2" by (intro less_mult_imp_div_less) simp
  then have "x div 2 ^ n = 0 \<or> x div 2 ^ n = 1" by auto
  moreover have "x div 2 ^ n = 0 \<longleftrightarrow> x < 2 ^ n" by (simp add: div_eq_0_iff)
  ultimately show ?thesis by (auto simp: bit_iff_odd)
qed

lemma of_nat_of_unat: "unat w = n \<Longrightarrow> w = of_nat n"
  by auto

lemma bit_unat: "bit (unat w) n \<longleftrightarrow> bit w n"
  by (auto simp: bit_unsigned_iff dest: bit_imp_le_length)

lemma unat_push_bit: "unat (push_bit n w :: 'a::len word) = unat w * 2 ^ n mod 2 ^ LENGTH('a)"
proof -
  have "unat (push_bit n w) = take_bit LENGTH('a) (push_bit n (unat w))"
    by (rule unsigned_push_bit_eq)
  then show ?thesis by (simp only: take_bit_eq_mod push_bit_eq_mult)
qed

lemma unat_and_mask: "unat (w AND mask n :: 'a::len word) = unat w mod 2 ^ n"
proof -
  have "unat (take_bit n w) = take_bit n (unat w)" by (rule unsigned_take_bit_eq)
  then show ?thesis unfolding take_bit_eq_mask [of n w] by (simp only: take_bit_eq_mod)
qed

lemma unat_or_disjoint:
  assumes "unat x < 2 ^ n" "unat y = 2 ^ n * k"
  shows "unat (x OR y :: 'a::len word) = unat x + unat y"
proof -
  have "unat (x OR y) = unat x OR unat y" by (rule unsigned_or_eq)
  also have "\<dots> = unat x + unat y"
  proof (rule disjunctive_add [symmetric])
    fix i
    show "\<not> bit (unat x) i \<or> \<not> bit (unat y) i"
      using assms bit_add_shifted [of 0 n k i] bit_add_shifted [of "unat x" n 0 i]
      by (auto split: if_splits)
  qed
  finally show ?thesis .
qed

lemma and_not_mask: "unat x < 2 ^ n \<Longrightarrow> x AND NOT (mask n) = (0 :: 'a::len word)"
proof -
  assume "unat x < 2 ^ n"
  then have "unat (take_bit n x) = unat x"
    by (simp only: unsigned_take_bit_eq) (simp only: take_bit_nat_eq_self)
  then have "take_bit n x = x" by (simp only: word_unat_eq_iff)
  then have "x AND mask n = x" by (simp only: take_bit_eq_mask)
  then show ?thesis by (metis bit.conj_cancel_right and.assoc and_zero_eq)
qed

lemma unat_or_disjoint2:
  "unat y < 2 ^ n \<Longrightarrow> unat x = 2 ^ n * k \<Longrightarrow> unat (x OR y :: 'a::len word) = unat x + unat y"
  using unat_or_disjoint [of y n x k] by (simp add: or.commute add.commute)

lemma sint_unat:
  "sint w = (if unat w < 2 ^ (LENGTH('a) - 1) then int (unat w) else int (unat w) - 2 ^ LENGTH('a))"
  for w :: "'a::len word"
proof -
  have L: "Suc (LENGTH('a) - 1) = LENGTH('a)" by simp
  have "sint w = signed_take_bit (LENGTH('a) - 1) (uint w)" by (simp add: sint_uint)
  also have "\<dots> = take_bit LENGTH('a) (uint w) - 2 ^ LENGTH('a) * of_bool (bit (uint w) (LENGTH('a) - 1))"
    by (simp only: signed_take_bit_eq_take_bit_minus L)
  also have "take_bit LENGTH('a) (uint w) = int (unat w)"
    using uint_lt2p [of w] by (simp add: take_bit_int_eq_self)
  also have "bit (uint w) (LENGTH('a) - 1) \<longleftrightarrow> bit (unat w) (LENGTH('a) - 1)"
    by (simp add: bit_unsigned_iff)
  also have "\<dots> \<longleftrightarrow> 2 ^ (LENGTH('a) - 1) \<le> unat w"
    using bit_top_iff [of "unat w" "LENGTH('a) - 1"] unat_less_power [of w] L by simp
  finally show ?thesis by auto
qed

lemma unat_nonnegative: "0 \<le> sint w \<Longrightarrow> int (unat w) = sint w" for w :: "'a::len word"
proof -
  assume "0 \<le> sint w"
  moreover have "int (unat w) < 2 ^ LENGTH('a)" using unat_less_power [of w] by (metis of_nat_less_numeral_power_cancel_iff)
  ultimately show ?thesis using sint_unat [of w] by presburger
qed

lemma unat_minus_negative: "sint w < 0 \<Longrightarrow> int (unat (- w)) = - sint w" for w :: "'a::len word"
proof -
  assume neg: "sint w < 0"
  then have w: "sint w = uint w - 2 ^ LENGTH('a)" using sint_unat [of w] by (auto split: if_splits)
  have "int (unat (- w)) = - uint w mod 2 ^ LENGTH('a)" by (simp add: uint_word_ariths)
  also have "\<dots> = (2 ^ LENGTH('a) - uint w) mod 2 ^ LENGTH('a)"
    by (metis diff_0 minus_mod_self1 mod_diff_left_eq mod_self)
  also have "\<dots> = 2 ^ LENGTH('a) - uint w"
  proof (rule mod_pos_pos_trivial)
    show "0 \<le> 2 ^ LENGTH('a) - uint w" using w neg by linarith
    have "w \<noteq> 0" using neg by auto
    then have "uint w \<noteq> 0" by (simp add: uint_0_iff)
    then show "2 ^ LENGTH('a) - uint w < 2 ^ LENGTH('a)" using uint_nonnegative [of w] by linarith
  qed
  finally show ?thesis using w by simp
qed

section \<open>Little-endian bytes\<close>

text \<open>The in-memory image of an unsigned integer of \<open>n\<close> bytes, and reading one back.\<close>

abbreviation le_bytes :: "nat \<Rightarrow> nat \<Rightarrow> bytes" where
  "le_bytes n v \<equiv> wsplit n v"

abbreviation le_val :: "bytes \<Rightarrow> nat" where
  "le_val bs \<equiv> wval bs"

lemma le_val_le_bytes: "v < 256 ^ n \<Longrightarrow> le_val (le_bytes n v) = v"
  by (simp add: wval_wsplit power_mult)

lemma le_val_bound: "le_val bs < 256 ^ length bs"
  using wval_bound [of bs] by (simp add: power_mult)

section \<open>Byte strings in lexicographic order\<close>

text \<open>\<open>operator<\<close> of \<open>std::vector<unsigned char>\<close>, and of \<open>memcmp\<close> on equal lengths.\<close>

fun bytes_lt :: "bytes \<Rightarrow> bytes \<Rightarrow> bool" where
  "bytes_lt [] bs = (bs \<noteq> [])"
| "bytes_lt (a # as) [] = False"
| "bytes_lt (a # as) (b # bs) = (a < b \<or> a = b \<and> bytes_lt as bs)"

lemma bytes_lt_eq: "\<not> bytes_lt a b \<Longrightarrow> \<not> bytes_lt b a \<Longrightarrow> a = b"
  by (induction a b rule: bytes_lt.induct) (auto split: if_splits)

lemma bytes_lt_irrefl [simp]: "\<not> bytes_lt a a"
  by (induction a) auto

end
