(* ===== verification/Uint256.thy ===== *)
theory Uint256
  imports Prelude
begin

text \<open>
  The fixed-width unsigned integers of \<open>src/src/uint256.h\<close> and
  \<open>src/src/uint256.cpp\<close>: the template \<open>base_uint<BITS>\<close> and the classes
  \<open>uint160\<close> and \<open>uint256\<close> built on it.

  An object is its array \<open>pn\<close> of 32-bit limbs, least significant first; the template
  parameter \<open>WIDTH\<close> is the length of the list (5 for \<open>uint160\<close>, 8 for
  \<open>uint256\<close>). Every operator is translated limb by limb, with its carries in 64-bit
  words as in the source, and is then shown to compute the arithmetic operation on the
  number \<open>wval pn\<close> the limbs stand for, modulo \<open>2 ^ BITS\<close>.
\<close>

unbundle bit_operations_syntax

type_synonym base_uint = "u32 list"

section \<open>Bitwise operators and assignment\<close>

definition base_uint_max :: "nat \<Rightarrow> base_uint" where
  "base_uint_max WIDTH = replicate WIDTH 0xffffffff"

primrec base_uint_not :: "base_uint \<Rightarrow> bool" where
  "base_uint_not [] = True"
| "base_uint_not (p # pn) = (if p \<noteq> 0 then False else base_uint_not pn)"

definition base_uint_compl :: "base_uint \<Rightarrow> base_uint" where
  "base_uint_compl pn = map (\<lambda>p. NOT p) pn"

definition base_uint_assign64 :: "nat \<Rightarrow> u64 \<Rightarrow> base_uint" where
  "base_uint_assign64 WIDTH b = ucast b # ucast (drop_bit 32 b) # replicate (WIDTH - 2) 0"

definition base_uint_xor :: "base_uint \<Rightarrow> base_uint \<Rightarrow> base_uint" where
  "base_uint_xor a b = map2 (\<lambda>p q. p XOR q) a b"

definition base_uint_and :: "base_uint \<Rightarrow> base_uint \<Rightarrow> base_uint" where
  "base_uint_and a b = map2 (\<lambda>p q. p AND q) a b"

definition base_uint_or :: "base_uint \<Rightarrow> base_uint \<Rightarrow> base_uint" where
  "base_uint_or a b = map2 (\<lambda>p q. p OR q) a b"

definition base_uint_xor64 :: "base_uint \<Rightarrow> u64 \<Rightarrow> base_uint" where
  "base_uint_xor64 pn b =
     (let pn = pn[0 := pn ! 0 XOR ucast b] in pn[1 := pn ! 1 XOR ucast (drop_bit 32 b)])"

definition base_uint_or64 :: "base_uint \<Rightarrow> u64 \<Rightarrow> base_uint" where
  "base_uint_or64 pn b =
     (let pn = pn[0 := pn ! 0 OR ucast b] in pn[1 := pn ! 1 OR ucast (drop_bit 32 b)])"

section \<open>Shifts\<close>

definition shl_step :: "base_uint \<Rightarrow> nat \<Rightarrow> nat \<Rightarrow> nat \<Rightarrow> base_uint \<Rightarrow> base_uint" where
  "shl_step a k shift i pn =
     (let WIDTH = length a;
          pn = (if i + k + 1 < WIDTH \<and> shift \<noteq> 0
                then pn[i + k + 1 := pn ! (i + k + 1) OR drop_bit (32 - shift) (a ! i)] else pn)
      in if i + k < WIDTH then pn[i + k := pn ! (i + k) OR push_bit shift (a ! i)] else pn)"

definition base_uint_shl :: "base_uint \<Rightarrow> nat \<Rightarrow> base_uint" where
  "base_uint_shl a shift =
     fold (shl_step a (shift div 32) (shift mod 32)) [0..<length a] (replicate (length a) 0)"

definition shr_step :: "base_uint \<Rightarrow> nat \<Rightarrow> nat \<Rightarrow> nat \<Rightarrow> base_uint \<Rightarrow> base_uint" where
  "shr_step a k shift i pn =
     (let pn = (if k + 1 \<le> i \<and> shift \<noteq> 0
                then pn[i - k - 1 := pn ! (i - k - 1) OR push_bit (32 - shift) (a ! i)] else pn)
      in if k \<le> i then pn[i - k := pn ! (i - k) OR drop_bit shift (a ! i)] else pn)"

definition base_uint_shr :: "base_uint \<Rightarrow> nat \<Rightarrow> base_uint" where
  "base_uint_shr a shift =
     fold (shr_step a (shift div 32) (shift mod 32)) [0..<length a] (replicate (length a) 0)"

section \<open>Addition, negation, subtraction, increment\<close>

fun add_loop :: "u64 \<Rightarrow> base_uint \<Rightarrow> base_uint \<Rightarrow> base_uint" where
  "add_loop carry (p # pn) (q # b) =
     (let n = carry + ucast p + ucast q
      in ucast (n AND 0xffffffff) # add_loop (drop_bit 32 n) pn b)"
| "add_loop carry pn b = []"

definition base_uint_add :: "base_uint \<Rightarrow> base_uint \<Rightarrow> base_uint" where
  "base_uint_add a b = add_loop 0 a b"

primrec base_uint_inc :: "base_uint \<Rightarrow> base_uint" where
  "base_uint_inc [] = []"
| "base_uint_inc (p # pn) = (if p + 1 = 0 then (p + 1) # base_uint_inc pn else (p + 1) # pn)"

primrec base_uint_dec :: "base_uint \<Rightarrow> base_uint" where
  "base_uint_dec [] = []"
| "base_uint_dec (p # pn) = (if p - 1 = - 1 then (p - 1) # base_uint_dec pn else (p - 1) # pn)"

definition base_uint_neg :: "base_uint \<Rightarrow> base_uint" where
  "base_uint_neg pn = base_uint_inc (map (\<lambda>p. NOT p) pn)"

definition base_uint_sub :: "base_uint \<Rightarrow> base_uint \<Rightarrow> base_uint" where
  "base_uint_sub a b = base_uint_add a (base_uint_neg b)"

definition base_uint_add64 :: "base_uint \<Rightarrow> u64 \<Rightarrow> base_uint" where
  "base_uint_add64 a b64 = base_uint_add a (base_uint_assign64 (length a) b64)"

definition base_uint_sub64 :: "base_uint \<Rightarrow> u64 \<Rightarrow> base_uint" where
  "base_uint_sub64 a b64 = base_uint_add a (base_uint_neg (base_uint_assign64 (length a) b64))"

section \<open>Comparison\<close>

text \<open>The loops run from the most significant limb down; \<open>i\<close> counts the limbs left.\<close>

primrec lt_loop :: "nat \<Rightarrow> base_uint \<Rightarrow> base_uint \<Rightarrow> bool" where
  "lt_loop 0 a b = False"
| "lt_loop (Suc i) a b =
     (if a ! i < b ! i then True else if a ! i > b ! i then False else lt_loop i a b)"

primrec le_loop :: "nat \<Rightarrow> base_uint \<Rightarrow> base_uint \<Rightarrow> bool" where
  "le_loop 0 a b = True"
| "le_loop (Suc i) a b =
     (if a ! i < b ! i then True else if a ! i > b ! i then False else le_loop i a b)"

primrec gt_loop :: "nat \<Rightarrow> base_uint \<Rightarrow> base_uint \<Rightarrow> bool" where
  "gt_loop 0 a b = False"
| "gt_loop (Suc i) a b =
     (if a ! i > b ! i then True else if a ! i < b ! i then False else gt_loop i a b)"

primrec ge_loop :: "nat \<Rightarrow> base_uint \<Rightarrow> base_uint \<Rightarrow> bool" where
  "ge_loop 0 a b = True"
| "ge_loop (Suc i) a b =
     (if a ! i > b ! i then True else if a ! i < b ! i then False else ge_loop i a b)"

definition base_uint_lt :: "base_uint \<Rightarrow> base_uint \<Rightarrow> bool" where
  "base_uint_lt a b = lt_loop (length a) a b"

definition base_uint_le :: "base_uint \<Rightarrow> base_uint \<Rightarrow> bool" where
  "base_uint_le a b = le_loop (length a) a b"

definition base_uint_gt :: "base_uint \<Rightarrow> base_uint \<Rightarrow> bool" where
  "base_uint_gt a b = gt_loop (length a) a b"

definition base_uint_ge :: "base_uint \<Rightarrow> base_uint \<Rightarrow> bool" where
  "base_uint_ge a b = ge_loop (length a) a b"

fun base_uint_eq :: "base_uint \<Rightarrow> base_uint \<Rightarrow> bool" where
  "base_uint_eq (p # a) (q # b) = (if p \<noteq> q then False else base_uint_eq a b)"
| "base_uint_eq a b = True"

definition base_uint_eq64 :: "base_uint \<Rightarrow> u64 \<Rightarrow> bool" where
  "base_uint_eq64 a b =
     (if a ! 0 \<noteq> ucast b then False
      else if a ! 1 \<noteq> ucast (drop_bit 32 b) then False
      else list_all (\<lambda>p. p = 0) (drop 2 a))"

section \<open>Bytes, words and hexadecimal text\<close>

text \<open>
  \<open>begin()\<close> to \<open>end()\<close> is the memory image of the limbs, which on the
  little-endian targets the code supports lists the bytes of the number from the least
  significant one up. The same image is what \<open>Serialize\<close> writes.
\<close>

definition base_uint_getBytes :: "base_uint \<Rightarrow> bytes" where
  "base_uint_getBytes pn = concat (map (\<lambda>p. le_bytes 4 (unat p)) pn)"

fun limbs_of_bytes :: "bytes \<Rightarrow> base_uint" where
  "limbs_of_bytes (b0 # b1 # b2 # b3 # bs) = of_nat (le_val [b0, b1, b2, b3]) # limbs_of_bytes bs"
| "limbs_of_bytes bs = []"

definition base_uint_of_vch :: "nat \<Rightarrow> bytes \<Rightarrow> base_uint" where
  "base_uint_of_vch WIDTH vch =
     (if length vch = WIDTH * 4 then limbs_of_bytes vch else base_uint_assign64 WIDTH 0)"

definition base_uint_Get64 :: "base_uint \<Rightarrow> nat \<Rightarrow> u64" where
  "base_uint_Get64 pn n = ucast (pn ! (2 * n)) OR push_bit 32 (ucast (pn ! (2 * n + 1)))"

definition base_uint_Get32 :: "base_uint \<Rightarrow> nat \<Rightarrow> u32" where
  "base_uint_Get32 pn n = pn ! n"

definition hexdigit :: "nat \<Rightarrow> char" where
  "hexdigit n = ''0123456789abcdef'' ! n"

definition hex8 :: "u32 \<Rightarrow> string" where
  "hex8 p = map (\<lambda>i. hexdigit (unat p div 16 ^ i mod 16)) (rev [0..<8])"

definition base_uint_GetHex :: "base_uint \<Rightarrow> string" where
  "base_uint_GetHex pn = concat (map hex8 (rev pn))"

definition phexdigit :: "char \<Rightarrow> nat" where
  "phexdigit c =
     (let n = of_char c :: nat
      in if 48 \<le> n \<and> n \<le> 57 then n - 48
         else if 65 \<le> n \<and> n \<le> 70 then n - 55
         else if 97 \<le> n \<and> n \<le> 102 then n - 87
         else 0)"

definition c_isspace :: "char \<Rightarrow> bool" where
  "c_isspace c = (let n = of_char c :: nat in n = 32 \<or> 9 \<le> n \<and> n \<le> 13)"

definition is_hex_run :: "char \<Rightarrow> bool" where
  "is_hex_run c = (phexdigit c \<noteq> 0 \<or> c = CHR ''0'')"

definition skip_0x :: "string \<Rightarrow> string" where
  "skip_0x psz =
     (case psz of c0 # c1 # rest \<Rightarrow>
        if c0 = CHR ''0'' \<and> (c1 = CHR ''x'' \<or> c1 = CHR ''X'') then rest else psz
      | _ \<Rightarrow> psz)"

text \<open>Two digits make a byte, the last digit of the text being the lowest nibble.\<close>

fun sethex_bytes :: "nat \<Rightarrow> string \<Rightarrow> bytes" where
  "sethex_bytes 0 ds = []"
| "sethex_bytes (Suc n) [] = 0 # sethex_bytes n []"
| "sethex_bytes (Suc n) [d] = of_nat (phexdigit d) # sethex_bytes n []"
| "sethex_bytes (Suc n) (d # e # ds) =
     (of_nat (phexdigit d) OR push_bit 4 (of_nat (phexdigit e))) # sethex_bytes n ds"

definition base_uint_SetHex :: "nat \<Rightarrow> string \<Rightarrow> base_uint" where
  "base_uint_SetHex WIDTH psz =
     (let psz = dropWhile c_isspace psz;
          psz = skip_0x psz;
          digits = takeWhile is_hex_run psz
      in limbs_of_bytes (sethex_bytes (WIDTH * 4) (rev digits)))"

section \<open>Number of significant bits\<close>

primrec bits_in_limb :: "nat \<Rightarrow> u32 \<Rightarrow> nat" where
  "bits_in_limb 0 p = 1"
| "bits_in_limb (Suc b) p = (if p AND push_bit (Suc b) 1 \<noteq> 0 then Suc b + 1 else bits_in_limb b p)"

primrec bits_loop :: "nat \<Rightarrow> base_uint \<Rightarrow> nat" where
  "bits_loop 0 pn = 0"
| "bits_loop (Suc pos) pn =
     (if pn ! pos \<noteq> 0 then 32 * pos + bits_in_limb 31 (pn ! pos) else bits_loop pos pn)"

definition base_uint_bits :: "base_uint \<Rightarrow> nat" where
  "base_uint_bits pn = bits_loop (length pn) pn"

section \<open>Compact representation, multiplication and division of uint256\<close>

abbreviation (input) uint256_WIDTH :: nat where
  "uint256_WIDTH \<equiv> 8"

abbreviation (input) uint160_WIDTH :: nat where
  "uint160_WIDTH \<equiv> 5"

text \<open>The result is the number with the two output flags \<open>pfNegative\<close> and \<open>pfOverflow\<close>.\<close>

definition uint256_SetCompact :: "u32 \<Rightarrow> base_uint \<times> bool \<times> bool" where
  "uint256_SetCompact nCompact =
     (let nSize = unat (drop_bit 24 nCompact);
          nWord = nCompact AND 0x007fffff;
          nWord = (if nSize \<le> 3 then drop_bit (8 * (3 - nSize)) nWord else nWord);
          this = base_uint_assign64 uint256_WIDTH (ucast nWord);
          this = (if nSize \<le> 3 then this else base_uint_shl this (8 * (nSize - 3)));
          fNegative = (nWord \<noteq> 0 \<and> nCompact AND 0x00800000 \<noteq> 0);
          fOverflow = (nWord \<noteq> 0 \<and> (nSize > 34 \<or> nWord > 0xff \<and> nSize > 33
                                       \<or> nWord > 0xffff \<and> nSize > 32))
      in (this, fNegative, fOverflow))"

text \<open>\<open>None\<close> is the program stopping at one of the two assertions.\<close>

definition uint256_GetCompact :: "base_uint \<Rightarrow> bool \<Rightarrow> u32 option" where
  "uint256_GetCompact pn fNegative =
     (let nSize = (base_uint_bits pn + 7) div 8;
          nCompact = (if nSize \<le> 3 then ucast (push_bit (8 * (3 - nSize)) (base_uint_Get64 pn 0))
                      else ucast (base_uint_Get64 (base_uint_shr pn (8 * (nSize - 3))) 0)) :: u32;
          high = (nCompact AND 0x00800000 \<noteq> 0);
          nSize = (if high then nSize + 1 else nSize);
          nCompact = (if high then drop_bit 8 nCompact else nCompact)
      in if nCompact AND NOT 0x007fffff \<noteq> 0 then None
         else if \<not> nSize < 256 then None
         else let nCompact = nCompact OR push_bit 24 (of_nat nSize)
              in Some (nCompact OR (if fNegative \<and> nCompact AND 0x007fffff \<noteq> 0
                                    then 0x00800000 else 0)))"

primrec mul32_loop :: "u32 \<Rightarrow> u64 \<Rightarrow> base_uint \<Rightarrow> base_uint" where
  "mul32_loop b32 carry [] = []"
| "mul32_loop b32 carry (p # pn) =
     (let n = carry + ucast b32 * ucast p
      in ucast (n AND 0xffffffff) # mul32_loop b32 (drop_bit 32 n) pn)"

definition uint256_mul32 :: "base_uint \<Rightarrow> u32 \<Rightarrow> base_uint" where
  "uint256_mul32 pn b32 = mul32_loop b32 0 pn"

fun mul_step :: "base_uint \<Rightarrow> base_uint \<Rightarrow> nat \<Rightarrow> nat \<Rightarrow> u64 \<times> base_uint \<Rightarrow> u64 \<times> base_uint" where
  "mul_step a b j i (carry, pn) =
     (let n = carry + ucast (pn ! (i + j)) + ucast (a ! j) * ucast (b ! i)
      in (drop_bit 32 n, pn[i + j := ucast (n AND 0xffffffff)]))"

text \<open>
  The source declares \<open>uint256 a\<close> without initialising it from \<open>*this\<close>, so \<open>a\<close> is
  the zero its constructor makes, multiplies by that, and assigns it to the result.
\<close>

definition uint256_mul :: "base_uint \<Rightarrow> base_uint \<Rightarrow> base_uint" where
  "uint256_mul pn b =
     (let a = replicate uint256_WIDTH 0;
          pn = fold (\<lambda>j pn. snd (fold (mul_step a b j) [0..<uint256_WIDTH - j] (0, pn)))
                 [0..<uint256_WIDTH] pn;
          pn = a
      in pn)"

primrec div_loop :: "nat \<Rightarrow> base_uint \<Rightarrow> base_uint \<Rightarrow> base_uint \<Rightarrow> base_uint" where
  "div_loop 0 num dv pn = pn"
| "div_loop (Suc shift) num dv pn =
     (if base_uint_ge num dv
      then div_loop shift (base_uint_sub num dv) (base_uint_shr dv 1)
             (pn[shift div 32 := pn ! (shift div 32) OR push_bit (shift mod 32) 1])
      else div_loop shift num (base_uint_shr dv 1) pn)"

text \<open>\<open>None\<close> is the exception \<open>uint256_error("Division by zero")\<close>.\<close>

definition uint256_div :: "base_uint \<Rightarrow> base_uint \<Rightarrow> base_uint option" where
  "uint256_div num dv =
     (let pn = base_uint_assign64 (length num) 0;
          num_bits = base_uint_bits num;
          div_bits = base_uint_bits dv
      in if div_bits = 0 then None
         else if div_bits > num_bits then Some pn
         else let shift = num_bits - div_bits
              in Some (div_loop (shift + 1) num (base_uint_shl dv shift) pn))"

text \<open>The compact form of a number \<open>v\<close> of \<open>n\<close> bytes, as arithmetic; only the proofs use it.\<close>

definition compact_nat :: "nat \<Rightarrow> nat \<Rightarrow> nat" where
  "compact_nat n v =
     (let m = (if n \<le> 3 then v * 256 ^ (3 - n) else v div 256 ^ (n - 3))
      in if 2 ^ 23 \<le> m then m div 256 + 2 ^ 24 * (n + 1) else m + 2 ^ 24 * n)"

section \<open>Arithmetic refinement\<close>

lemma limb_sum:
  fixes carry :: u64 and p q :: u32
  assumes "unat carry \<le> 1"
  shows "unat (carry + ucast p + ucast q) = unat carry + unat p + unat q"
proof -
  have "unat p < 2 ^ 32" "unat q < 2 ^ 32" using unat_less_power [of p] unat_less_power [of q] by simp_all
  with assms have "unat carry + unat p + unat q < 2 ^ 64" by simp
  then show ?thesis
    by (simp add: unat_word_ariths unsigned_ucast_eq take_bit_eq_mod)
qed

lemma low_limb: "unat (ucast (n AND 0xffffffff :: u64) :: u32) = unat n mod 2 ^ 32"
proof -
  have m: "(0xffffffff :: u64) = mask 32" by (simp add: mask_eq_exp_minus_1)
  have "n AND 0xffffffff = take_bit 32 n" unfolding m by (rule take_bit_eq_mask [symmetric])
  then have "unat (ucast (n AND 0xffffffff :: u64) :: u32) = take_bit LENGTH(32) (unat (take_bit 32 n))"
    using unsigned_ucast_eq [of "take_bit 32 n", where ?'c = 32] by (simp only:)
  also have "unat (take_bit 32 n) = take_bit 32 (unat n)" by (rule unsigned_take_bit_eq)
  finally show ?thesis by (simp add: take_bit_eq_mod)
qed

lemma high_limb: "unat (drop_bit 32 n :: u64) = unat n div 2 ^ 32"
  by (rule trans [OF unat_drop_bit_eq drop_bit_eq_div])

lemma length_add_loop: "length a = length b \<Longrightarrow> length (add_loop c a b) = length a"
  by (induction c a b rule: add_loop.induct) (auto simp: Let_def)

lemma length_inc [simp]: "length (base_uint_inc a) = length a"
  by (induction a) auto

lemma length_dec [simp]: "length (base_uint_dec a) = length a"
  by (induction a) auto

lemma carry_step: "m mod X + X * ((m div X + k) mod Y) = (m + X * k) mod (X * Y :: nat)"
proof (cases "X = 0")
  case False
  then have "(m + X * k) div X = m div X + k" by simp
  then show ?thesis by (simp add: mod_mult2_eq)
qed simp

lemma wval_Cons_mod:
  assumes "unat (l :: u32) = m mod 2 ^ 32" and "wval ls = (m div 2 ^ 32 + k) mod 2 ^ (32 * length ls)"
  shows "wval (l # ls) = (m + 2 ^ 32 * k) mod 2 ^ (32 * length (l # ls))"
proof -
  have "wval (l # ls) = m mod 2 ^ 32 + 2 ^ 32 * ((m div 2 ^ 32 + k) mod 2 ^ (32 * length ls))"
    using assms by simp
  also have "\<dots> = (m + 2 ^ 32 * k) mod (2 ^ 32 * 2 ^ (32 * length ls))"
    by (rule carry_step)
  also have "(2 :: nat) ^ 32 * 2 ^ (32 * length ls) = 2 ^ (32 * length (l # ls))"
    unfolding power_add [symmetric] by simp
  finally show ?thesis .
qed

lemma wval_add_loop:
  "unat c \<le> 1 \<Longrightarrow> length a = length b \<Longrightarrow>
   wval (add_loop c a b) = (unat c + wval a + wval b) mod 2 ^ (32 * length a)"
proof (induction c a b rule: add_loop.induct)
  case (1 carry p pn q b)
  define n where "n = carry + ucast p + ucast q"
  let ?r = "add_loop (drop_bit 32 n) pn b"
  have n: "unat n = unat carry + unat p + unat q"
    unfolding n_def using "1.prems" by (intro limb_sum) auto
  have "unat n < 2 * 2 ^ 32"
    using unat_less_power [of p] unat_less_power [of q] "1.prems"(1) n by simp
  then have c: "unat (drop_bit 32 n) \<le> 1"
    unfolding high_limb using less_mult_imp_div_less [of "unat n" 2 "2 ^ 32"] by linarith
  have len: "length ?r = length pn" using "1.prems" by (simp add: length_add_loop)
  have "wval ?r = (unat n div 2 ^ 32 + (wval pn + wval b)) mod 2 ^ (32 * length ?r)"
    using "1.IH" [OF n_def c] "1.prems" by (simp only: high_limb len) (simp add: add.assoc)
  then have "wval (ucast (n AND 0xffffffff) # ?r)
      = (unat n + 2 ^ 32 * (wval pn + wval b)) mod 2 ^ (32 * length (ucast (n AND 0xffffffff) # ?r))"
    by (rule wval_Cons_mod [OF low_limb])
  moreover have "add_loop carry (p # pn) (q # b) = ucast (n AND 0xffffffff) # ?r"
    by (simp add: n_def Let_def)
  ultimately show ?case by (simp add: n len add.assoc add.left_commute)
qed auto

lemma limb_bound: "wval (a :: base_uint) < 2 ^ (32 * length a)"
  using wval_bound [of a] by simp

lemma limb_mod [simp]: "wval (a :: base_uint) mod 2 ^ (32 * length a) = wval a"
  by (simp add: limb_bound)

lemma wval_inc: "wval (base_uint_inc a) = (wval a + 1) mod 2 ^ (32 * length a)"
proof (induction a)
  case Nil
  then show ?case by simp
next
  case (Cons p pn)
  have m: "unat (p + 1) = (unat p + 1) mod 2 ^ 32" by (simp add: unat_word_ariths)
  have len: "length (base_uint_inc pn) = length pn" by (rule length_inc)
  show ?case
  proof (cases "p + 1 = 0")
    case True
    with m have "(unat p + 1) mod 2 ^ 32 = 0" by simp
    then have "unat p + 1 = 2 ^ 32" using unat_less_power [of p] by (auto simp: mod_eq_0_iff_dvd dest!: dvd_imp_le)
    then have "wval ((p + 1) # base_uint_inc pn) = (unat p + 1 + 2 ^ 32 * wval pn) mod 2 ^ (32 * length ((p + 1) # base_uint_inc pn))"
      by (intro wval_Cons_mod [OF m]) (simp add: Cons len add.commute)
    with True show ?thesis by (simp add: len)
  next
    case False
    then have "unat p + 1 \<noteq> 2 ^ 32" using m unat_eq_0 by force
    then have "unat p + 1 < 2 ^ 32" using unat_less_power [of p] by simp
    then have "wval ((p + 1) # pn) = (unat p + 1 + 2 ^ 32 * wval pn) mod 2 ^ (32 * length ((p + 1) # pn))"
      by (intro wval_Cons_mod [OF m]) simp
    with False show ?thesis by simp
  qed
qed

lemma unat_minus_1: "unat (- 1 :: u32) = 2 ^ 32 - 1"
  by (simp add: unsigned_minus_1_eq_mask mask_eq_exp_minus_1)

lemma unat_NOT: "unat (NOT p :: u32) = 2 ^ 32 - 1 - unat p"
proof -
  have "NOT p = - 1 - p" by (simp add: not_eq_complement)
  moreover have "unat (- 1 - p) = unat (- 1 :: u32) - unat p" by (rule unat_sub) simp
  ultimately show ?thesis by (simp only: unat_minus_1)
qed

lemma compl_step: "x + y + 1 = X \<Longrightarrow> (x + X * a) + (y + X * b) + 1 = X * (a + b + 1 :: nat)"
  by (auto simp: algebra_simps)

lemma wval_compl: "wval (map (\<lambda>p. NOT p) a) + wval a + 1 = 2 ^ (32 * length (a :: base_uint))"
proof (induction a)
  case Nil
  then show ?case by simp
next
  case (Cons p pn)
  have "unat (NOT p) + unat p + 1 = 2 ^ LENGTH(32)"
    using unat_less_power [of p] unat_NOT [of p] by simp
  from compl_step [OF this, of "wval (map (\<lambda>p. NOT p) pn)" "wval pn"]
  have "wval (map (\<lambda>p. NOT p) (p # pn)) + wval (p # pn) + 1 = 2 ^ LENGTH(32) * 2 ^ (32 * length pn)"
    by (simp only: list.map wval.simps Cons)
  also have "\<dots> = 2 ^ (32 * length (p # pn))" unfolding power_add [symmetric] by simp
  finally show ?case .
qed

lemma wval_dec: "wval (base_uint_dec a) = (wval a + (2 ^ (32 * length a) - 1)) mod 2 ^ (32 * length a)"
proof (induction a)
  case Nil
  then show ?case by simp
next
  case (Cons p pn)
  let ?N = "2 ^ (32 * length pn) :: nat"
  have m: "unat (p - 1) = (unat p + (2 ^ 32 - 1)) mod 2 ^ 32"
  proof (cases "p = 0")
    case False
    then have "0 < unat p" by (simp add: unat_gt_0)
    then have "unat p + (2 ^ 32 - 1) = unat (p - 1) + 2 ^ 32"
      by (simp add: unat_minus_one [OF False])
    then show ?thesis using unat_less_power [of "p - 1"] by simp
  qed (simp add: unat_minus_1)
  have N: "2 ^ (32 * length (p # pn)) = 2 ^ 32 * ?N" unfolding power_add [symmetric] by simp
  have k: "unat p + (2 ^ 32 - 1) + 2 ^ 32 * (wval pn + (?N - 1)) = wval (p # pn) + (2 ^ (32 * length (p # pn)) - 1)"
  proof -
    have "1 \<le> ?N" by simp
    then obtain M where "?N = M + 1" by (metis le_add_diff_inverse2)
    then show ?thesis unfolding N by simp
  qed
  show ?case
  proof (cases "p = 0")
    case True
    then have "wval ((p - 1) # base_uint_dec pn)
        = (unat p + (2 ^ 32 - 1) + 2 ^ 32 * (wval pn + (?N - 1))) mod 2 ^ (32 * length ((p - 1) # base_uint_dec pn))"
      by (intro wval_Cons_mod [OF m]) (simp add: Cons)
    moreover have "base_uint_dec (p # pn) = (p - 1) # base_uint_dec pn"
      using True by simp
    ultimately show ?thesis unfolding k by (simp only: length_Cons length_dec)
  next
    case False
    then have "0 < unat p" by (simp add: unat_gt_0)
    then obtain r where "unat p = r + 1" by (metis Suc_eq_plus1 gr0_implies_Suc)
    moreover from this have "r < 2 ^ 32" using unat_less_power [of p] by simp
    ultimately have "(unat p + (2 ^ 32 - 1)) div 2 ^ 32 = 1" by simp
    moreover have "1 + (wval pn + (?N - 1)) = wval pn + ?N" by simp
    ultimately have tail: "wval pn = ((unat p + (2 ^ 32 - 1)) div 2 ^ 32 + (wval pn + (?N - 1))) mod ?N"
      by (simp only: mod_add_self2 limb_mod)
    have "wval ((p - 1) # pn)
        = (unat p + (2 ^ 32 - 1) + 2 ^ 32 * (wval pn + (?N - 1))) mod 2 ^ (32 * length ((p - 1) # pn))"
      using tail by (intro wval_Cons_mod [OF m]) (simp only:)
    moreover have "base_uint_dec (p # pn) = (p - 1) # pn"
      using False by simp
    ultimately show ?thesis unfolding k by (simp only: length_Cons)
  qed
qed

lemma wval_neg: "wval (base_uint_neg a) = (2 ^ (32 * length a) - wval a) mod 2 ^ (32 * length a)"
proof -
  have "wval (map (\<lambda>p. NOT p) a) + 1 = 2 ^ (32 * length a) - wval a"
    using wval_compl [of a] by linarith
  then show ?thesis by (simp add: base_uint_neg_def wval_inc)
qed

lemma length_neg [simp]: "length (base_uint_neg a) = length a"
  by (simp add: base_uint_neg_def)

lemma length_add [simp]: "length a = length b \<Longrightarrow> length (base_uint_add a b) = length a"
  by (simp add: base_uint_add_def length_add_loop)

lemma length_sub [simp]: "length a = length b \<Longrightarrow> length (base_uint_sub a b) = length a"
  by (simp add: base_uint_sub_def)

lemma length_assign64 [simp]: "2 \<le> n \<Longrightarrow> length (base_uint_assign64 n b) = n"
  by (simp add: base_uint_assign64_def)

lemma wval_add: "length a = length b \<Longrightarrow>
   wval (base_uint_add a b) = (wval a + wval b) mod 2 ^ (32 * length a)"
  by (simp add: base_uint_add_def wval_add_loop)

lemma wval_sub: "length a = length b \<Longrightarrow>
   wval (base_uint_sub a b) = (wval a + (2 ^ (32 * length a) - wval b)) mod 2 ^ (32 * length a)"
  by (simp add: base_uint_sub_def wval_add wval_neg mod_add_right_eq)

lemma unat_ucast32: "unat (ucast (w :: u64) :: u32) = unat w mod 2 ^ 32"
proof -
  have "unat (ucast w :: u32) = take_bit LENGTH(32) (unat w)" by (rule unsigned_ucast_eq)
  then show ?thesis by (simp add: take_bit_eq_mod)
qed

lemma wval_assign64: "wval (base_uint_assign64 n b) = unat b"
proof -
  have "unat b < 2 ^ 32 * 2 ^ 32" using unat_less_power [of b] by simp
  then have "unat b div 2 ^ 32 < 2 ^ 32" by (rule less_mult_imp_div_less)
  then have "unat (ucast (drop_bit 32 b) :: u32) = unat b div 2 ^ 32"
    by (simp only: unat_ucast32 high_limb mod_less)
  then show ?thesis
    by (simp only: base_uint_assign64_def wval.simps wval_replicate_0 unat_ucast32) simp
qed

section \<open>Comparison and shift refinement\<close>

lemma lex_less:
  fixes x y p q M :: nat
  assumes "x < M" "y < M"
  shows "x + M * p < y + M * q \<longleftrightarrow> p < q \<or> p = q \<and> x < y"
proof -
  have *: "x + M * p < y + M * q" if "p < q" "x < M" for x y p q
  proof -
    have "x + M * p < M * (p + 1)" using that by simp
    also have "\<dots> \<le> M * q" using that by (intro mult_le_mono2) simp
    finally show ?thesis by simp
  qed
  show ?thesis
    using * [of p q x y] * [of q p y x] assms by (cases p q rule: linorder_cases) auto
qed

lemma wval_take_Suc:
  "i < length a \<Longrightarrow> wval (take (Suc i) a) = wval (take i a) + 2 ^ (32 * i) * unat (a ! i)"
  for a :: base_uint
  by (simp add: take_Suc_conv_app_nth wval_append)

lemma wval_take_bound: "wval (take i a) < 2 ^ (32 * i)" for a :: base_uint
proof -
  have "wval (take i a) < 2 ^ (32 * length (take i a))" by (rule limb_bound)
  also have "\<dots> \<le> 2 ^ (32 * i)" by (intro power_increasing) auto
  finally show ?thesis .
qed

lemma lt_loop_less:
  assumes "i \<le> length a" "length a = length b"
  shows "lt_loop i a b \<longleftrightarrow> wval (take i a) < wval (take i b)"
  using assms(1)
proof (induction i)
  case 0
  then show ?case by simp
next
  case (Suc i)
  have "wval (take (Suc i) a) < wval (take (Suc i) b)
      \<longleftrightarrow> unat (a ! i) < unat (b ! i) \<or> unat (a ! i) = unat (b ! i) \<and> wval (take i a) < wval (take i b)"
    using Suc.prems assms(2) by (simp add: wval_take_Suc lex_less wval_take_bound)
  then show ?case using Suc by (auto simp: word_less_nat_alt)
qed

lemma base_uint_lt: "length a = length b \<Longrightarrow> base_uint_lt a b \<longleftrightarrow> wval a < wval b"
  by (simp add: base_uint_lt_def lt_loop_less)

lemma gt_loop_eq: "gt_loop i a b = lt_loop i b a"
  by (induction i) auto

lemma ge_loop_eq: "ge_loop i a b = (\<not> lt_loop i a b)"
  by (induction i) auto

lemma le_loop_eq: "le_loop i a b = (\<not> lt_loop i b a)"
  by (induction i) auto

lemma base_uint_order:
  assumes "length a = length b"
  shows base_uint_le: "base_uint_le a b \<longleftrightarrow> wval a \<le> wval b"
    and base_uint_gt: "base_uint_gt a b \<longleftrightarrow> wval a > wval b"
    and base_uint_ge: "base_uint_ge a b \<longleftrightarrow> wval a \<ge> wval b"
  using assms base_uint_lt [of a b] base_uint_lt [of b a]
  by (auto simp: base_uint_le_def base_uint_gt_def base_uint_ge_def base_uint_lt_def
      gt_loop_eq ge_loop_eq le_loop_eq)

lemma base_uint_eq: "length a = length b \<Longrightarrow> base_uint_eq a b \<longleftrightarrow> a = b"
  by (induction a b rule: base_uint_eq.induct) auto

lemma list_all_0: "list_all (\<lambda>p. p = 0) r \<longleftrightarrow> r = replicate (length r) 0"
  by (induction r) auto

lemma base_uint_eq64:
  assumes "2 \<le> length a"
  shows "base_uint_eq64 a b \<longleftrightarrow> wval a = unat b"
proof -
  obtain p q r where a: "a = p # q # r"
    using assms by (metis Suc_le_length_iff numeral_2_eq_2)
  have "base_uint_eq64 a b \<longleftrightarrow> a = base_uint_assign64 (length a) b"
    by (auto simp: a base_uint_eq64_def base_uint_assign64_def list_all_0)
  also have "\<dots> \<longleftrightarrow> wval a = wval (base_uint_assign64 (length a) b)"
    using assms by (intro wval_inject [symmetric]) simp
  finally show ?thesis by (simp only: wval_assign64)
qed

lemma base_uint_not: "base_uint_not a \<longleftrightarrow> wval a = 0"
  by (induction a) (auto simp: unat_eq_0)

subsection \<open>Shifts\<close>

lemma length_shl_step [simp]: "length (shl_step a k s i pn) = length pn"
  by (simp add: shl_step_def Let_def)

lemma length_shl_fold: "length (fold (shl_step a k s) is pn) = length pn"
  by (induction "is" arbitrary: pn) auto

lemma length_shl [simp]: "length (base_uint_shl a s) = length a"
  by (simp add: base_uint_shl_def length_shl_fold)

lemma shl_fold_nth:
  assumes "m \<le> length a" "j < length a"
  shows "fold (shl_step a k s) [0..<m] (replicate (length a) 0) ! j
    = (if k \<le> j \<and> j - k < m then push_bit s (a ! (j - k)) else 0)
      OR (if k + 1 \<le> j \<and> j - k - 1 < m \<and> s \<noteq> 0 then drop_bit (32 - s) (a ! (j - k - 1)) else 0)"
  using assms(1)
proof (induction m)
  case 0
  then show ?case using assms(2) by simp
next
  case (Suc m)
  let ?pn = "fold (shl_step a k s) [0..<m] (replicate (length a) 0)"
  have len: "length ?pn = length a" by (simp add: length_shl_fold)
  have step: "fold (shl_step a k s) [0..<Suc m] (replicate (length a) 0) = shl_step a k s m ?pn" by simp
  have IH: "?pn ! j = (if k \<le> j \<and> j - k < m then push_bit s (a ! (j - k)) else 0)
      OR (if k + 1 \<le> j \<and> j - k - 1 < m \<and> s \<noteq> 0 then drop_bit (32 - s) (a ! (j - k - 1)) else 0)"
    using Suc by simp
  consider "j = m + k" | "j = m + k + 1" | "j \<noteq> m + k" "j \<noteq> m + k + 1" by blast
  then show ?case
  proof cases
    case 1
    then show ?thesis using assms(2) IH unfolding step
      by (auto simp: shl_step_def Let_def len nth_list_update or.commute)
  next
    case 2
    then show ?thesis using assms(2) IH unfolding step
      by (auto simp: shl_step_def Let_def len nth_list_update)
  next
    case 3
    then have "(shl_step a k s m ?pn) ! j = ?pn ! j"
      by (simp add: shl_step_def Let_def)
    moreover have "j - k < Suc m \<longleftrightarrow> j - k < m" if "k \<le> j" using 3 that by auto
    moreover have "j - k - 1 < Suc m \<longleftrightarrow> j - k - 1 < m" if "k + 1 \<le> j" using 3 that by auto
    ultimately show ?thesis unfolding step using IH by auto
  qed
qed

lemma bit_limbs: "r < 32 \<Longrightarrow> bit (wval a) (32 * j + r) \<longleftrightarrow> j < length a \<and> bit (a ! j) r"
  for a :: base_uint
  by (simp add: bit_wval)

lemma bit_beyond_limb: "32 \<le> m \<Longrightarrow> \<not> bit (w :: u32) m"
  using bit_imp_le_length [of w m] by auto

lemma shl_nth:
  "j < length a \<Longrightarrow> base_uint_shl a shift ! j
    = (if shift div 32 \<le> j then push_bit (shift mod 32) (a ! (j - shift div 32)) else 0)
      OR (if shift div 32 + 1 \<le> j \<and> shift mod 32 \<noteq> 0
          then drop_bit (32 - shift mod 32) (a ! (j - shift div 32 - 1)) else 0)"
  unfolding base_uint_shl_def by (subst shl_fold_nth) auto

lemma wval_shl: "wval (base_uint_shl a shift) = (wval a * 2 ^ shift) mod 2 ^ (32 * length a)"
proof -
  have "wval (base_uint_shl a shift) = take_bit (32 * length a) (push_bit shift (wval a))"
  proof (rule bit_eqI)
    fix n :: nat
    define j r where "j = n div 32" and "r = n mod 32"
    define k s where "k = shift div 32" and "s = shift mod 32"
    have n: "n = 32 * j + r" "r < 32" and sh: "shift = 32 * k + s" "s < 32"
      by (simp_all add: j_def r_def k_def s_def)
    show "bit (wval (base_uint_shl a shift)) n = bit (take_bit (32 * length a) (push_bit shift (wval a))) n"
    proof (cases "j < length a")
      case False
      then show ?thesis by (simp add: bit_wval bit_take_bit_iff j_def [symmetric]) (simp add: n)
    next
      case True
      then have lhs: "bit (wval (base_uint_shl a shift)) n
        \<longleftrightarrow> k \<le> j \<and> s \<le> r \<and> bit (a ! (j - k)) (r - s)
           \<or> k + 1 \<le> j \<and> s \<noteq> 0 \<and> bit (a ! (j - k - 1)) (32 - s + r)"
        using n(2) by (auto simp: bit_wval j_def [symmetric] r_def [symmetric] shl_nth
            k_def [symmetric] s_def [symmetric] bit_or_iff bit_push_bit_iff bit_drop_bit_eq)
      have rhs: "bit (take_bit (32 * length a) (push_bit shift (wval a))) n
        \<longleftrightarrow> shift \<le> n \<and> bit (wval a) (n - shift)"
        using True n(2) by (simp add: bit_take_bit_iff bit_push_bit_iff n(1))
      show ?thesis
      proof (cases "s \<le> r")
        case True
        then have "shift \<le> n \<longleftrightarrow> k \<le> j" using n sh by auto
        moreover have "bit (wval a) (n - shift) \<longleftrightarrow> bit (a ! (j - k)) (r - s)" if "k \<le> j"
        proof -
          have "n - shift = 32 * (j - k) + (r - s)" using True n sh that by (simp add: diff_mult_distrib2)
          then show ?thesis using bit_limbs [of "r - s" a "j - k"] n(2) \<open>j < length a\<close> by auto
        qed
        ultimately show ?thesis unfolding lhs rhs using True by (auto simp: bit_beyond_limb)
      next
        case False
        then have "shift \<le> n \<longleftrightarrow> k + 1 \<le> j" using n sh by auto
        moreover have "bit (wval a) (n - shift) \<longleftrightarrow> bit (a ! (j - k - 1)) (32 - s + r)" if "k + 1 \<le> j"
        proof -
          have "n - shift = 32 * (j - k - 1) + (32 - s + r)"
            using False n sh that by (simp add: diff_mult_distrib2)
          then show ?thesis
            using bit_limbs [of "32 - s + r" a "j - k - 1"] False sh(2) \<open>j < length a\<close> by auto
        qed
        ultimately show ?thesis unfolding lhs rhs using False by auto
      qed
    qed
  qed
  then show ?thesis by (simp add: take_bit_eq_mod push_bit_eq_mult)
qed

lemma length_shr_step [simp]: "length (shr_step a k s i pn) = length pn"
  by (simp add: shr_step_def Let_def)

lemma length_shr_fold: "length (fold (shr_step a k s) is pn) = length pn"
  by (induction "is" arbitrary: pn) auto

lemma length_shr [simp]: "length (base_uint_shr a s) = length a"
  by (simp add: base_uint_shr_def length_shr_fold)

lemma shr_fold_nth:
  assumes "m \<le> length a" "j < length a"
  shows "fold (shr_step a k s) [0..<m] (replicate (length a) 0) ! j
    = (if j + k < m then drop_bit s (a ! (j + k)) else 0)
      OR (if j + k + 1 < m \<and> s \<noteq> 0 then push_bit (32 - s) (a ! (j + k + 1)) else 0)"
  using assms(1)
proof (induction m)
  case 0
  then show ?case using assms(2) by simp
next
  case (Suc m)
  let ?pn = "fold (shr_step a k s) [0..<m] (replicate (length a) 0)"
  have len: "length ?pn = length a" by (simp add: length_shr_fold)
  have step: "fold (shr_step a k s) [0..<Suc m] (replicate (length a) 0) = shr_step a k s m ?pn" by simp
  have IH: "?pn ! j = (if j + k < m then drop_bit s (a ! (j + k)) else 0)
      OR (if j + k + 1 < m \<and> s \<noteq> 0 then push_bit (32 - s) (a ! (j + k + 1)) else 0)"
    using Suc by simp
  consider "m = j + k" | "m = j + k + 1" | "m \<noteq> j + k" "m \<noteq> j + k + 1" by blast
  then show ?case
  proof cases
    case 1
    then show ?thesis using assms(2) IH unfolding step
      by (auto simp: shr_step_def Let_def length_shr_fold nth_list_update)
  next
    case 2
    then show ?thesis using assms(2) IH unfolding step
      by (auto simp: shr_step_def Let_def length_shr_fold nth_list_update)
  next
    case 3
    then have "(shr_step a k s m ?pn) ! j = ?pn ! j"
      by (auto simp: shr_step_def Let_def nth_list_update)
    then show ?thesis unfolding step using IH 3 by auto
  qed
qed

lemma shr_nth:
  "j < length a \<Longrightarrow> base_uint_shr a shift ! j
    = (if j + shift div 32 < length a then drop_bit (shift mod 32) (a ! (j + shift div 32)) else 0)
      OR (if j + shift div 32 + 1 < length a \<and> shift mod 32 \<noteq> 0
          then push_bit (32 - shift mod 32) (a ! (j + shift div 32 + 1)) else 0)"
  unfolding base_uint_shr_def by (subst shr_fold_nth) auto

lemma wval_shr: "wval (base_uint_shr a shift) = wval a div 2 ^ shift"
proof -
  have "wval (base_uint_shr a shift) = drop_bit shift (wval a)"
  proof (rule bit_eqI)
    fix n :: nat
    define j r where "j = n div 32" and "r = n mod 32"
    define k s where "k = shift div 32" and "s = shift mod 32"
    have n: "n = 32 * j + r" "r < 32" and sh: "shift = 32 * k + s" "s < 32"
      by (simp_all add: j_def r_def k_def s_def)
    have rhs: "bit (drop_bit shift (wval a)) n \<longleftrightarrow> bit (wval a) (shift + n)"
      by (simp add: bit_drop_bit_eq)
    have lhs: "bit (wval (base_uint_shr a shift)) n
        \<longleftrightarrow> j < length a \<and> (j + k < length a \<and> bit (a ! (j + k)) (s + r)
           \<or> j + k + 1 < length a \<and> s \<noteq> 0 \<and> 32 - s \<le> r \<and> bit (a ! (j + k + 1)) (r - (32 - s)))"
      using n(2) by (auto simp: bit_wval j_def [symmetric] r_def [symmetric] shr_nth
            k_def [symmetric] s_def [symmetric] bit_or_iff bit_push_bit_iff bit_drop_bit_eq split: if_splits)
    show "bit (wval (base_uint_shr a shift)) n = bit (drop_bit shift (wval a)) n"
    proof (cases "s + r < 32")
      case True
      have "shift + n = 32 * (j + k) + (s + r)" by (simp add: n sh)
      then show ?thesis unfolding lhs rhs using True bit_limbs [of "s + r" a "j + k"] by auto
    next
      case False
      then have "shift + n = 32 * (j + k + 1) + (r - (32 - s))" using n sh by simp
      then show ?thesis unfolding lhs rhs
        using False bit_limbs [of "r - (32 - s)" a "j + k + 1"] n(2) sh(2) by (auto simp: bit_beyond_limb)
    qed
  qed
  then show ?thesis by (simp add: drop_bit_eq_div)
qed

section \<open>Significant bits, products and quotients\<close>

lemma and_push_bit_1: "n < 32 \<Longrightarrow> (p AND push_bit n 1 \<noteq> 0) \<longleftrightarrow> bit (p :: u32) n"
  by (simp add: and_exp_eq_0_iff_not_bit)

lemma bits_in_limb:
  assumes "p \<noteq> 0" "unat p < 2 ^ Suc b" "b < 32"
  shows "unat p < 2 ^ bits_in_limb b p \<and> 2 ^ (bits_in_limb b p - 1) \<le> unat p
    \<and> 1 \<le> bits_in_limb b p \<and> bits_in_limb b p \<le> Suc b"
  using assms
proof (induction b)
  case 0
  then show ?case by (auto simp: unat_gt_0 Suc_le_eq)
next
  case (Suc b)
  have "(p AND push_bit (Suc b) 1 \<noteq> 0) \<longleftrightarrow> 2 ^ Suc b \<le> unat p"
    using Suc.prems bit_top_iff [of "unat p" "Suc b"] and_push_bit_1 [of "Suc b" p]
    by (simp only: bit_unsigned_iff) auto
  then show ?case using Suc
    by (cases "2 ^ Suc b \<le> unat p") auto
qed

lemma bits_loop:
  "n \<le> length a \<Longrightarrow> wval (take n a) < 2 ^ bits_loop n a
    \<and> (wval (take n a) \<noteq> 0 \<longrightarrow> 2 ^ (bits_loop n a - 1) \<le> wval (take n a) \<and> 0 < bits_loop n a)
    \<and> (wval (take n a) = 0 \<longrightarrow> bits_loop n a = 0) \<and> bits_loop n a \<le> 32 * n"
  for a :: base_uint
proof (induction n)
  case 0
  then show ?case by simp
next
  case (Suc n)
  show ?case
  proof (cases "a ! n = 0")
    case True
    then show ?thesis using Suc by (auto simp: wval_take_Suc)
  next
    case False
    let ?b = "bits_in_limb 31 (a ! n)" and ?x = "wval (take n a)" and ?p = "unat (a ! n)"
    have b: "?p < 2 ^ ?b" "2 ^ (?b - 1) \<le> ?p" "1 \<le> ?b" "?b \<le> 32"
      using bits_in_limb [OF False, of 31] unat_less_power [of "a ! n"] by auto
    have x: "?x < 2 ^ (32 * n)" by (rule wval_take_bound)
    have "?x + 2 ^ (32 * n) * ?p < 2 ^ (32 * n) * (?p + 1)" using x by simp
    also have "\<dots> \<le> 2 ^ (32 * n) * 2 ^ ?b" using b(1) by (intro mult_le_mono2) simp
    finally have up: "?x + 2 ^ (32 * n) * ?p < 2 ^ (32 * n + ?b)" by (simp add: power_add)
    have "2 ^ (32 * n + ?b - 1) = 2 ^ (32 * n) * (2 :: nat) ^ (?b - 1)"
      using b(3) by (simp flip: power_add)
    also have "\<dots> \<le> 2 ^ (32 * n) * ?p" using b(2) by (rule mult_le_mono2)
    finally have "2 ^ (32 * n + ?b - 1) \<le> ?x + 2 ^ (32 * n) * ?p" by simp
    moreover have "0 < ?p" using False by (simp add: unat_gt_0)
    ultimately show ?thesis using False up b Suc.prems
      by (simp add: wval_take_Suc)
  qed
qed

lemma bits_upper: "wval a < 2 ^ base_uint_bits a"
  and bits_lower: "wval a \<noteq> 0 \<Longrightarrow> 2 ^ (base_uint_bits a - 1) \<le> wval a"
  and bits_pos: "wval a \<noteq> 0 \<Longrightarrow> 0 < base_uint_bits a"
  and bits_zero: "wval a = 0 \<Longrightarrow> base_uint_bits a = 0"
  and bits_le: "base_uint_bits a \<le> 32 * length a"
  for a :: base_uint
  using bits_loop [of "length a" a] by (auto simp: base_uint_bits_def)

lemma limb_prod:
  fixes carry :: u64 and p q :: u32
  assumes "unat carry < 2 ^ 32"
  shows "unat (carry + ucast p * ucast q) = unat carry + unat p * unat q"
    and "unat carry + unat p * unat q < 2 ^ 32 * 2 ^ 32"
proof -
  have pq: "unat p * unat q \<le> (2 ^ 32 - 1) * (2 ^ 32 - 1)"
    using unat_less_power [of p] unat_less_power [of q] by (intro mult_le_mono) simp_all
  then show lt: "unat carry + unat p * unat q < 2 ^ 32 * 2 ^ 32" using assms by simp
  have u: "unat (ucast r :: u64) = unat r" for r :: u32
  proof -
    have "unat (ucast r :: u64) = take_bit LENGTH(64) (unat r)" by (rule unsigned_ucast_eq)
    then show ?thesis using unat_less_power [of r] by (simp add: take_bit_eq_mod)
  qed
  show "unat (carry + ucast p * ucast q) = unat carry + unat p * unat q"
    using lt by (simp add: unat_word_ariths u mod_add_right_eq)
qed

lemma wval_mul32_loop:
  "unat c < 2 ^ 32 \<Longrightarrow> length (mul32_loop b c a) = length a \<and>
   wval (mul32_loop b c a) = (unat c + unat b * wval a) mod 2 ^ (32 * length a)"
proof (induction a arbitrary: c)
  case Nil
  then show ?case by simp
next
  case (Cons p pn)
  define n where "n = c + ucast b * ucast p"
  let ?r = "mul32_loop b (drop_bit 32 n) pn"
  have n: "unat n = unat c + unat b * unat p"
    unfolding n_def using Cons.prems by (rule limb_prod)
  have c: "unat (drop_bit 32 n) < 2 ^ 32"
    unfolding high_limb n using limb_prod(2) [OF Cons.prems] by (intro less_mult_imp_div_less)
  have IH: "length ?r = length pn"
    "wval ?r = (unat n div 2 ^ 32 + unat b * wval pn) mod 2 ^ (32 * length ?r)"
    using Cons.IH [OF c] by (simp_all only: high_limb)
  have "wval (ucast (n AND 0xffffffff) # ?r)
      = (unat n + 2 ^ 32 * (unat b * wval pn)) mod 2 ^ (32 * length (ucast (n AND 0xffffffff) # ?r))"
    by (rule wval_Cons_mod [OF low_limb IH(2)])
  moreover have "mul32_loop b c (p # pn) = ucast (n AND 0xffffffff) # ?r"
    by (simp add: n_def Let_def)
  ultimately show ?case by (simp add: n IH(1) distrib_left add.assoc mult.left_commute)
qed

lemma wval_mul32: "wval (uint256_mul32 a b) = (wval a * unat b) mod 2 ^ (32 * length a)"
  by (simp add: uint256_mul32_def wval_mul32_loop mult.commute)

lemma wval_list_update:
  "i < length a \<Longrightarrow> wval (a[i := w]) + 2 ^ (32 * i) * unat (a ! i) = wval a + 2 ^ (32 * i) * unat w"
  for a :: base_uint
proof (induction a arbitrary: i)
  case Nil
  then show ?case by simp
next
  case (Cons p pn)
  show ?case
  proof (cases i)
    case 0
    then show ?thesis by simp
  next
    case (Suc k)
    have "wval (pn[k := w]) + 2 ^ (32 * k) * unat (pn ! k) = wval pn + 2 ^ (32 * k) * unat w"
      using Cons Suc by simp
    then have "2 ^ 32 * (wval (pn[k := w]) + 2 ^ (32 * k) * unat (pn ! k)) = 2 ^ 32 * (wval pn + 2 ^ (32 * k) * unat w)"
      by simp
    then show ?thesis by (simp only: Suc list_update.simps nth_Cons_Suc nat.case wval.simps distrib_left
          power_add mult.assoc mult_Suc_right) simp
  qed
qed

lemma unat_or_bit:
  assumes "r < 32" "\<not> bit (p :: u32) r"
  shows "unat (p OR push_bit r 1) = unat p + 2 ^ r"
proof -
  have "unat (p OR push_bit r 1) = unat p OR push_bit r 1"
    using assms(1) by (intro bit_eqI) (auto simp: bit_simps)
  also have "\<dots> = unat p + push_bit r 1"
    using assms by (intro disjunctive_add [symmetric]) (auto simp: bit_simps)
  finally show ?thesis by (simp add: push_bit_eq_mult)
qed

lemma wval_set_bit:
  fixes a :: base_uint
  assumes "s < 32 * length a" "\<not> bit (wval a) s"
  shows "wval (a[s div 32 := a ! (s div 32) OR push_bit (s mod 32) 1]) = wval a + 2 ^ s"
proof -
  let ?i = "s div 32" and ?r = "s mod 32"
  have i: "?i < length a" using assms(1) by (simp add: div_less_iff_less_mult mult.commute)
  have "\<not> bit (a ! ?i) ?r" using assms(2) i by (simp add: bit_wval)
  then have "unat (a ! ?i OR push_bit ?r 1) = unat (a ! ?i) + 2 ^ ?r" by (intro unat_or_bit) simp
  then have "wval (a[?i := a ! ?i OR push_bit ?r 1]) + 2 ^ (32 * ?i) * unat (a ! ?i)
     = wval a + 2 ^ (32 * ?i) * (unat (a ! ?i) + 2 ^ ?r)"
    using wval_list_update [OF i] by simp
  moreover have "2 ^ (32 * ?i) * 2 ^ ?r = (2 :: nat) ^ s" by (simp flip: power_add)
  ultimately show ?thesis by (simp add: distrib_left)
qed

lemma wval_sub_le:
  assumes "length a = length b" "wval b \<le> wval a"
  shows "wval (base_uint_sub a b) = wval a - wval b"
proof -
  let ?N = "2 ^ (32 * length a) :: nat"
  have "wval b < ?N" "wval a < ?N" using limb_bound [of a] limb_bound [of b] assms(1) by auto
  then have "wval a + (?N - wval b) = (wval a - wval b) + ?N" and "wval a - wval b < ?N"
    using assms(2) by auto
  then show ?thesis using assms(1) by (simp add: wval_sub)
qed

lemma not_bit_of_dvd: "2 ^ Suc s dvd (x :: nat) \<Longrightarrow> \<not> bit x s"
  by (auto simp: bit_iff_odd dvd_def)

lemma div_loop_correct:
  assumes "0 < d" "length num = length pn" "length dv = length pn" "n \<le> 32 * length pn"
    and "0 < n \<Longrightarrow> wval dv = d * 2 ^ (n - 1)" "wval num < d * 2 ^ n" "2 ^ n dvd wval pn"
  shows "wval (div_loop n num dv pn) = wval pn + wval num div d
     \<and> length (div_loop n num dv pn) = length pn"
  using assms(2-)
proof (induction n arbitrary: num dv pn)
  case 0
  then show ?case by simp
next
  case (Suc s)
  have dv: "wval dv = d * 2 ^ s" using Suc.prems by simp
  have shr: "wval (base_uint_shr dv 1) = d * 2 ^ (s - 1)" if "0 < s"
    using that dv by (cases s) (simp_all add: wval_shr)
  have dvd: "2 ^ s dvd wval pn" using Suc.prems(6) by (auto elim: dvd_trans [rotated])
  show ?case
  proof (cases "base_uint_ge num dv")
    case True
    let ?pn = "pn[s div 32 := pn ! (s div 32) OR push_bit (s mod 32) 1]"
    have ge: "wval dv \<le> wval num" using True Suc.prems by (simp add: base_uint_ge)
    have num: "wval (base_uint_sub num dv) = wval num - d * 2 ^ s"
      using ge Suc.prems by (simp add: wval_sub_le dv)
    have pn: "wval ?pn = wval pn + 2 ^ s"
      using Suc.prems(3) not_bit_of_dvd [OF Suc.prems(6)] by (intro wval_set_bit) auto
    have dvd': "2 ^ s dvd wval ?pn" unfolding pn using dvd by simp
    have "wval (div_loop s (base_uint_sub num dv) (base_uint_shr dv 1) ?pn)
        = wval ?pn + wval (base_uint_sub num dv) div d
      \<and> length (div_loop s (base_uint_sub num dv) (base_uint_shr dv 1) ?pn) = length ?pn"
      using Suc.prems shr dvd' ge by (intro Suc.IH) (auto simp: num dv)
    moreover have "wval num div d = 2 ^ s + (wval num - d * 2 ^ s) div d"
    proof -
      obtain x where "wval num = x + d * 2 ^ s" using ge dv by (metis le_add_diff_inverse2)
      then show ?thesis using assms(1) by simp
    qed
    ultimately show ?thesis using True pn by (simp add: num)
  next
    case False
    then have "wval num < d * 2 ^ s" using Suc.prems dv by (simp add: base_uint_ge)
    then have "wval (div_loop s num (base_uint_shr dv 1) pn) = wval pn + wval num div d
      \<and> length (div_loop s num (base_uint_shr dv 1) pn) = length pn"
      using Suc.prems shr dvd by (intro Suc.IH) auto
    then show ?thesis using False by simp
  qed
qed

lemma bits_eq_0_iff: "base_uint_bits a = 0 \<longleftrightarrow> wval a = 0"
  using bits_zero [of a] bits_pos [of a] by (cases "wval a = 0") auto

lemma uint256_div_correct:
  assumes "length num = length dv" "2 \<le> length dv"
  shows "uint256_div num dv = None \<longleftrightarrow> wval dv = 0"
    and "uint256_div num dv = Some q \<Longrightarrow> wval q = wval num div wval dv \<and> length q = length num"
proof -
  let ?nb = "base_uint_bits num" and ?db = "base_uint_bits dv"
  show "uint256_div num dv = None \<longleftrightarrow> wval dv = 0"
    by (simp add: uint256_div_def Let_def bits_eq_0_iff)
  assume q: "uint256_div num dv = Some q"
  then have d: "0 < wval dv" by (auto simp: uint256_div_def Let_def bits_eq_0_iff split: if_splits)
  have len0: "length (base_uint_assign64 (length num) 0) = length num" and val0: "wval (base_uint_assign64 (length num) 0) = 0"
    using assms by (simp_all add: wval_assign64)
  show "wval q = wval num div wval dv \<and> length q = length num"
  proof (cases "?db > ?nb")
    case True
    have "wval num < 2 ^ ?nb" by (rule bits_upper)
    also have "\<dots> \<le> 2 ^ (?db - 1)" using True by (intro power_increasing) auto
    also have "\<dots> \<le> wval dv" using d by (intro bits_lower) simp
    finally show ?thesis using q True d bits_pos [of dv] len0 val0
      by (auto simp: uint256_div_def Let_def)
  next
    case False
    define s where "s = ?nb - ?db"
    have "0 < ?db" using d by (intro bits_pos) simp
    have "wval dv * 2 ^ s < 2 ^ ?db * 2 ^ s" using bits_upper [of dv] by simp
    also have "2 ^ ?db * 2 ^ s = (2 :: nat) ^ ?nb" using False by (simp add: s_def flip: power_add)
    also have "\<dots> \<le> 2 ^ (32 * length dv)" using bits_le [of num] assms(1) by (intro power_increasing) auto
    finally have shl: "wval (base_uint_shl dv s) = wval dv * 2 ^ s" by (simp add: wval_shl)
    have "wval num < 2 ^ ?nb" by (rule bits_upper)
    also have "(2 :: nat) ^ ?nb = 2 ^ (?db - 1) * 2 ^ (s + 1)"
      using False \<open>0 < ?db\<close> by (simp add: s_def flip: power_add power_Suc)
    also have "\<dots> \<le> wval dv * 2 ^ (s + 1)" using d bits_lower [of dv] by (intro mult_le_mono1) simp
    finally have lt: "wval num < wval dv * 2 ^ (s + 1)" .
    have "s + 1 \<le> 32 * length num" using bits_le [of num] \<open>0 < ?db\<close> False by (simp add: s_def)
    then have "wval (div_loop (s + 1) num (base_uint_shl dv s) (base_uint_assign64 (length num) 0))
        = wval (base_uint_assign64 (length num) 0) + wval num div wval dv
      \<and> length (div_loop (s + 1) num (base_uint_shl dv s) (base_uint_assign64 (length num) 0)) = length (base_uint_assign64 (length num) 0)"
      using d lt shl assms len0 val0 by (intro div_loop_correct) simp_all
    then show ?thesis using q False \<open>0 < ?db\<close> val0 len0 by (simp add: uint256_div_def Let_def s_def)
  qed
qed

section \<open>Compact form\<close>

lemma unat_ucast64: "unat (ucast (r :: u32) :: u64) = unat r"
proof -
  have "unat (ucast r :: u64) = take_bit LENGTH(64) (unat r)" by (rule unsigned_ucast_eq)
  then show ?thesis using unat_less_power [of r] by (simp add: take_bit_eq_mod)
qed

lemma unat_Get64:
  assumes "2 \<le> length a"
  shows "unat (base_uint_Get64 a 0) = wval a mod 2 ^ 64"
proof -
  obtain p q r where a: "a = p # q # r"
    using assms by (metis Suc_le_length_iff numeral_2_eq_2)
  have lt: "unat p < 2 ^ 32" "unat q < 2 ^ 32"
    using unat_less_power [of p] unat_less_power [of q] by simp_all
  have hi: "unat (push_bit 32 (ucast q) :: u64) = 2 ^ 32 * unat q"
    using lt by (simp add: unat_push_bit unat_ucast64)
  have "unat (base_uint_Get64 a 0) = unat p + 2 ^ 32 * unat q"
    using unat_or_disjoint [of "ucast p :: u64" 32, OF _ hi] lt
    by (simp add: base_uint_Get64_def a unat_ucast64 hi)
  moreover have "wval a = unat p + 2 ^ 32 * unat q + 2 ^ 64 * wval r"
    by (simp add: a)
  moreover have "unat p + 2 ^ 32 * unat q < 2 ^ 64" using lt by simp
  ultimately show ?thesis by simp
qed

lemma compact_word:
  assumes "m < 2 ^ 23" "s < 256"
  defines "c \<equiv> (of_nat (m + 2 ^ 24 * s) :: u32)"
  shows "unat c = m + 2 ^ 24 * s" "unat (drop_bit 24 c) = s"
    "c AND 0x007fffff = of_nat m" "c AND 0x00800000 = 0"
proof -
  have "m + 2 ^ 24 * s < 2 ^ 32" using assms(1,2) by simp
  then show c: "unat c = m + 2 ^ 24 * s" unfolding c_def by (simp add: unat_of_nat del: of_nat_add of_nat_mult)
  have "unat (drop_bit 24 c) = unat c div 2 ^ 24"
    by (rule trans [OF unat_drop_bit_eq drop_bit_eq_div])
  then show "unat (drop_bit 24 c) = s" using assms(1) by (simp add: c)
  have "m + 2 ^ 24 * s = m + 2 ^ 23 * (2 * s)" by simp
  then have "unat (c AND mask 23) = m"
    using assms(1) by (simp only: unat_and_mask c mod_mult_self2 mod_less)
  moreover have "(mask 23 :: u32) = 0x007fffff" by (simp add: mask_eq_exp_minus_1)
  ultimately show "c AND 0x007fffff = of_nat m" by (intro of_nat_of_unat) simp
  have "\<not> bit c 23"
  proof -
    have "\<not> bit (m + 2 ^ 24 * s) 23"
      using assms(1) bit_add_shifted [of m 24 s 23] bit_top_iff [of m 23] by simp
    then show ?thesis using c by (metis bit_unat)
  qed
  moreover have "(0x00800000 :: u32) = 2 ^ 23" by simp
  ultimately show "c AND 0x00800000 = 0" by (simp only: and_exp_eq_0_iff_not_bit) simp
qed

lemma SetCompact_canonical:
  assumes "m < 2 ^ 23" "s < 256"
  defines "c \<equiv> (of_nat (m + 2 ^ 24 * s) :: u32)"
  shows "wval (fst (uint256_SetCompact c))
      = (if s \<le> 3 then m div 256 ^ (3 - s) else m * 256 ^ (s - 3) mod 2 ^ 256)"
    "fst (snd (uint256_SetCompact c)) = False"
    "s \<le> 32 \<or> s = 33 \<and> m < 2 ^ 16 \<Longrightarrow> snd (snd (uint256_SetCompact c)) = False"
proof -
  note cw = compact_word [OF assms(1,2), folded c_def]
  have m: "unat (of_nat m :: u32) = m" using assms(1) by (simp add: unat_of_nat)
  have drop: "unat (drop_bit (8 * (3 - s)) (of_nat m :: u32)) = m div 256 ^ (3 - s)"
    by (rule trans [OF unat_drop_bit_eq trans [OF drop_bit_eq_div]]) (simp add: m power_mult)
  show "wval (fst (uint256_SetCompact c))
      = (if s \<le> 3 then m div 256 ^ (3 - s) else m * 256 ^ (s - 3) mod 2 ^ 256)"
    using drop m by (simp add: uint256_SetCompact_def Let_def cw wval_assign64 wval_shl unat_ucast64 power_mult
        del: of_nat_add of_nat_mult)
  show "fst (snd (uint256_SetCompact c)) = False"
    by (simp add: uint256_SetCompact_def Let_def cw)
  show "snd (snd (uint256_SetCompact c)) = False" if "s \<le> 32 \<or> s = 33 \<and> m < 2 ^ 16"
    using that m by (auto simp: uint256_SetCompact_def Let_def cw word_less_nat_alt)
qed


lemma GetCompact_compact_nat:
  assumes len: "length a = 8"
  shows "uint256_GetCompact a False
    = Some (of_nat (compact_nat ((base_uint_bits a + 7) div 8) (wval a)))"
proof -
  define n where "n = (base_uint_bits a + 7) div 8"
  define M where "M = (if n \<le> 3 then wval a * 256 ^ (3 - n) else wval a div 256 ^ (n - 3))"
  define mant :: u32 where "mant =
     (if n \<le> 3 then ucast (push_bit (8 * (3 - n)) (base_uint_Get64 a 0))
      else ucast (base_uint_Get64 (base_uint_shr a (8 * (n - 3))) 0))"
  have "base_uint_bits a \<le> 8 * n" by (simp add: n_def)
  then have v: "wval a < 256 ^ n"
    using bits_upper [of a] power_increasing [of "base_uint_bits a" "8 * n" "2::nat"]
    by (simp add: power_mult)
  have n32: "n \<le> 32" using bits_le [of a] len by (simp add: n_def)
  have M: "M < 2 ^ 24"
  proof (cases "n \<le> 3")
    case True
    then have "(256::nat) ^ n * 256 ^ (3 - n) = 2 ^ 24"
      by (simp flip: power_add)
    moreover have "wval a * 256 ^ (3 - n) < 256 ^ n * 256 ^ (3 - n)" using v by simp
    ultimately show ?thesis using True by (simp add: M_def)
  next
    case False
    then have "(256::nat) ^ n = 2 ^ 24 * 256 ^ (n - 3)"
      using power_add [of "256::nat" 3 "n - 3"] by simp
    then show ?thesis using False v by (simp add: M_def less_mult_imp_div_less)
  qed
  have mant: "unat mant = M"
  proof (cases "n \<le> 3")
    case True
    then have "wval a < 2 ^ 64" using v power_increasing [of n 3 "256::nat"] by simp
    then have "unat (base_uint_Get64 a 0) = wval a" using len by (simp add: unat_Get64)
    moreover have "2 ^ (8 * (3 - n)) = (256 :: nat) ^ (3 - n)" by (simp add: power_mult)
    ultimately have "unat (push_bit (8 * (3 - n)) (base_uint_Get64 a 0)) = M"
      using M True by (simp add: unat_push_bit M_def)
    then show ?thesis using M True by (simp add: mant_def unat_ucast32)
  next
    case False
    have "wval (base_uint_shr a (8 * (n - 3))) = M"
      using False by (simp add: wval_shr M_def power_mult)
    then have "unat (base_uint_Get64 (base_uint_shr a (8 * (n - 3))) 0) = M"
      using M len by (simp add: unat_Get64)
    then show ?thesis using M False by (simp add: mant_def unat_ucast32)
  qed
  define M' n' where "M' = (if 2 ^ 23 \<le> M then M div 256 else M)"
    and "n' = (if 2 ^ 23 \<le> M then n + 1 else n)"
  define mant' where "mant' = (if mant AND 0x00800000 \<noteq> 0 then drop_bit 8 mant else mant)"
  have high: "mant AND 0x00800000 \<noteq> 0 \<longleftrightarrow> 2 ^ 23 \<le> M"
  proof -
    have "(0x00800000 :: u32) = 2 ^ 23" by simp
    then have "mant AND 0x00800000 \<noteq> 0 \<longleftrightarrow> bit mant 23" by (simp only: and_exp_eq_0_iff_not_bit) simp
    also have "\<dots> \<longleftrightarrow> bit M 23" using mant by (metis bit_unat)
    finally show ?thesis using bit_top_iff [of M 23] M by simp
  qed
  have M': "unat mant' = M'" "M' < 2 ^ 23"
    using M trans [OF unat_drop_bit_eq drop_bit_eq_div, of 8 mant] mant
    by (auto simp: mant'_def M'_def high)
  have "n' < 256" using n32 by (simp add: n'_def)
  then have hi: "unat (push_bit 24 (of_nat n') :: u32) = 2 ^ 24 * n'"
    by (simp add: unat_push_bit unat_of_nat)
  have "unat (mant' OR push_bit 24 (of_nat n')) = M' + 2 ^ 24 * n'"
    using unat_or_disjoint [OF _ hi, of mant'] M' by (simp add: hi)
  then have res: "mant' OR push_bit 24 (of_nat n') = of_nat (M' + 2 ^ 24 * n')"
    by (rule of_nat_of_unat)
  have "(mask 23 :: u32) = 0x007fffff" by (simp add: mask_eq_exp_minus_1)
  then have chk: "mant' AND NOT 0x007fffff = 0"
    using and_not_mask [of mant' 23] M' by simp
  have "uint256_GetCompact a False = Some (mant' OR push_bit 24 (of_nat n'))"
    unfolding uint256_GetCompact_def Let_def n_def [symmetric] mant_def [symmetric]
      mant'_def [symmetric]
    using chk \<open>n' < 256\<close> by (simp add: n'_def high)
  moreover have "M' + 2 ^ 24 * n' = compact_nat n (wval a)"
    by (simp add: compact_nat_def Let_def M_def [symmetric] M'_def n'_def)
  ultimately show ?thesis by (simp only: res n_def)
qed


lemma compact_nat_split:
  assumes v: "v < 2 ^ b" "v \<noteq> 0 \<Longrightarrow> 2 ^ (b - 1) \<le> v" "v = 0 \<longleftrightarrow> b = 0"
    and b: "b \<le> 256" and n: "n = (b + 7) div 8"
  obtains m s k where "compact_nat n v = m + 2 ^ 24 * s" "m < 2 ^ 23" "s < 256"
    "s \<le> 32 \<or> s = 33 \<and> m < 2 ^ 16"
    "(if s \<le> 3 then m div 256 ^ (3 - s) else m * 256 ^ (s - 3)) = v div 256 ^ k * 256 ^ k"
    "v < 2 ^ (8 * k + 23)" "k = 0 \<or> 2 ^ (8 * k + 15) \<le> v"
proof -
  have n8: "b \<le> 8 * n" "8 * n \<le> b + 7" "n \<le> 32" using b n by auto
  have p: "(2::nat) ^ (8 * j + e) = 256 ^ j * 2 ^ e" for j e
    by (simp add: power_add power_mult)
  have v256: "v < 256 ^ n"
    using v(1) power_increasing [of b "8 * n" "2::nat"] n8 by (simp add: power_mult)
  consider (small) "n \<le> 3" "v * 256 ^ (3 - n) < 2 ^ 23" | (mid) "n < 3" "2 ^ 23 \<le> v * 256 ^ (3 - n)"
    | (three) "n = 3" "2 ^ 23 \<le> v"
    | (big) "3 < n" "v div 256 ^ (n - 3) < 2 ^ 23" | (bigh) "3 < n" "2 ^ 23 \<le> v div 256 ^ (n - 3)"
    by (cases "n = 3") (force simp: not_le not_less)+
  then show thesis
  proof cases
    case small
    have "v < 2 ^ 23" using small(2) by (rule le_less_trans [rotated]) simp
    show thesis
      by (rule that [of "v * 256 ^ (3 - n)" n 0])
        (use small n8 \<open>v < 2 ^ 23\<close> in \<open>simp_all add: compact_nat_def Let_def\<close>)
  next
    case mid
    have e: "v * 256 ^ (3 - n) = v * 256 ^ (2 - n) * 256"
    proof -
      have "3 - n = Suc (2 - n)" using mid(1) by simp
      then show ?thesis by simp
    qed
    have lt: "v * 256 ^ (2 - n) < 2 ^ 16"
    proof -
      have "v * 256 ^ (2 - n) < 256 ^ n * 256 ^ (2 - n)" using v256 by simp
      also have "\<dots> = 2 ^ 16" using mid(1) by (simp flip: power_add)
      finally show ?thesis .
    qed
    have "v < 2 ^ 16" using lt by (rule le_less_trans [rotated]) simp
    show thesis
      by (rule that [of "v * 256 ^ (2 - n)" "n + 1" 0])
        (use mid n8 lt \<open>v < 2 ^ 16\<close> e in \<open>auto simp: compact_nat_def Let_def\<close>)
  next
    case three
    then show thesis
      using v256 by (intro that [of "v div 256" 4 1]) (auto simp: compact_nat_def Let_def)
  next
    case big
    have up: "v < 2 ^ (8 * (n - 3) + 23)"
      using big(2) unfolding p by (simp add: div_less_iff_less_mult mult.commute)
    have "8 * (n - 3) + 15 \<le> b - 1" using big(1) n by auto
    moreover have "v \<noteq> 0" using v(3) n big(1) by auto
    ultimately have lo: "2 ^ (8 * (n - 3) + 15) \<le> v"
      using v(2) power_increasing [of "8 * (n - 3) + 15" "b - 1" "2::nat"] by linarith
    show thesis
      by (rule that [of "v div 256 ^ (n - 3)" n "n - 3"])
        (use big n8 up lo in \<open>simp_all add: compact_nat_def Let_def\<close>)
  next
    case bigh
    have q: "(256::nat) ^ (n - 2) = 256 ^ (n - 3) * 256"
    proof -
      have "n - 2 = Suc (n - 3)" using bigh(1) by simp
      then show ?thesis by simp
    qed
    have d: "v div 256 ^ (n - 3) div 256 = v div 256 ^ (n - 2)"
      by (simp only: q div_mult2_eq)
    have "n = 2 + (n - 2)" using bigh(1) by simp
    then have "(256::nat) ^ n = 256 ^ (2 + (n - 2))" by (rule arg_cong)
    then have "(256::nat) ^ n = 2 ^ 16 * 256 ^ (n - 2)" by (simp only: power_add) simp
    then have m: "v div 256 ^ (n - 2) < 2 ^ 16" using v256 by (simp add: less_mult_imp_div_less)
    then have up: "v < 2 ^ (8 * (n - 2) + 23)"
      unfolding p by (simp add: div_less_iff_less_mult mult.commute)
    have lo: "2 ^ (8 * (n - 2) + 15) \<le> v"
      using bigh(2) unfolding p q by (simp add: less_eq_div_iff_mult_less_eq mult.commute)
    have cn: "compact_nat n v = v div 256 ^ (n - 2) + 2 ^ 24 * (n + 1)"
      using bigh d by (simp add: compact_nat_def Let_def)
    have "n + 1 - 3 = n - 2" using bigh(1) by simp
    then have dec: "(if n + 1 \<le> 3 then v div 256 ^ (n - 2) div 256 ^ (3 - (n + 1))
        else v div 256 ^ (n - 2) * 256 ^ (n + 1 - 3)) = v div 256 ^ (n - 2) * 256 ^ (n - 2)"
      using bigh(1) by simp
    have "v div 256 ^ (n - 2) < 2 ^ 23" using m by (rule less_trans) simp
    moreover have "n + 1 < 256" "n + 1 \<le> 32 \<or> n + 1 = 33 \<and> v div 256 ^ (n - 2) < 2 ^ 16"
      using n8 m by auto
    ultimately show thesis using that [OF cn _ _ _ dec up] lo by blast
  qed
qed

lemma compact_roundtrip:
  assumes "length a = 8"
  shows "\<exists>c k. uint256_GetCompact a False = Some c
    \<and> wval (fst (uint256_SetCompact c)) = wval a div 256 ^ k * 256 ^ k
    \<and> snd (uint256_SetCompact c) = (False, False)
    \<and> wval a < 2 ^ (8 * k + 23) \<and> (k = 0 \<or> 2 ^ (8 * k + 15) \<le> wval a)"
proof -
  have z: "(wval a = 0) = (base_uint_bits a = 0)" by (simp add: bits_eq_0_iff)
  have b: "base_uint_bits a \<le> 256" using bits_le [of a] assms by simp
  obtain m s k
    where ms: "compact_nat ((base_uint_bits a + 7) div 8) (wval a) = m + 2 ^ 24 * s"
      "m < 2 ^ 23" "s < 256" "s \<le> 32 \<or> s = 33 \<and> m < 2 ^ 16"
      "(if s \<le> 3 then m div 256 ^ (3 - s) else m * 256 ^ (s - 3)) = wval a div 256 ^ k * 256 ^ k"
      "wval a < 2 ^ (8 * k + 23)" "k = 0 \<or> 2 ^ (8 * k + 15) \<le> wval a"
    by (rule compact_nat_split [OF bits_upper bits_lower z b refl])
  define c :: u32 where "c = of_nat (m + 2 ^ 24 * s)"
  note sc = SetCompact_canonical [OF ms(2,3), folded c_def]
  have "wval a div 256 ^ k * 256 ^ k < 2 ^ 256"
    using wval_bound [of a] assms by (simp add: le_less_trans [OF div_times_less_eq_dividend])
  then have "wval (fst (uint256_SetCompact c)) = wval a div 256 ^ k * 256 ^ k"
    unfolding sc(1) using ms(5) by (auto split: if_splits)
  moreover have "snd (uint256_SetCompact c) = (False, False)"
    using sc(2) sc(3) [OF ms(4)] by (simp add: prod_eq_iff)
  moreover have "uint256_GetCompact a False = Some c"
    by (simp only: GetCompact_compact_nat [OF assms] ms(1) c_def)
  ultimately show ?thesis using ms(6,7) by blast
qed

section \<open>Hexadecimal text and byte image\<close>

lemma hexdigit_facts:
  "list_all (\<lambda>n. phexdigit (hexdigit n) = n \<and> is_hex_run (hexdigit n) \<and> \<not> c_isspace (hexdigit n)
     \<and> hexdigit n \<noteq> CHR ''x'' \<and> hexdigit n \<noteq> CHR ''X'') [0..<16]"
  by code_simp

lemma hexdigit_ok:
  assumes "n < 16"
  shows "phexdigit (hexdigit n) = n" "is_hex_run (hexdigit n)" "\<not> c_isspace (hexdigit n)"
    "hexdigit n \<noteq> CHR ''x''" "hexdigit n \<noteq> CHR ''X''"
  using hexdigit_facts assms by (auto simp: list_all_iff)

lemma byte_of_nibbles:
  assumes "h < 16" "l < 16"
  shows "of_nat l OR push_bit 4 (of_nat h) = (of_nat (l + 16 * h) :: byte)"
proof (rule of_nat_of_unat)
  have l: "unat (of_nat l :: byte) = l" using assms by (simp add: unat_of_nat)
  have h: "unat (push_bit 4 (of_nat h) :: byte) = 2 ^ 4 * h"
    using assms by (simp add: unat_push_bit unat_of_nat)
  show "unat (of_nat l OR push_bit 4 (of_nat h) :: byte) = l + 16 * h"
    using unat_or_disjoint [OF _ h, of "of_nat l"] assms by (simp add: l h)
qed

lemma nibbles: "v div 16 ^ i mod 16 + 16 * (v div 16 ^ Suc i mod 16) = v div 16 ^ i mod (256::nat)"
  using mod_mult2_eq [of "v div 16 ^ i" 16 16] div_mult2_eq [of v "16 ^ i" 16]
  by (simp only: power_Suc2) simp

lemma byte_of_digits:
  "j = Suc i \<Longrightarrow> of_nat (v div 16 ^ i mod 16) OR push_bit 4 (of_nat (v div 16 ^ j mod 16))
     = (of_nat (v div 16 ^ i mod 256) :: byte)"
  by (simp only: byte_of_nibbles nibbles mod_less_divisor zero_less_numeral)

lemma wsplit4:
  "le_bytes 4 v = [of_nat (v mod 256), of_nat (v div 256 mod 256), of_nat (v div 256 div 256 mod 256),
     of_nat (v div 256 div 256 div 256 mod 256)]"
proof -
  have four: "4 = Suc (Suc (Suc (Suc 0)))" by simp
  have "of_nat x = (of_nat (x mod 256) :: byte)" for x by (simp add: word_unat_eq_iff unat_of_nat)
  then show ?thesis unfolding four wsplit.simps by simp
qed

lemma sethex_limb:
  "sethex_bytes (4 + n) (rev (hex8 p) @ ds) = le_bytes 4 (unat p) @ sethex_bytes n ds"
proof -
  let ?d = "\<lambda>i. hexdigit (unat p div 16 ^ i mod 16)"
  let ?b = "\<lambda>i j. of_nat (unat p div 16 ^ i mod 16) OR push_bit 4 (of_nat (unat p div 16 ^ j mod 16)) :: byte"
  have n: "4 + n = Suc (Suc (Suc (Suc n)))" by simp
  have "rev (hex8 p) = [?d 0, ?d 1, ?d 2, ?d 3, ?d 4, ?d 5, ?d 6, ?d 7]"
    by (simp add: hex8_def upt_rec)
  then have "sethex_bytes (4 + n) (rev (hex8 p) @ ds)
    = [?b 0 1, ?b 2 3, ?b 4 5, ?b 6 7] @ sethex_bytes n ds"
    by (simp only: n append.simps sethex_bytes.simps hexdigit_ok mod_less_divisor zero_less_numeral)
  also have "[?b 0 1, ?b 2 3, ?b 4 5, ?b 6 7] = map (\<lambda>i. of_nat (unat p div 16 ^ i mod 256)) [0, 2, 4, 6]"
    using byte_of_digits [of 1 0 "unat p"] byte_of_digits [of 3 2 "unat p"]
      byte_of_digits [of 5 4 "unat p"] byte_of_digits [of 7 6 "unat p"] by simp
  also have "\<dots> = le_bytes 4 (unat p)"
    by (simp add: wsplit4 div_mult2_eq [symmetric])
  finally show ?thesis .
qed

lemma limbs_of_bytes_limb:
  "limbs_of_bytes (le_bytes 4 (unat (p :: u32)) @ bs) = p # limbs_of_bytes bs"
proof -
  obtain b0 b1 b2 b3 where b: "le_bytes 4 (unat p) = [b0, b1, b2, b3]"
    by (simp only: wsplit4)
  have "le_val (le_bytes 4 (unat p)) = unat p"
    using unat_less_power [of p] by (intro le_val_le_bytes) simp
  then show ?thesis using of_nat_of_unat [of p "le_val [b0, b1, b2, b3]"] b by simp
qed

lemma limbs_of_getBytes: "limbs_of_bytes (base_uint_getBytes a) = a"
  by (induction a) (simp_all add: base_uint_getBytes_def limbs_of_bytes_limb)

lemma length_getBytes: "length (base_uint_getBytes a) = 4 * length a"
  by (induction a) (simp_all add: base_uint_getBytes_def)

lemma sethex_all: "sethex_bytes (length a * 4) (concat (map (rev \<circ> hex8) a)) = base_uint_getBytes a"
  by (induction a) (simp_all add: base_uint_getBytes_def sethex_limb)

lemma GetHex_digits: "c \<in> set (base_uint_GetHex a) \<Longrightarrow> \<exists>n<16. c = hexdigit n"
proof -
  assume "c \<in> set (base_uint_GetHex a)"
  then obtain p i where "c = hexdigit (unat (p :: u32) div 16 ^ i mod 16)"
    by (auto simp: base_uint_GetHex_def hex8_def)
  moreover have "unat p div 16 ^ i mod 16 < 16" by simp
  ultimately show ?thesis by blast
qed

lemma SetHex_GetHex: "base_uint_SetHex (length a) (base_uint_GetHex a) = a"
proof -
  let ?s = "base_uint_GetHex a"
  have s: "is_hex_run c" "\<not> c_isspace c" "c \<noteq> CHR ''x''" "c \<noteq> CHR ''X''" if "c \<in> set ?s" for c
    using GetHex_digits [OF that] hexdigit_ok by auto
  have "dropWhile c_isspace ?s = ?s"
    using s(2) by (cases ?s) auto
  moreover have "skip_0x ?s = ?s"
    using s(3,4) by (auto simp: skip_0x_def split: list.split)
  moreover have "takeWhile is_hex_run ?s = ?s"
    using s(1) by (simp add: takeWhile_eq_all_conv)
  moreover have "rev ?s = concat (map (rev \<circ> hex8) a)"
    by (simp add: base_uint_GetHex_def rev_concat rev_map)
  ultimately show ?thesis
    by (simp only: base_uint_SetHex_def Let_def sethex_all limbs_of_getBytes)
qed

section \<open>The numbers as an interface\<close>

locale modular_uint =
  fixes wf :: "'u \<Rightarrow> bool" and num :: "'u \<Rightarrow> nat" and M :: nat
    and plus' :: "'u \<Rightarrow> 'u \<Rightarrow> 'u" and minus' :: "'u \<Rightarrow> 'u \<Rightarrow> 'u" and neg :: "'u \<Rightarrow> 'u"
    and less' :: "'u \<Rightarrow> 'u \<Rightarrow> bool" and zero' :: 'u
  assumes num_inject: "wf a \<Longrightarrow> wf b \<Longrightarrow> num a = num b \<Longrightarrow> a = b"
    and num_bound: "wf a \<Longrightarrow> num a < M"
    and wf_zero: "wf zero'" and num_zero: "num zero' = 0"
    and wf_plus: "wf a \<Longrightarrow> wf b \<Longrightarrow> wf (plus' a b)"
    and wf_minus: "wf a \<Longrightarrow> wf b \<Longrightarrow> wf (minus' a b)"
    and wf_neg: "wf a \<Longrightarrow> wf (neg a)"
    and num_plus: "wf a \<Longrightarrow> wf b \<Longrightarrow> num (plus' a b) = (num a + num b) mod M"
    and num_minus: "wf a \<Longrightarrow> wf b \<Longrightarrow> int (num (minus' a b)) = (int (num a) - int (num b)) mod int M"
    and num_neg: "wf a \<Longrightarrow> int (num (neg a)) = (- int (num a)) mod int M"
    and num_less: "wf a \<Longrightarrow> wf b \<Longrightarrow> less' a b \<longleftrightarrow> num a < num b"
begin

lemma eqI_int: "wf a \<Longrightarrow> wf b \<Longrightarrow> int (num a) mod int M = int (num b) mod int M \<Longrightarrow> a = b"
  using num_inject [of a b] num_bound [of a] num_bound [of b] by (simp add: mod_pos_pos_trivial)

lemma num_plus_int: "wf a \<Longrightarrow> wf b \<Longrightarrow> int (num (plus' a b)) = (int (num a) + int (num b)) mod int M"
  by (simp only: num_plus of_nat_mod of_nat_add)

lemmas num_ops = num_plus_int num_minus num_neg wf_plus wf_minus wf_neg num_zero wf_zero

lemma plus_commute: "wf a \<Longrightarrow> wf b \<Longrightarrow> plus' a b = plus' b a"
  by (rule eqI_int) (simp_all add: num_ops add.commute)

lemma plus_assoc: "wf a \<Longrightarrow> wf b \<Longrightarrow> wf c \<Longrightarrow> plus' (plus' a b) c = plus' a (plus' b c)"
  by (rule eqI_int) (simp_all add: num_ops mod_simps add.assoc)

lemma plus_neg: "wf a \<Longrightarrow> plus' a (neg a) = zero'"
  by (rule eqI_int) (simp_all add: num_ops mod_simps)

lemma minus_plus_cancel: "wf a \<Longrightarrow> wf b \<Longrightarrow> minus' (plus' a b) b = a"
  by (rule eqI_int) (simp_all add: num_ops mod_simps)

lemma plus_minus_cancel: "wf a \<Longrightarrow> wf b \<Longrightarrow> plus' (minus' a b) b = a"
  by (rule eqI_int) (simp_all add: num_ops mod_simps)

lemma minus_exact: "wf a \<Longrightarrow> wf b \<Longrightarrow> \<not> less' a b \<Longrightarrow> num (minus' a b) = num a - num b"
proof -
  assume ab: "wf a" "wf b" "\<not> less' a b"
  then have le: "num b \<le> num a" by (simp add: num_less)
  have "int (num (minus' a b)) = (int (num a) - int (num b)) mod int M" by (rule num_minus [OF ab(1,2)])
  also have "\<dots> = int (num a) - int (num b)"
    using le num_bound [OF ab(1)] by (intro mod_pos_pos_trivial) simp_all
  finally show ?thesis using le by linarith
qed

lemma less_trichotomy: "wf a \<Longrightarrow> wf b \<Longrightarrow> less' a b \<or> a = b \<or> less' b a"
  using num_inject [of a b] by (auto simp: num_less)

text \<open>An unsigned sum has wrapped exactly when it is below one of its summands.\<close>

lemma overflow_check: "wf a \<Longrightarrow> wf b \<Longrightarrow> less' (plus' a b) a \<longleftrightarrow> M \<le> num a + num b"
proof -
  assume ab: "wf a" "wf b"
  note bd = num_bound [OF ab(1)] num_bound [OF ab(2)]
  have "(num a + num b) mod M = (if M \<le> num a + num b then num a + num b - M else num a + num b)"
    using bd by (simp add: le_mod_geq)
  then show ?thesis using ab bd by (auto simp: num_less num_plus wf_plus)
qed

end

lemma int_diff_mod: "y < m \<Longrightarrow> int ((x + (m - y)) mod m) = (int x - int y) mod int m"
proof -
  assume "y < m"
  then have "int (x + (m - y)) = (int x - int y) + int m" by simp
  then show ?thesis by (simp only: of_nat_mod mod_add_self2)
qed

lemma modular_base_uint:
  "modular_uint (\<lambda>a. length a = n) wval (2 ^ (32 * n)) base_uint_add base_uint_sub base_uint_neg
     base_uint_lt (replicate n 0)"
proof unfold_locales
  fix a b :: base_uint
  assume n: "length a = n" "length b = n"
  then show "int (wval (base_uint_sub a b)) = (int (wval a) - int (wval b)) mod int (2 ^ (32 * n))"
    using wval_bound [of b] int_diff_mod [of "wval b" "2 ^ (32 * n)" "wval a"]
    by (simp add: wval_sub)
next
  fix a :: base_uint
  assume "length a = n"
  then show "int (wval (base_uint_neg a)) = - int (wval a) mod int (2 ^ (32 * n))"
    using wval_bound [of a] int_diff_mod [of "wval a" "2 ^ (32 * n)" 0] by (simp add: wval_neg)
next
  fix a b :: base_uint
  assume "length a = n" "length b = n" "wval a = wval b"
  then show "a = b" using wval_inject [of a b] by simp
next
  fix a :: base_uint
  assume "length a = n"
  then show "wval a < 2 ^ (32 * n)" using wval_bound [of a] by simp
qed (simp_all only: wval_add base_uint_lt length_add length_sub length_neg length_replicate wval_replicate_0)

interpretation u256: modular_uint "\<lambda>a. length a = uint256_WIDTH" wval "2 ^ (32 * uint256_WIDTH)"
  base_uint_add base_uint_sub base_uint_neg base_uint_lt "replicate uint256_WIDTH 0"
  by (rule modular_base_uint)

interpretation u160: modular_uint "\<lambda>a. length a = uint160_WIDTH" wval "2 ^ (32 * uint160_WIDTH)"
  base_uint_add base_uint_sub base_uint_neg base_uint_lt "replicate uint160_WIDTH 0"
  by (rule modular_base_uint)

lemma int_wval_dec: "int (wval (base_uint_dec a)) = (int (wval a) - 1) mod 2 ^ (32 * length a)"
proof (cases "length a")
  case 0
  then show ?thesis by simp
next
  case (Suc n)
  then have "(1::nat) < 2 ^ (32 * length a)" by (intro one_less_power) simp_all
  then show ?thesis using int_diff_mod [of 1 "2 ^ (32 * length a)" "wval a"] by (simp add: wval_dec)
qed

lemma base_uint_of_vch_getBytes: "base_uint_of_vch (length a) (base_uint_getBytes a) = a"
  by (simp add: base_uint_of_vch_def length_getBytes limbs_of_getBytes mult.commute)

lemmas base_uint_algebra = modular_uint.num_minus [OF modular_base_uint]
  modular_uint.num_neg [OF modular_base_uint]

section \<open>Properties\<close>

text \<open>C3: for two numbers of the same width, every compound assignment of \<open>base_uint\<close>
  (\<open>+=\<close>, \<open>-=\<close>, unary minus, \<open>++\<close>, \<open>--\<close>) computes its result modulo two to the
  width in bits: the carries run through all limbs and the last one is dropped.\<close>

theorem base_uint_arith:
  assumes "length a = n" "length b = n"
  shows "wval (base_uint_add a b) = (wval a + wval b) mod 2 ^ (32 * n)
    \<and> int (wval (base_uint_sub a b)) = (int (wval a) - int (wval b)) mod 2 ^ (32 * n)
    \<and> int (wval (base_uint_neg a)) = (- int (wval a)) mod 2 ^ (32 * n)
    \<and> wval (base_uint_inc a) = (wval a + 1) mod 2 ^ (32 * n)
    \<and> int (wval (base_uint_dec a)) = (int (wval a) - 1) mod 2 ^ (32 * n)"
proof (intro conjI)
  show "wval (base_uint_inc a) = (wval a + 1) mod 2 ^ (32 * n)"
    unfolding wval_inc assms(1) ..
  show "wval (base_uint_add a b) = (wval a + wval b) mod 2 ^ (32 * n)"
    using assms by (simp add: wval_add)
qed (use assms base_uint_algebra [where n = n] in \<open>simp_all add: int_wval_dec\<close>)

theorem base_uint_arith_witness:
  "wval (base_uint_add [0xffffffff, 1] [1, 2]) = 0x400000000
    \<and> int (wval (base_uint_sub [0, 1] [1, 0])) = 0xffffffff
    \<and> int (wval (base_uint_dec [0, 0])) = 2 ^ 64 - 1"
  using base_uint_arith [of "[0xffffffff, 1]" 2 "[1, 2]"] base_uint_arith [of "[0, 1]" 2 "[1, 0]"]
    base_uint_arith [of "[0, 0]" 2 "[0, 0]"]
  by simp

text \<open>On \<open>uint256\<close>, subtraction undoes addition and conversely, the comparison
  \<open>a + b < a\<close> detects exactly the sums that wrap, and a difference that the comparison allows
  is the exact difference.\<close>

theorem uint256_group:
  assumes "length a = 8" "length b = 8"
  shows "base_uint_sub (base_uint_add a b) b = a \<and> base_uint_add (base_uint_sub a b) b = a
    \<and> base_uint_add a b = base_uint_add b a \<and> base_uint_add a (base_uint_neg a) = replicate 8 0
    \<and> (base_uint_lt (base_uint_add a b) a \<longleftrightarrow> 2 ^ 256 \<le> wval a + wval b)
    \<and> (base_uint_ge a b \<longrightarrow> wval (base_uint_sub a b) = wval a - wval b)"
  using u256.minus_plus_cancel [OF assms] u256.plus_minus_cancel [OF assms]
    u256.plus_commute [OF assms] u256.plus_neg [OF assms(1)] u256.overflow_check [OF assms]
    u256.minus_exact [OF assms] assms
  by (simp add: base_uint_ge base_uint_lt)

theorem uint256_group_witness:
  "base_uint_sub (base_uint_add (replicate 8 0xffffffff) (replicate 8 5)) (replicate 8 5)
     = replicate 8 0xffffffff"
  using uint256_group [of "replicate 8 0xffffffff" "replicate 8 5", OF length_replicate length_replicate]
  by blast

text \<open>C4: \<open><<=\<close> multiplies by a power of two and drops what leaves the width, \<open>>>=\<close>
  divides by a power of two, for every shift count and width, and \<open>bits()\<close> is the position of
  the highest set bit: the least number of bits the value fits in.\<close>

theorem base_uint_shifts:
  "wval (base_uint_shl a s) = wval a * 2 ^ s mod 2 ^ (32 * length a)
   \<and> wval (base_uint_shr a s) = wval a div 2 ^ s
   \<and> (base_uint_bits a \<le> s \<longleftrightarrow> wval a < 2 ^ s)"
proof -
  have "base_uint_bits a \<le> s" if "wval a < 2 ^ s"
  proof (cases "wval a = 0")
    case False
    with that have "(2::nat) ^ (base_uint_bits a - 1) < 2 ^ s" using bits_lower [of a] by linarith
    then show ?thesis using bits_pos [OF False] by simp
  qed (simp add: bits_zero)
  moreover have "wval a < 2 ^ s" if "base_uint_bits a \<le> s"
    using bits_upper [of a] power_increasing [OF that, of "2::nat"] by linarith
  ultimately show ?thesis using wval_shl [of a s] wval_shr [of a s] by blast
qed

text \<open>The six comparison operators, each a loop from the highest limb down, decide the
  order and equality of the numbers; \<open>==\<close> with a 64-bit number does so too.\<close>

theorem base_uint_compare:
  assumes "length a = length b" "2 \<le> length a"
  shows "(base_uint_lt a b \<longleftrightarrow> wval a < wval b) \<and> (base_uint_le a b \<longleftrightarrow> wval a \<le> wval b)
    \<and> (base_uint_gt a b \<longleftrightarrow> wval a > wval b) \<and> (base_uint_ge a b \<longleftrightarrow> wval a \<ge> wval b)
    \<and> (base_uint_eq a b \<longleftrightarrow> wval a = wval b) \<and> (base_uint_eq64 a c \<longleftrightarrow> wval a = unat c)"
  using assms wval_inject [of a b]
  by (simp add: base_uint_lt base_uint_order base_uint_eq base_uint_eq64)

theorem base_uint_compare_witness: "base_uint_lt [5, 1] [3, 2] \<and> \<not> base_uint_le [3, 2] [5, 1]"
  using base_uint_compare [of "[5, 1]" "[3, 2]"] base_uint_compare [of "[3, 2]" "[5, 1]"] by simp

text \<open>C1: \<open>uint256::operator/=\<close> throws exactly on a zero divisor and otherwise yields the
  quotient of the numbers: the shift-and-subtract loop is long division.\<close>

theorem uint256_div_spec:
  assumes "length a = 8" "length b = 8"
  shows "uint256_div a b = (if wval b = 0 then None else Some (wsplit 8 (wval a div wval b)))"
proof (cases "uint256_div a b")
  case None
  then show ?thesis using uint256_div_correct(1) [of a b] assms by simp
next
  case (Some q)
  then have "wval q = wval a div wval b" "length q = 8" "wval b \<noteq> 0"
    using uint256_div_correct [of a b] assms by auto
  then show ?thesis using Some wsplit_wval [of q] by simp
qed

theorem uint256_div_spec_witness:
  "uint256_div (1 # replicate 6 0 @ [9]) (7 # replicate 7 0)
     = Some (wsplit 8 (wval (1 # replicate 6 0 @ [9 :: u32]) div 7))
   \<and> uint256_div (replicate 8 1) (replicate 8 0) = None"
  using uint256_div_spec [of "1 # replicate 6 0 @ [9]" "7 # replicate 7 0"]
    uint256_div_spec [of "replicate 8 1" "replicate 8 0"] by simp

text \<open>C5: \<open>*=\<close> by a 32-bit number is multiplication modulo two to the width, but
  \<open>*=\<close> by a \<open>uint256\<close> returns zero for all operands: it multiplies into a variable
  that was never set to \<open>*this\<close> and stores that zero.\<close>

theorem uint256_products:
  "wval (uint256_mul32 a k) = wval a * unat k mod 2 ^ (32 * length a) \<and> length (uint256_mul32 a k) = length a
   \<and> uint256_mul a b = replicate uint256_WIDTH 0 \<and> wval (uint256_mul a b) = 0"
proof -
  have "uint256_mul a b = replicate uint256_WIDTH 0" by (simp only: uint256_mul_def Let_def)
  then show ?thesis using wval_mul32 [of a k] wval_mul32_loop [of 0 k a] by (simp add: uint256_mul32_def)
qed

text \<open>C2: the compact form of every \<open>uint256\<close> exists (neither assertion of
  \<open>GetCompact\<close> fails), and \<open>SetCompact\<close> reads it back, unsigned and without overflow, as the
  number with its low \<open>k\<close> bytes cleared, where \<open>k\<close> is the least that leaves a mantissa of 23
  bits; a number below \<open>2 ^ 23\<close> is read back exactly.\<close>

theorem uint256_compact_roundtrip:
  assumes "length a = 8"
  shows "\<exists>c k. uint256_GetCompact a False = Some c
    \<and> wval (fst (uint256_SetCompact c)) = wval a div 256 ^ k * 256 ^ k
    \<and> snd (uint256_SetCompact c) = (False, False)
    \<and> wval a < 2 ^ (8 * k + 23) \<and> (k = 0 \<or> 2 ^ (8 * k + 15) \<le> wval a)"
  using assms by (rule compact_roundtrip)

theorem uint256_compact_roundtrip_witness:
  "\<exists>c k. uint256_GetCompact (0x12345678 # replicate 7 0) False = Some c
    \<and> wval (fst (uint256_SetCompact c)) = 0x12345678 div 256 ^ k * 256 ^ k \<and> k = 1"
proof -
  obtain c k where ck: "uint256_GetCompact (0x12345678 # replicate 7 0) False = Some c"
      "wval (fst (uint256_SetCompact c)) = 0x12345678 div 256 ^ k * 256 ^ k"
      "(0x12345678 :: nat) < 2 ^ (8 * k + 23)" "k = 0 \<or> 2 ^ (8 * k + 15) \<le> (0x12345678 :: nat)"
    using uint256_compact_roundtrip [of "0x12345678 # replicate 7 0"] by auto
  have "k \<noteq> 0" using ck(3) by (intro notI) simp
  moreover have "\<not> 2 \<le> k"
  proof
    assume "2 \<le> k"
    then have "(2::nat) ^ 31 \<le> 2 ^ (8 * k + 15)" by (intro power_increasing) simp_all
    then show False using ck(4) \<open>2 \<le> k\<close> by auto
  qed
  ultimately have "k = 1" by simp
  then show ?thesis using ck by blast
qed

text \<open>Reading the hexadecimal text of a number with \<open>SetHex\<close>, or constructing one from
  its byte image, gives the number back, for both widths.\<close>

theorem base_uint_text_roundtrip:
  "base_uint_SetHex (length a) (base_uint_GetHex a) = a
   \<and> base_uint_of_vch (length a) (base_uint_getBytes a) = a
   \<and> length (base_uint_GetHex a) = 8 * length a"
proof -
  have "length (base_uint_GetHex a) = 8 * length a"
    by (induction a) (simp_all add: base_uint_GetHex_def hex8_def)
  then show ?thesis by (simp add: SetHex_GetHex base_uint_of_vch_getBytes)
qed

end
