(* ===== verification/Bignum.thy ===== *)
theory Bignum
  imports Uint256
begin

text \<open>
  The class \<open>CBigNum\<close> of \<open>src/src/bignum.h\<close> and \<open>src/src/bignum.cpp\<close>. The arithmetic itself is
  OpenSSL's, which is not part of the source: it is the parameter \<open>'b bn_lib\<close>, a record of
  the library's functions on an abstract type \<open>'b\<close> of big numbers, and the locale
  \<open>openssl_bn\<close> states what its documentation promises, in terms of the integer
  \<open>num x\<close> that a big number \<open>x\<close> stands for. The model is everything \<open>CBigNum\<close> adds:
  conversions from and to machine integers, byte vectors, the compact form and text.
  A C++ exception is \<open>None\<close>; running out of memory is not modelled.
\<close>

unbundle bit_operations_syntax

section \<open>The library as a parameter\<close>

record 'b bn_lib =
  sizeof_BN_ULONG :: nat
  BN_new :: 'b
  BN_set_word :: "u64 \<Rightarrow> 'b"
  BN_get_word :: "'b \<Rightarrow> u64"
  BN_is_negative :: "'b \<Rightarrow> bool"
  BN_set_negative :: "'b \<Rightarrow> bool \<Rightarrow> 'b"
  BN_is_zero :: "'b \<Rightarrow> bool"
  BN_mpi2bn :: "bytes \<Rightarrow> 'b \<Rightarrow> 'b"
  BN_bn2mpi :: "'b \<Rightarrow> bytes"
  BN_bin2bn :: "bytes \<Rightarrow> 'b"
  BN_bn2bin :: "'b \<Rightarrow> bytes"
  BN_value_one :: 'b
  BN_add :: "'b \<Rightarrow> 'b \<Rightarrow> 'b option"
  BN_sub :: "'b \<Rightarrow> 'b \<Rightarrow> 'b option"
  BN_mul :: "'b \<Rightarrow> 'b \<Rightarrow> 'b option"
  BN_div :: "'b \<Rightarrow> 'b \<Rightarrow> ('b \<times> 'b) option"
  BN_nnmod :: "'b \<Rightarrow> 'b \<Rightarrow> 'b option"
  BN_lshift :: "'b \<Rightarrow> nat \<Rightarrow> 'b option"
  BN_rshift :: "'b \<Rightarrow> nat \<Rightarrow> 'b option"
  BN_cmp :: "'b \<Rightarrow> 'b \<Rightarrow> int"

text \<open>
  The library's documented MPI format is a four-byte big-endian length followed by the
  magnitude in big-endian order, whose highest bit is the sign; a magnitude that would occupy
  that bit gets a leading byte. \<open>mpi_val\<close> reads such a payload, \<open>mpi_enc\<close> writes the
  shortest one.
\<close>

definition be_val :: "bytes \<Rightarrow> nat" where
  "be_val bs = le_val (rev bs)"

definition be4 :: "nat \<Rightarrow> bytes" where
  "be4 n = [of_nat (n div 2 ^ 24), of_nat (n div 2 ^ 16), of_nat (n div 2 ^ 8), of_nat n]"

fun mpi_val :: "bytes \<Rightarrow> int" where
  "mpi_val [] = 0"
| "mpi_val (b # bs) =
     (let m = int (be_val ((b AND 0x7f) # bs)) in if b AND 0x80 \<noteq> 0 then - m else m)"

fun nat_bytes :: "nat \<Rightarrow> bytes" where
  "nat_bytes n = (if n = 0 then [] else of_nat n # nat_bytes (n div 256))"

declare nat_bytes.simps [simp del]

definition mpi_sign :: "bool \<Rightarrow> bytes \<Rightarrow> bytes" where
  "mpi_sign s m =
     (case m of [] \<Rightarrow> []
      | b # bs \<Rightarrow> if b AND 0x80 \<noteq> 0 then (if s then 0x80 else 0) # b # bs
                 else (if s then b OR 0x80 else b) # bs)"

definition mpi_enc :: "int \<Rightarrow> bytes" where
  "mpi_enc v = mpi_sign (v < 0) (rev (nat_bytes (nat \<bar>v\<bar>)))"

section \<open>Construction and conversion of machine integers\<close>

definition CBigNum_setuint32 :: "'b bn_lib \<Rightarrow> u32 \<Rightarrow> 'b" where
  "CBigNum_setuint32 L n = BN_set_word L (ucast n)"

definition CBigNum_getuint32 :: "'b bn_lib \<Rightarrow> 'b \<Rightarrow> u32" where
  "CBigNum_getuint32 L bn = ucast (BN_get_word L bn)"

definition CBigNum_getint32 :: "'b bn_lib \<Rightarrow> 'b \<Rightarrow> int" where
  "CBigNum_getint32 L bn =
     (let n = unat (BN_get_word L bn)
      in if \<not> BN_is_negative L bn
         then (if n > 2 ^ 31 - 1 then 2 ^ 31 - 1 else int n)
         else (if n > 2 ^ 31 - 1 then - (2 ^ 31) else - int n))"

primrec setint64_loop :: "nat \<Rightarrow> bool \<Rightarrow> u64 \<Rightarrow> bool \<Rightarrow> bytes \<Rightarrow> bytes" where
  "setint64_loop 0 fNegative n fLeadingZeroes p = p"
| "setint64_loop (Suc i) fNegative n fLeadingZeroes p =
     (let c = ucast (drop_bit 56 n AND 0xff); n = push_bit 8 n
      in if fLeadingZeroes
         then if c = 0 then setint64_loop i fNegative n fLeadingZeroes p
              else let p = (if c AND 0x80 \<noteq> 0 then p @ [if fNegative then 0x80 else 0] else p);
                       c = (if c AND 0x80 \<noteq> 0 then c else if fNegative then c OR 0x80 else c)
                   in setint64_loop i fNegative n False (p @ [c])
         else setint64_loop i fNegative n fLeadingZeroes (p @ [c]))"

definition CBigNum_setint64 :: "'b bn_lib \<Rightarrow> 64 word \<Rightarrow> 'b" where
  "CBigNum_setint64 L sn =
     (let fNegative = sint sn < 0;
          n = (if fNegative then - (sn + 1) + 1 else sn);
          p = setint64_loop 8 fNegative n True [];
          nSize = length p
      in BN_mpi2bn L (be4 nSize @ p) (BN_new L))"

text \<open>\<open>get_low k\<close> is the copying loop of the four \<open>getuint\<close> functions: the lowest \<open>k\<close> bytes of
  the magnitude, least significant first.\<close>

definition clear_sign :: "bytes \<Rightarrow> bytes" where
  "clear_sign vch = (if length vch > 4 then vch[4 := vch ! 4 AND 0x7f] else vch)"

definition get_low :: "nat \<Rightarrow> bytes \<Rightarrow> bytes" where
  "get_low k vch = take k (rev (drop 4 vch))"

definition CBigNum_getuint64 :: "'b bn_lib \<Rightarrow> 'b \<Rightarrow> u64" where
  "CBigNum_getuint64 L bn =
     (let vch = BN_bn2mpi L bn
      in if length vch < 4 then 0
         else of_nat (le_val (get_low 8 (clear_sign vch))))"

text \<open>The three \<open>setuint\<close> loops over the bytes of a number, the most significant first.\<close>

primrec setuint_loop :: "bytes \<Rightarrow> bool \<Rightarrow> bytes \<Rightarrow> bytes" where
  "setuint_loop [] fLeadingZeroes p = p"
| "setuint_loop (c # cs) fLeadingZeroes p =
     (if fLeadingZeroes
      then if c = 0 then setuint_loop cs fLeadingZeroes p
           else let p = (if c AND 0x80 \<noteq> 0 then p @ [0] else p)
                in setuint_loop cs False (p @ [c])
      else setuint_loop cs fLeadingZeroes (p @ [c]))"

definition setuint_mpi :: "bytes \<Rightarrow> bytes" where
  "setuint_mpi cs = (let p = setuint_loop cs True [] in be4 (length p) @ p)"

definition CBigNum_setuint64 :: "'b bn_lib \<Rightarrow> u64 \<Rightarrow> 'b" where
  "CBigNum_setuint64 L n =
     (if 8 \<le> sizeof_BN_ULONG L then BN_set_word L n
      else BN_mpi2bn L (setuint_mpi (map (\<lambda>i. ucast (drop_bit 56 (push_bit (8 * i) n) AND 0xff)) [0..<8]))
             (BN_new L))"

definition CBigNum_setuint160 :: "'b bn_lib \<Rightarrow> base_uint \<Rightarrow> 'b" where
  "CBigNum_setuint160 L n = BN_mpi2bn L (setuint_mpi (rev (base_uint_getBytes n))) (BN_new L)"

definition CBigNum_getuint160 :: "'b bn_lib \<Rightarrow> 'b \<Rightarrow> base_uint" where
  "CBigNum_getuint160 L bn =
     (let vch = BN_bn2mpi L bn
      in if length vch < 4 then replicate uint160_WIDTH 0
         else let b = get_low 20 (clear_sign vch)
              in limbs_of_bytes (b @ replicate (20 - length b) 0))"

definition CBigNum_setuint256 :: "'b bn_lib \<Rightarrow> base_uint \<Rightarrow> 'b" where
  "CBigNum_setuint256 L n = BN_mpi2bn L (setuint_mpi (rev (base_uint_getBytes n))) (BN_new L)"

definition CBigNum_getuint256 :: "'b bn_lib \<Rightarrow> 'b \<Rightarrow> base_uint" where
  "CBigNum_getuint256 L bn =
     (let vch = BN_bn2mpi L bn
      in if length vch < 4 then replicate uint256_WIDTH 0
         else let b = get_low 32 (clear_sign vch)
              in limbs_of_bytes (b @ replicate (32 - length b) 0))"

definition CBigNum_of_int32 :: "'b bn_lib \<Rightarrow> 32 word \<Rightarrow> 'b" where
  "CBigNum_of_int32 L n =
     (if 0 \<le> sint n then CBigNum_setuint32 L n else CBigNum_setint64 L (scast n))"

definition CBigNum_of_int64 :: "'b bn_lib \<Rightarrow> 64 word \<Rightarrow> 'b" where
  "CBigNum_of_int64 L n =
     (if 0 \<le> sint n then CBigNum_setuint64 L n else CBigNum_setint64 L n)"

definition CBigNum_of_bool :: "'b bn_lib \<Rightarrow> bool \<Rightarrow> 'b" where
  "CBigNum_of_bool L n = CBigNum_setuint32 L (if n then 1 else 0)"

section \<open>Byte vectors and the compact form\<close>

definition CBigNum_setBytes :: "'b bn_lib \<Rightarrow> bytes \<Rightarrow> 'b" where
  "CBigNum_setBytes L vchBytes = BN_bin2bn L vchBytes"

definition CBigNum_getBytes :: "'b bn_lib \<Rightarrow> 'b \<Rightarrow> bytes" where
  "CBigNum_getBytes L bn = BN_bn2bin L bn"

definition CBigNum_setvch :: "'b bn_lib \<Rightarrow> bytes \<Rightarrow> 'b" where
  "CBigNum_setvch L vch = BN_mpi2bn L (be4 (length vch) @ rev vch) (BN_new L)"

definition CBigNum_getvch :: "'b bn_lib \<Rightarrow> 'b \<Rightarrow> bytes" where
  "CBigNum_getvch L bn =
     (let vch = BN_bn2mpi L bn in if length vch \<le> 4 then [] else rev (drop 4 vch))"

definition CBigNum_SetCompact :: "'b bn_lib \<Rightarrow> u32 \<Rightarrow> 'b" where
  "CBigNum_SetCompact L nCompact =
     (let nSize = unat (drop_bit 24 nCompact);
          vch = replicate (4 + nSize) 0;
          vch = vch[3 := of_nat nSize];
          vch = (if nSize \<ge> 1 then vch[4 := ucast (drop_bit 16 nCompact AND 0xff)] else vch);
          vch = (if nSize \<ge> 2 then vch[5 := ucast (drop_bit 8 nCompact AND 0xff)] else vch);
          vch = (if nSize \<ge> 3 then vch[6 := ucast (nCompact AND 0xff)] else vch)
      in BN_mpi2bn L vch (BN_new L))"

definition CBigNum_GetCompact :: "'b bn_lib \<Rightarrow> 'b \<Rightarrow> u32" where
  "CBigNum_GetCompact L bn =
     (let vch = BN_bn2mpi L bn;
          nSize = length vch - 4;
          nCompact = push_bit 24 (of_nat nSize) :: u32;
          nCompact = (if nSize \<ge> 1 then nCompact OR push_bit 16 (ucast (vch ! 4)) else nCompact);
          nCompact = (if nSize \<ge> 2 then nCompact OR push_bit 8 (ucast (vch ! 5)) else nCompact)
      in if nSize \<ge> 3 then nCompact OR ucast (vch ! 6) else nCompact)"

section \<open>Operators\<close>

definition CBigNum_neg :: "'b bn_lib \<Rightarrow> 'b \<Rightarrow> 'b" where
  "CBigNum_neg L a = BN_set_negative L a (\<not> BN_is_negative L a)"

definition CBigNum_quot :: "'b bn_lib \<Rightarrow> 'b \<Rightarrow> 'b \<Rightarrow> 'b option" where
  "CBigNum_quot L a b = map_option fst (BN_div L a b)"

definition CBigNum_shr :: "'b bn_lib \<Rightarrow> 'b \<Rightarrow> nat \<Rightarrow> 'b option" where
  "CBigNum_shr L bn shift =
     (case BN_lshift L (CBigNum_of_int32 L 1) shift of
        None \<Rightarrow> None
      | Some a \<Rightarrow> if BN_cmp L a bn > 0 then Some (CBigNum_of_int32 L 0) else BN_rshift L bn shift)"

definition CBigNum_inc :: "'b bn_lib \<Rightarrow> 'b \<Rightarrow> 'b option" where
  "CBigNum_inc L bn = BN_add L bn (BN_value_one L)"

definition CBigNum_dec :: "'b bn_lib \<Rightarrow> 'b \<Rightarrow> 'b option" where
  "CBigNum_dec L bn = BN_sub L bn (BN_value_one L)"

definition CBigNum_eq :: "'b bn_lib \<Rightarrow> 'b \<Rightarrow> 'b \<Rightarrow> bool" where
  "CBigNum_eq L a b = (BN_cmp L a b = 0)"

definition CBigNum_le :: "'b bn_lib \<Rightarrow> 'b \<Rightarrow> 'b \<Rightarrow> bool" where
  "CBigNum_le L a b = (BN_cmp L a b \<le> 0)"

definition CBigNum_lt :: "'b bn_lib \<Rightarrow> 'b \<Rightarrow> 'b \<Rightarrow> bool" where
  "CBigNum_lt L a b = (BN_cmp L a b < 0)"

definition CBigNum_gt :: "'b bn_lib \<Rightarrow> 'b \<Rightarrow> 'b \<Rightarrow> bool" where
  "CBigNum_gt L a b = (BN_cmp L a b > 0)"

definition CBigNum_ge :: "'b bn_lib \<Rightarrow> 'b \<Rightarrow> 'b \<Rightarrow> bool" where
  "CBigNum_ge L a b = (BN_cmp L a b \<ge> 0)"

section \<open>Text\<close>

definition c_isxdigit :: "char \<Rightarrow> bool" where
  "c_isxdigit c =
     (let n = of_char c :: nat in 48 \<le> n \<and> n \<le> 57 \<or> 65 \<le> n \<and> n \<le> 70 \<or> 97 \<le> n \<and> n \<le> 102)"

primrec sethex_loop :: "'b bn_lib \<Rightarrow> 'b \<Rightarrow> string \<Rightarrow> 'b option" where
  "sethex_loop L this [] = Some this"
| "sethex_loop L this (c # psz) =
     (if c_isxdigit c
      then case BN_lshift L this 4 of None \<Rightarrow> None
           | Some this \<Rightarrow>
               (case BN_add L this (CBigNum_of_int32 L (of_nat (phexdigit c))) of None \<Rightarrow> None
                | Some this \<Rightarrow> sethex_loop L this psz)
      else Some this)"

definition CBigNum_SetHex :: "'b bn_lib \<Rightarrow> string \<Rightarrow> 'b option" where
  "CBigNum_SetHex L str =
     (let psz = dropWhile c_isspace str;
          fNegative = (psz \<noteq> [] \<and> hd psz = CHR ''-'');
          psz = (if fNegative then tl psz else psz);
          psz = dropWhile c_isspace (skip_0x psz)
      in case sethex_loop L (CBigNum_of_int32 L 0) psz of None \<Rightarrow> None
         | Some this \<Rightarrow> if fNegative then BN_sub L (CBigNum_of_int32 L 0) this else Some this)"

text \<open>The loop runs until the quotient is zero. \<open>None\<close> is a run that does not end,
  \<open>Some None\<close> the exception, and the text is built in reverse as in the source.\<close>

partial_function (option) tostring_loop ::
  "'b bn_lib \<Rightarrow> 'b \<Rightarrow> 'b \<Rightarrow> 'b \<Rightarrow> string \<Rightarrow> ('b \<times> string) option option" where
  "tostring_loop L bnBase bn0 bn str =
     (if BN_cmp L bn bn0 > 0
      then (case BN_div L bn bnBase of
              None \<Rightarrow> Some None
            | Some (dv, rem) \<Rightarrow>
                tostring_loop L bnBase bn0 dv (str @ [hexdigit (unat (CBigNum_getuint32 L rem))]))
      else Some (Some (bn, str)))"

definition CBigNum_ToString :: "'b bn_lib \<Rightarrow> 'b \<Rightarrow> 32 word \<Rightarrow> string option option" where
  "CBigNum_ToString L this nBase =
     (let bnBase = CBigNum_of_int32 L nBase;
          bn0 = CBigNum_of_int32 L 0;
          bn = BN_set_negative L this False
      in if BN_cmp L bn bn0 = 0 then Some (Some ''0'')
         else case tostring_loop L bnBase bn0 bn [] of
                None \<Rightarrow> None
              | Some None \<Rightarrow> Some None
              | Some (Some (bn, str)) \<Rightarrow>
                  Some (Some (rev (if BN_is_negative L bn then str @ ''-'' else str))))"

section \<open>The MPI format\<close>

lemma le_val_nat_bytes [simp]: "le_val (nat_bytes n) = n"
proof (induction n rule: nat_bytes.induct)
  case (1 n)
  then show ?case by (subst nat_bytes.simps) (simp add: unat_of_nat)
qed

lemma nat_bytes_0 [simp]: "nat_bytes 0 = []"
  by (subst nat_bytes.simps) simp

lemma nat_bytes_eq_Nil [simp]: "nat_bytes n = [] \<longleftrightarrow> n = 0"
  by (subst nat_bytes.simps) simp

lemma last_nat_bytes: "n \<noteq> 0 \<Longrightarrow> last (nat_bytes n) \<noteq> 0"
proof (induction n rule: nat_bytes.induct)
  case (1 n)
  show ?case
  proof (cases "n div 256 = 0")
    case True
    then have "n < 256" by (simp add: div_eq_0_iff)
    then have "unat (of_nat n :: byte) = n" by (simp add: unat_of_nat)
    moreover have "nat_bytes n = [of_nat n]" using True 1(2) by (subst nat_bytes.simps) simp
    ultimately show ?thesis using 1(2) by auto
  next
    case False
    then show ?thesis using 1 by (subst nat_bytes.simps) simp
  qed
qed

lemma be_val_Nil [simp]: "be_val [] = 0"
  by (simp add: be_val_def)

lemma be_val_Cons: "be_val (b # bs) = unat b * 256 ^ length bs + be_val bs"
  by (simp add: be_val_def wval_append power_mult)

lemma be_val_append: "be_val (xs @ ys) = be_val xs * 256 ^ length ys + be_val ys"
  by (simp add: be_val_def wval_append power_mult)

lemma be_val_rev [simp]: "be_val (rev bs) = le_val bs"
  by (simp add: be_val_def)

lemma be_val_bound: "be_val bs < 256 ^ length bs"
  using le_val_bound [of "rev bs"] by (simp add: be_val_def)

lemma be_val_dropWhile: "be_val (dropWhile (\<lambda>c. c = 0) cs) = be_val cs"
  by (induction cs) (simp_all add: be_val_Cons)

lemma dropWhile_nat_bytes:
  "dropWhile (\<lambda>c. c = 0) cs = rev (nat_bytes (be_val cs))"
proof -
  define ds where "ds = dropWhile (\<lambda>c. c = 0) cs"
  have eq: "rev ds = nat_bytes (le_val (rev ds))" if "ds = [] \<or> hd ds \<noteq> 0" for ds :: bytes
  proof -
    have "xs = [] \<or> last xs \<noteq> 0 \<Longrightarrow> xs = nat_bytes (le_val xs)" for xs :: bytes
    proof (induction xs)
      case (Cons x xs)
      have "le_val (x # xs) \<noteq> 0"
        using Cons.prems by (cases "xs = []") (auto simp: unat_eq_0 wval_eq_0_iff list_all_iff)
      moreover have "xs = nat_bytes (le_val xs)" using Cons by (cases "xs = []") auto
      moreover have "(of_nat (unat x + 256 * le_val xs) :: byte) = x"
        using unat_less_power [of x]
        by (simp add: word_unat_eq_iff unat_of_nat del: of_nat_add of_nat_mult)
      moreover have "unat x div 256 = 0" using unat_less_power [of x] by simp
      ultimately show ?case
        by (subst nat_bytes.simps) (simp del: of_nat_add of_nat_mult)
    qed simp
    then show ?thesis using that by (cases "ds = []") (auto simp: last_rev)
  qed
  have "ds = [] \<or> hd ds \<noteq> 0"
    unfolding ds_def by (induction cs) auto
  then have "ds = rev (nat_bytes (be_val ds))" using eq [of ds] by (metis be_val_def rev_rev_ident)
  then show ?thesis by (simp add: ds_def be_val_dropWhile)
qed

subsection \<open>The sign bit\<close>

lemma sign_bit: "b AND 0x80 \<noteq> 0 \<longleftrightarrow> 128 \<le> unat (b :: byte)"
proof -
  have "(0x80 :: byte) = 2 ^ 7" by simp
  then have "b AND 0x80 \<noteq> 0 \<longleftrightarrow> bit b 7" by (simp only: and_exp_eq_0_iff_not_bit) simp
  also have "\<dots> \<longleftrightarrow> bit (unat b) 7" by (simp only: bit_unat)
  finally show ?thesis using bit_top_iff [of "unat b" 7] unat_less_power [of b] by simp
qed

lemma unat_and_7f: "unat (b AND 0x7f :: byte) = unat b mod 128"
proof -
  have "(0x7f :: byte) = mask 7" by (simp add: mask_eq_exp_minus_1)
  then show ?thesis by (simp only: unat_and_mask) simp
qed

lemma unat_or_80: "unat (b :: byte) < 128 \<Longrightarrow> unat (b OR 0x80) = unat b + 128"
  using unat_or_disjoint [of b 7 "0x80" 1] by simp

lemma mpi_val_sign:
  "mpi_val (mpi_sign s m) = (if s then - int (be_val m) else int (be_val m))"
proof (cases m)
  case Nil
  then show ?thesis by (simp add: mpi_sign_def)
next
  case (Cons b bs)
  have "be_val ((0x80 AND 0x7f) # b # bs) = be_val (b # bs)" "be_val ((0 AND 0x7f) # b # bs) = be_val (b # bs)"
    by (simp_all add: be_val_Cons)
  moreover have "unat b < 128 \<Longrightarrow> be_val ((b AND 0x7f) # bs) = be_val (b # bs)"
    by (simp add: be_val_Cons unat_and_7f)
  moreover have "unat b < 128 \<Longrightarrow> be_val (((b OR 0x80) AND 0x7f) # bs) = be_val (b # bs)"
    by (simp add: be_val_Cons unat_and_7f unat_or_80)
  ultimately show ?thesis
    using unat_or_80 [of b] by (auto simp: Cons mpi_sign_def sign_bit not_le Let_def)
qed

lemma mpi_val_enc [simp]: "mpi_val (mpi_enc v) = v"
  by (simp add: mpi_enc_def mpi_val_sign)

lemma mpi_enc_magnitude:
  "mpi_enc v = b # bs \<Longrightarrow> int (be_val ((b AND 0x7f) # bs)) = \<bar>v\<bar>"
  using mpi_val_enc [of v] by (auto simp: Let_def split: if_splits)

subsection \<open>The conversion loops write the shortest payload\<close>

lemma setuint_loop_rest: "setuint_loop cs False p = p @ cs"
  by (induction cs arbitrary: p) simp_all

lemma setuint_loop_sign:
  "setuint_loop cs True p = p @ mpi_sign False (dropWhile (\<lambda>c. c = 0) cs)"
  by (induction cs) (simp_all add: setuint_loop_rest mpi_sign_def)

lemma setuint_mpi_enc:
  "setuint_mpi cs = be4 (length (mpi_enc (int (be_val cs)))) @ mpi_enc (int (be_val cs))"
  by (simp add: setuint_mpi_def setuint_loop_sign mpi_enc_def dropWhile_nat_bytes Let_def)

lemma setint64_loop_rest:
  "setint64_loop i neg n False p
     = p @ map (\<lambda>j. ucast (drop_bit 56 (push_bit (8 * j) n) AND 0xff)) [0..<i]"
proof (induction i arbitrary: n p)
  case (Suc i)
  have "[0..<Suc i] = 0 # map Suc [0..<i]" by (simp add: map_Suc_upt upt_conv_Cons del: upt_Suc)
  then show ?case by (simp add: Suc Let_def push_bit_push_bit add.commute del: upt_Suc)
qed simp

lemma setint64_loop_sign:
  "setint64_loop i neg n True p = p @ mpi_sign neg
     (dropWhile (\<lambda>c. c = 0) (map (\<lambda>j. ucast (drop_bit 56 (push_bit (8 * j) n) AND 0xff)) [0..<i]))"
proof (induction i arbitrary: n p)
  case (Suc i)
  have "[0..<Suc i] = 0 # map Suc [0..<i]" by (simp add: map_Suc_upt upt_conv_Cons del: upt_Suc)
  then show ?case
    by (simp add: Suc Let_def push_bit_push_bit add.commute setint64_loop_rest mpi_sign_def o_def del: upt_Suc)
qed (simp add: mpi_sign_def)

lemma top_bytes:
  "map (\<lambda>j. ucast (drop_bit 56 (push_bit (8 * j) n) AND 0xff)) [0..<8] = rev (le_bytes 8 (unat (n :: u64)))"
  (is "?l = ?r")
proof (rule nth_equalityI)
  fix j
  assume "j < length ?l"
  then have j: "j < 8" by simp
  have "(0xff :: u64) = mask 8" by (simp add: mask_eq_exp_minus_1)
  then have l: "?l ! j = ucast (take_bit 8 (drop_bit 56 (push_bit (8 * j) n)))"
    using j by (simp add: take_bit_eq_mask)
  have "rev (le_bytes 8 (unat n)) ! j = of_nat (unat n div 2 ^ (8 * (7 - j)))"
    using j by (simp add: rev_nth wsplit_nth)
  also have "\<dots> = (of_nat (drop_bit (8 * (7 - j)) (unat n)) :: byte)"
    by (simp only: drop_bit_eq_div)
  finally have r: "?r ! j = (of_nat (drop_bit (8 * (7 - j)) (unat n)) :: byte)" .
  show "?l ! j = ?r ! j"
    unfolding l r
  proof (rule bit_eqI)
    fix k
    show "bit (ucast (take_bit 8 (drop_bit 56 (push_bit (8 * j) n))) :: byte) k
        = bit (of_nat (drop_bit (8 * (7 - j)) (unat n)) :: byte) k"
    proof (cases "k < 8")
      case True
      then have "56 + k - 8 * j = 8 * (7 - j) + k" "8 * j \<le> 56 + k" using j by auto
      then show ?thesis using True j
        by (simp add: bit_simps bit_unat)
    qed (simp add: bit_simps)
  qed
qed simp

lemma be_val_top_bytes:
  "be_val (map (\<lambda>j. ucast (drop_bit 56 (push_bit (8 * j) n) AND 0xff)) [0..<8]) = unat (n :: u64)"
proof -
  have "unat n < 256 ^ 8" using unat_less_power [of n] by simp
  then show ?thesis by (simp only: top_bytes be_val_rev le_val_le_bytes)
qed

lemma setint64_payload:
  "setint64_loop 8 neg n True [] = mpi_sign neg (rev (nat_bytes (unat n)))"
  by (simp only: setint64_loop_sign dropWhile_nat_bytes be_val_top_bytes append_Nil)

section \<open>The library as an interface\<close>

lemma wval_limbs_of_bytes: "length bs = 4 * m \<Longrightarrow> wval (limbs_of_bytes bs) = le_val bs \<and> length (limbs_of_bytes bs) = m"
proof (induction bs arbitrary: m rule: limbs_of_bytes.induct)
  case (1 b0 b1 b2 b3 bs)
  then obtain k where k: "m = Suc k" by (cases m) auto
  have "le_val [b0, b1, b2, b3] < 2 ^ 32" using le_val_bound [of "[b0, b1, b2, b3]"] by simp
  then have "unat (of_nat (le_val [b0, b1, b2, b3]) :: u32) = le_val [b0, b1, b2, b3]"
    by (simp add: unat_of_nat del: wval.simps)
  moreover have "le_val (b0 # b1 # b2 # b3 # bs) = le_val [b0, b1, b2, b3] + 2 ^ 32 * le_val bs"
    using wval_append [of "[b0, b1, b2, b3]" bs] by simp
  ultimately show ?case using 1 k by (simp del: wval.simps(2) add: wval.simps(2) [where 'a = 32])
qed (simp; presburger)+

lemma le_val_getBytes: "le_val (base_uint_getBytes a) = wval a"
  using wval_limbs_of_bytes [of "base_uint_getBytes a" "length a"]
  by (simp add: length_getBytes limbs_of_getBytes)

lemma length_nat_bytes: "n < 256 ^ k \<Longrightarrow> length (nat_bytes n) \<le> k"
proof (induction k arbitrary: n)
  case (Suc k)
  then have "n div 256 < 256 ^ k" by (intro less_mult_imp_div_less) (simp add: mult.commute)
  then show ?case using Suc.IH by (subst nat_bytes.simps) simp
qed simp

lemma length_mpi_sign_flag: "length (mpi_sign s m) = length (mpi_sign False m)"
  by (simp add: mpi_sign_def split: list.split)

lemma length_mpi_sign: "length (mpi_sign s m) \<le> Suc (length m)"
  by (simp add: mpi_sign_def split: list.split)

locale openssl_bn =
  fixes L :: "'b bn_lib" and num :: "'b \<Rightarrow> int"
  assumes word_size: "sizeof_BN_ULONG L = 4 \<or> sizeof_BN_ULONG L = 8"
    and num_new: "num (BN_new L) = 0"
    and num_set_word: "unat w < 256 ^ sizeof_BN_ULONG L \<Longrightarrow> num (BN_set_word L w) = int (unat w)"
    and get_word: "BN_get_word L x = of_nat (if \<bar>num x\<bar> < 256 ^ sizeof_BN_ULONG L then nat \<bar>num x\<bar>
                                            else 256 ^ sizeof_BN_ULONG L - 1)"
    and is_negative: "BN_is_negative L x \<longleftrightarrow> num x < 0"
    and num_set_negative: "num (BN_set_negative L x s) = (if s then - \<bar>num x\<bar> else \<bar>num x\<bar>)"
    and is_zero: "BN_is_zero L x \<longleftrightarrow> num x = 0"
    and num_mpi2bn: "length p < 2 ^ 31 - 4 \<Longrightarrow> num (BN_mpi2bn L (be4 (length p) @ p) r) = mpi_val p"
    and bn2mpi: "BN_bn2mpi L x = be4 (length (mpi_enc (num x))) @ mpi_enc (num x)"
    and num_bin2bn: "num (BN_bin2bn L bs) = int (be_val bs)"
    and bn2bin: "BN_bn2bin L x = rev (nat_bytes (nat \<bar>num x\<bar>))"
    and num_value_one: "num (BN_value_one L) = 1"
    and num_add: "\<exists>z. BN_add L x y = Some z \<and> num z = num x + num y"
    and num_sub: "\<exists>z. BN_sub L x y = Some z \<and> num z = num x - num y"
    and num_mul: "\<exists>z. BN_mul L x y = Some z \<and> num z = num x * num y"
    and num_div: "num y \<noteq> 0 \<Longrightarrow> \<exists>q r. BN_div L x y = Some (q, r)
                    \<and> num q = sgn (num x) * sgn (num y) * (\<bar>num x\<bar> div \<bar>num y\<bar>)
                    \<and> num r = sgn (num x) * (\<bar>num x\<bar> mod \<bar>num y\<bar>)"
    and div_0: "num y = 0 \<Longrightarrow> BN_div L x y = None"
    and num_nnmod: "num y \<noteq> 0 \<Longrightarrow> \<exists>z. BN_nnmod L x y = Some z \<and> num z = num x mod \<bar>num y\<bar>"
    and nnmod_0: "num y = 0 \<Longrightarrow> BN_nnmod L x y = None"
    and num_lshift: "\<exists>z. BN_lshift L x n = Some z \<and> num z = num x * 2 ^ n"
    and num_rshift: "\<exists>z. BN_rshift L x n = Some z \<and> num z = sgn (num x) * (\<bar>num x\<bar> div 2 ^ n)"
    and cmp: "BN_cmp L x y = sgn (num x - num y)"
begin

lemma num_setuint32: "num (CBigNum_setuint32 L n) = int (unat n)"
proof -
  have "unat (ucast n :: u64) < 256 ^ sizeof_BN_ULONG L"
    using word_size unat_less_power [of n] by (auto simp: unat_ucast64)
  then show ?thesis by (simp add: CBigNum_setuint32_def num_set_word unat_ucast64)
qed

lemma num_mpi2bn_sign:
  "n < 256 ^ k \<Longrightarrow> k < 2 ^ 30 \<Longrightarrow> p = mpi_sign s (rev (nat_bytes n)) \<Longrightarrow>
   num (BN_mpi2bn L (be4 (length p) @ p) r) = (if s then - int n else int n)"
  using length_mpi_sign [of s "rev (nat_bytes n)"] length_nat_bytes [of n k]
  by (subst num_mpi2bn) (simp_all add: mpi_val_sign)

lemma num_setuint_mpi:
  "length cs < 2 ^ 30 \<Longrightarrow> num (BN_mpi2bn L (setuint_mpi cs) r) = int (be_val cs)"
  unfolding setuint_mpi_def Let_def setuint_loop_sign append_Nil dropWhile_nat_bytes
  using num_mpi2bn_sign [OF be_val_bound, of cs "mpi_sign False (rev (nat_bytes (be_val cs)))" False] by simp

lemma num_setint64: "num (CBigNum_setint64 L sn) = sint sn"
proof (cases "sint sn < 0")
  case True
  have "- (sn + 1) + 1 = - sn" by simp
  moreover have "int (unat (- sn)) = - sint sn"
    using True by (rule unat_minus_negative)
  moreover have "unat (- sn) < 256 ^ 8" using unat_less_power [of "- sn"] by simp
  ultimately show ?thesis
    using True num_mpi2bn_sign [of "unat (- sn)" 8 "setint64_loop 8 True (- sn) True []" True]
    by (simp add: CBigNum_setint64_def Let_def setint64_payload)
next
  case False
  have "int (unat sn) = sint sn"
    using False by (intro unat_nonnegative) simp
  moreover have "unat sn < 256 ^ 8" using unat_less_power [of sn] by simp
  ultimately show ?thesis
    using False num_mpi2bn_sign [of "unat sn" 8 "setint64_loop 8 False sn True []" False]
    by (simp add: CBigNum_setint64_def Let_def setint64_payload)
qed

lemma num_setuint64: "num (CBigNum_setuint64 L n) = int (unat n)"
proof (cases "8 \<le> sizeof_BN_ULONG L")
  case True
  then have "unat n < 256 ^ sizeof_BN_ULONG L"
    using word_size unat_less_power [of n] by auto
  then show ?thesis using True by (simp add: CBigNum_setuint64_def num_set_word)
next
  case False
  then show ?thesis
    unfolding CBigNum_setuint64_def by (simp only: if_False) (subst num_setuint_mpi, simp, simp only: be_val_top_bytes)
qed

lemma num_setuint256: "length n = 8 \<Longrightarrow> num (CBigNum_setuint256 L n) = int (wval n)"
  by (simp add: CBigNum_setuint256_def num_setuint_mpi length_getBytes le_val_getBytes)

lemma num_setuint160: "length n = 5 \<Longrightarrow> num (CBigNum_setuint160 L n) = int (wval n)"
  by (simp add: CBigNum_setuint160_def num_setuint_mpi length_getBytes le_val_getBytes)

lemma num_of_int32: "num (CBigNum_of_int32 L n) = sint n"
proof -
  have "sint (scast n :: 64 word) = sint n" by (rule sint_up_scast) (simp add: is_up)
  then show ?thesis using unat_nonnegative [of n]
    by (auto simp: CBigNum_of_int32_def num_setuint32 num_setint64)
qed

lemma num_of_int64: "num (CBigNum_of_int64 L n) = sint n"
  using unat_nonnegative [of n]
  by (auto simp: CBigNum_of_int64_def num_setuint64 num_setint64)

lemma num_of_bool: "num (CBigNum_of_bool L b) = (if b then 1 else 0)"
  by (simp add: CBigNum_of_bool_def num_setuint32)

lemma magnitude_bytes: "le_val (get_low k (clear_sign (BN_bn2mpi L x))) = nat \<bar>num x\<bar> mod 256 ^ k"
  and length_get_low: "length (get_low k (clear_sign (BN_bn2mpi L x))) \<le> k"
proof -
  show "length (get_low k (clear_sign (BN_bn2mpi L x))) \<le> k" by (simp add: get_low_def)
  show "le_val (get_low k (clear_sign (BN_bn2mpi L x))) = nat \<bar>num x\<bar> mod 256 ^ k"
  proof (cases "mpi_enc (num x)")
    case Nil
    then have "num x = 0" using mpi_val_enc [of "num x"] by simp
    then show ?thesis using Nil by (simp add: bn2mpi clear_sign_def get_low_def be4_def)
  next
    case (Cons b bs)
    have "nat \<bar>num x\<bar> = be_val ((b AND 0x7f) # bs)" using mpi_enc_magnitude [OF Cons] by simp
    then show ?thesis
      using Cons wval_take [of k "rev bs @ [b AND 0x7f]"]
      by (simp add: bn2mpi clear_sign_def get_low_def be4_def be_val_def power_mult)
  qed
qed

lemma getuint64: "unat (CBigNum_getuint64 L x) = nat \<bar>num x\<bar> mod 2 ^ 64"
  using magnitude_bytes [of 8 x] by (simp add: CBigNum_getuint64_def bn2mpi be4_def unat_of_nat Let_def)

lemma get_limbs:
  assumes "b = get_low (4 * k) (clear_sign (BN_bn2mpi L x))"
  shows "wval (limbs_of_bytes (b @ replicate (4 * k - length b) 0)) = nat \<bar>num x\<bar> mod 256 ^ (4 * k)"
    and "length (limbs_of_bytes (b @ replicate (4 * k - length b) 0)) = k"
  using wval_limbs_of_bytes [of "b @ replicate (4 * k - length b) 0" k] assms
    length_get_low [of "4 * k" x] magnitude_bytes [of "4 * k" x]
  by (simp_all add: wval_append)

lemma getuint256:
  "wval (CBigNum_getuint256 L x) = nat \<bar>num x\<bar> mod 2 ^ 256 \<and> length (CBigNum_getuint256 L x) = 8"
  using get_limbs [OF refl, of 8 x]
  by (simp add: CBigNum_getuint256_def bn2mpi be4_def Let_def)

lemma getuint160:
  "wval (CBigNum_getuint160 L x) = nat \<bar>num x\<bar> mod 2 ^ 160 \<and> length (CBigNum_getuint160 L x) = 5"
  using get_limbs [OF refl, of 5 x]
  by (simp add: CBigNum_getuint160_def bn2mpi be4_def Let_def)

lemma num_setvch: "length vch < 2 ^ 31 - 4 \<Longrightarrow> num (CBigNum_setvch L vch) = mpi_val (rev vch)"
  using num_mpi2bn [of "rev vch"] by (simp add: CBigNum_setvch_def)

lemma getvch: "CBigNum_getvch L x = rev (mpi_enc (num x))"
  by (simp add: CBigNum_getvch_def bn2mpi be4_def Let_def)

end

subsection \<open>The two compact forms\<close>

lemma length_nat_bytes_eq:
  assumes "v < 256 ^ k" "v = 0 \<Longrightarrow> k = 0" "v \<noteq> 0 \<Longrightarrow> 256 ^ (k - 1) \<le> v"
  shows "length (nat_bytes v) = k"
  using assms
proof (induction k arbitrary: v)
  case (Suc k)
  then have v: "v \<noteq> 0" "256 ^ k \<le> v" "v < 256 * 256 ^ k" by auto
  then have "v div 256 < 256 ^ k" by (intro less_mult_imp_div_less) (simp add: mult.commute)
  moreover have lo: "k \<noteq> 0 \<Longrightarrow> 256 ^ (k - 1) \<le> v div 256"
    using v(2) by (cases k) (auto simp: less_eq_div_iff_mult_less_eq mult.commute)
  moreover have "v div 256 = 0 \<Longrightarrow> k = 0" using lo by (intro notI ccontr [of "k = 0"]) auto
  moreover have "v div 256 \<noteq> 0 \<Longrightarrow> 256 ^ (k - 1) \<le> v div 256"
    using lo by (cases "k = 0") (auto simp: Suc_le_eq)
  ultimately show ?case using Suc.IH [of "v div 256"] v(1) by (subst nat_bytes.simps) simp
qed simp

lemma nat_bytes_bits:
  "length (nat_bytes (wval a)) = (base_uint_bits a + 7) div 8" for a :: base_uint
proof (rule length_nat_bytes_eq)
  let ?n = "(base_uint_bits a + 7) div 8"
  have pow: "(256::nat) ^ j = 2 ^ (8 * j)" for j by (simp add: power_mult)
  show "wval a < 256 ^ ?n"
    unfolding pow by (rule less_le_trans [OF bits_upper]) (intro power_increasing, simp_all)
  show "?n = 0" if "wval a = 0" using bits_zero [OF that] by simp
  show "256 ^ (?n - 1) \<le> wval a" if "wval a \<noteq> 0"
    unfolding pow
    by (rule order_trans [OF _ bits_lower [OF that]]) (intro power_increasing, use bits_pos [OF that] in auto)
qed

lemma mpi_enc_nat:
  assumes "v \<noteq> 0"
  defines "k \<equiv> length (nat_bytes v)"
  shows "length (mpi_enc (int v)) = (if 128 * 256 ^ (k - 1) \<le> v then k + 1 else k)"
    and "be_val (mpi_enc (int v)) = v"
    and "mpi_enc (int v) = b # bs \<Longrightarrow> unat b < 128"
proof -
  obtain b bs where m: "rev (nat_bytes v) = b # bs" using assms(1) by (cases "rev (nat_bytes v)") auto
  then have k: "k = Suc (length bs)" unfolding k_def by (metis length_rev length_Cons)
  have v: "v = unat b * 256 ^ (k - 1) + be_val bs"
    using be_val_Cons [of b bs] be_val_rev [of "nat_bytes v"] by (simp add: k m)
  have hd: "128 \<le> unat b \<longleftrightarrow> 128 * 256 ^ (k - 1) \<le> v"
  proof
    assume "128 \<le> unat b"
    then have "128 * 256 ^ (k - 1) \<le> unat b * 256 ^ (k - 1)" by (rule mult_right_mono) simp
    then show "128 * 256 ^ (k - 1) \<le> v" using v by linarith
  next
    assume a: "128 * 256 ^ (k - 1) \<le> v"
    show "128 \<le> unat b"
    proof (rule ccontr)
      assume "\<not> 128 \<le> unat b"
      then have "(unat b + 1) * 256 ^ (k - 1) \<le> 128 * 256 ^ (k - 1)" by (intro mult_right_mono) simp_all
      then have "unat b * 256 ^ (k - 1) + 256 ^ (k - 1) \<le> 128 * 256 ^ (k - 1)"
        by (simp only: add_mult_distrib mult_1)
      moreover have "be_val bs < 256 ^ (k - 1)" using be_val_bound [of bs] k by simp
      ultimately show False using v a by linarith
    qed
  qed
  have p: "mpi_enc (int v) = (if 128 \<le> unat b then 0 # b # bs else b # bs)"
    by (simp add: mpi_enc_def m mpi_sign_def sign_bit)
  then show "length (mpi_enc (int v)) = (if 128 * 256 ^ (k - 1) \<le> v then k + 1 else k)"
    by (simp add: hd k)
  show "be_val (mpi_enc (int v)) = v" unfolding p using v k by (simp add: be_val_Cons)
  show "unat b < 128" if "mpi_enc (int v) = b # bs" for b bs
    using that p by (auto split: if_splits)
qed

lemma length_mpi_enc_abs: "length (mpi_enc v) = length (mpi_enc (int (nat \<bar>v\<bar>)))"
  unfolding mpi_enc_def by (simp add: length_mpi_sign_flag [of "v < 0"])

text \<open>No payload of the same value is shorter than the one the encoder writes.\<close>

lemma mpi_enc_shortest: "length (mpi_enc (mpi_val p)) \<le> length p"
proof (cases p)
  case Nil
  then show ?thesis by (simp add: mpi_enc_def mpi_sign_def nat_bytes.simps)
next
  case (Cons b bs)
  define m where "m = be_val ((b AND 0x7f) # bs)"
  have m: "nat \<bar>mpi_val p\<bar> = m" by (simp add: Cons m_def Let_def)
  have "unat (b AND 0x7f) < 128" by (simp add: unat_and_7f)
  then have "(unat (b AND 0x7f) + 1) * 256 ^ length bs \<le> 128 * 256 ^ length bs" by (intro mult_right_mono) simp_all
  then have "unat (b AND 0x7f) * 256 ^ length bs + 256 ^ length bs \<le> 128 * 256 ^ length bs"
    by (simp only: add_mult_distrib mult_1)
  then have bound: "m < 128 * 256 ^ length bs"
    unfolding m_def be_val_Cons using be_val_bound [of bs] by linarith
  show ?thesis
  proof (cases "m = 0")
    case True
    then show ?thesis unfolding length_mpi_enc_abs [of "mpi_val p"] m by (simp add: mpi_enc_def mpi_sign_def nat_bytes.simps)
  next
    case False
    let ?k = "length (nat_bytes m)"
    have k: "?k \<le> Suc (length bs)" using bound by (intro length_nat_bytes) simp
    have "\<not> 128 * 256 ^ (?k - 1) \<le> m" if "?k = Suc (length bs)" using bound that by simp
    then show ?thesis unfolding length_mpi_enc_abs [of "mpi_val p"] m mpi_enc_nat(1) [OF False] using k Cons by (cases "?k = Suc (length bs)") auto
  qed
qed

lemma GetCompact_payload:
  assumes p: "BN_bn2mpi L x = be4 (length p) @ p" and l: "length p < 256"
  shows "unat (CBigNum_GetCompact L x) = 2 ^ 24 * length p + be_val (take 3 (p @ [0, 0, 0]))"
proof -
  have s: "unat (push_bit 24 (of_nat (length p)) :: u32) = 2 ^ 24 * length p"
    using l by (simp add: unat_push_bit unat_of_nat)
  have b: "unat (ucast (b :: byte) :: u32) = unat b" for b
    using unat_less_power [of b] by (simp add: unsigned_ucast_eq take_bit_eq_mod)
  have b8: "unat (push_bit 8 (ucast (b :: byte)) :: u32) = 2 ^ 8 * unat b" for b
    using unat_less_power [of b] by (simp add: unat_push_bit b)
  have b16: "unat (push_bit 16 (ucast (b :: byte)) :: u32) = 2 ^ 16 * unat b" for b
    using unat_less_power [of b] by (simp add: unat_push_bit b)
  have o1: "unat (push_bit 24 (of_nat (length p)) OR push_bit 16 (ucast b0) :: u32)
      = 2 ^ 24 * length p + 2 ^ 16 * unat b0" for b0 :: byte
    using unat_or_disjoint2 [of "push_bit 16 (ucast b0) :: u32" 24 _ "length p"] unat_less_power [of b0]
    by (simp add: s b16)
  have o2: "unat ((push_bit 24 (of_nat (length p)) OR push_bit 16 (ucast b0)) OR push_bit 8 (ucast b1) :: u32)
      = 2 ^ 24 * length p + 2 ^ 16 * unat b0 + 2 ^ 8 * unat b1" for b0 b1 :: byte
    using unat_or_disjoint2 [of "push_bit 8 (ucast b1) :: u32" 16
        "push_bit 24 (of_nat (length p)) OR push_bit 16 (ucast b0)" "2 ^ 8 * length p + unat b0"]
      unat_less_power [of b1]
    by (simp add: o1 b8 algebra_simps)
  have o3: "unat (((push_bit 24 (of_nat (length p)) OR push_bit 16 (ucast b0)) OR push_bit 8 (ucast b1))
        OR ucast b2 :: u32)
      = 2 ^ 24 * length p + 2 ^ 16 * unat b0 + 2 ^ 8 * unat b1 + unat b2" for b0 b1 b2 :: byte
    using unat_or_disjoint2 [of "ucast b2 :: u32" 8
        "(push_bit 24 (of_nat (length p)) OR push_bit 16 (ucast b0)) OR push_bit 8 (ucast b1)"
        "2 ^ 16 * length p + 2 ^ 8 * unat b0 + unat b1"]
      unat_less_power [of b2]
    by (simp add: o2 b algebra_simps)
  consider "p = []" | b0 where "p = [b0]" | b0 b1 where "p = [b0, b1]"
    | b0 b1 b2 r where "p = b0 # b1 # b2 # r"
    by (cases p rule: limbs_of_bytes.cases) auto
  then show ?thesis
  proof cases
    case 1
    then show ?thesis by (simp add: CBigNum_GetCompact_def Let_def p be4_def be_val_Cons)
  next
    case (2 b0)
    then show ?thesis using s o1 [of b0] by (simp add: CBigNum_GetCompact_def Let_def p be4_def be_val_Cons)
  next
    case (3 b0 b1)
    then show ?thesis using o2 [of b0 b1] by (simp add: CBigNum_GetCompact_def Let_def p be4_def be_val_Cons)
  next
    case (4 b0 b1 b2 r)
    then show ?thesis using o3 [of b0 b1 b2] by (simp add: CBigNum_GetCompact_def Let_def p be4_def be_val_Cons)
  qed
qed


lemma be_val_take3:
  "be_val (take 3 (p @ [0, 0, 0])) = (if length p \<le> 3 then be_val p * 256 ^ (3 - length p)
     else be_val p div 256 ^ (length p - 3))"
proof (cases "length p \<le> 3")
  case True
  then have "take 3 (p @ [0, 0, 0]) = p @ replicate (3 - length p) 0"
    by (simp add: eval_nat_numeral) (auto simp: le_Suc_eq)
  moreover have "be_val (replicate n 0) = 0" for n by (simp add: be_val_def)
  ultimately show ?thesis using True by (simp add: be_val_append)
next
  case False
  then have "be_val p = be_val (take 3 p) * 256 ^ (length p - 3) + be_val (drop 3 p)"
    using be_val_append [of "take 3 p" "drop 3 p"] by simp
  moreover have "be_val (drop 3 p) < 256 ^ (length p - 3)" using be_val_bound [of "drop 3 p"] by simp
  ultimately show ?thesis using False by simp
qed

lemma compact_nat_payload:
  assumes v: "v \<noteq> 0"
  defines "k \<equiv> length (nat_bytes v)" and "p \<equiv> mpi_enc (int v)"
  shows "compact_nat k v = 2 ^ 24 * length p + be_val (take 3 (p @ [0, 0, 0]))"
proof -
  note e = mpi_enc_nat [OF v, folded k_def p_def]
  have k: "k \<noteq> 0" using v by (simp add: k_def)
  have high: "2 ^ 23 \<le> (if k \<le> 3 then v * 256 ^ (3 - k) else v div 256 ^ (k - 3))
      \<longleftrightarrow> 128 * 256 ^ (k - 1) \<le> v"
  proof (cases "k \<le> 3")
    case True
    have "3 - k + (k - 1) = 2" using True k by simp
    then have "(128 * 256 ^ (k - 1)) * 256 ^ (3 - k) = (2 ^ 23 :: nat)"
      by (simp add: mult.assoc flip: power_add)
    then have "2 ^ 23 \<le> v * 256 ^ (3 - k) \<longleftrightarrow> (128 * 256 ^ (k - 1)) * 256 ^ (3 - k) \<le> v * 256 ^ (3 - k)"
      by (simp only:)
    also have "\<dots> \<longleftrightarrow> 128 * 256 ^ (k - 1) \<le> v" by (subst mult_le_cancel2) simp
    finally show ?thesis using True by simp
  next
    case False
    then have "k - 1 = 2 + (k - 3)" by simp
    then have "128 * 256 ^ (k - 1) = (2 ^ 23 * 256 ^ (k - 3) :: nat)" by (simp only: power_add) simp
    then show ?thesis using False by (simp add: less_eq_div_iff_mult_less_eq)
  qed
  show ?thesis
  proof (cases "128 * 256 ^ (k - 1) \<le> v")
    case False
    then show ?thesis unfolding compact_nat_def Let_def be_val_take3 e(2)
      using high e(1) by simp
  next
    case True
    then have h: "2 ^ 23 \<le> (if k \<le> 3 then v * 256 ^ (3 - k) else v div 256 ^ (k - 3))" using high by simp
    have l: "length p = k + 1" using e(1) True by simp
    have "(if k \<le> 3 then v * 256 ^ (3 - k) else v div 256 ^ (k - 3)) div 256
        = (if k + 1 \<le> 3 then v * 256 ^ (3 - (k + 1)) else v div 256 ^ (k + 1 - 3))"
    proof -
      consider "k \<le> 2" | "k = 3" | "3 < k" by linarith
      then show ?thesis
      proof cases
        case 1
        then have "3 - k = Suc (3 - (k + 1))" by simp
        then show ?thesis using 1 by simp
      next
        case 2
        then show ?thesis by simp
      next
        case 3
        then have "k + 1 - 3 = Suc (k - 3)" by simp
        then have "v div 256 ^ (k - 3) div 256 = v div 256 ^ (k + 1 - 3)"
          by (simp only: power_Suc2 div_mult2_eq)
        then show ?thesis using 3 by simp
      qed
    qed
    then show ?thesis unfolding compact_nat_def Let_def be_val_take3 e(2) l
      using h by simp
  qed
qed

lemma SetCompact_general:
  fixes c :: u32
  defines "s \<equiv> unat c div 2 ^ 24" and "m \<equiv> unat c mod 2 ^ 23"
  defines "w \<equiv> (if s \<le> 3 then m div 256 ^ (3 - s) else m)"
  shows "wval (fst (uint256_SetCompact c)) = (if s \<le> 3 then w else w * 256 ^ (s - 3) mod 2 ^ 256)"
    "fst (snd (uint256_SetCompact c)) \<longleftrightarrow> w \<noteq> 0 \<and> bit c 23"
    "snd (snd (uint256_SetCompact c)) \<longleftrightarrow> w \<noteq> 0 \<and> (34 < s \<or> 0xff < w \<and> 33 < s \<or> 0xffff < w \<and> 32 < s)"
proof -
  have s: "unat (drop_bit 24 c) = s"
    unfolding s_def by (rule trans [OF unat_drop_bit_eq drop_bit_eq_div])
  have "(0x007fffff :: u32) = mask 23" by (simp add: mask_eq_exp_minus_1)
  then have m: "unat (c AND 0x007fffff) = m" unfolding m_def by (simp only: unat_and_mask)
  have d: "unat (drop_bit (8 * (3 - s)) (c AND 0x007fffff)) = m div 256 ^ (3 - s)"
    by (rule trans [OF unat_drop_bit_eq trans [OF drop_bit_eq_div]]) (simp add: m power_mult)
  define W where "W = (if s \<le> 3 then drop_bit (8 * (3 - s)) (c AND 0x007fffff) else c AND 0x007fffff)"
  have W: "unat W = w" using m d by (simp add: W_def w_def)
  have "(0x00800000 :: u32) = 2 ^ 23" by simp
  then have sg: "c AND 0x00800000 \<noteq> 0 \<longleftrightarrow> bit c 23" by (simp only: and_exp_eq_0_iff_not_bit) simp
  have W0: "W \<noteq> 0 \<longleftrightarrow> w \<noteq> 0" using W by (metis unat_eq_0)
  have eq: "uint256_SetCompact c =
      (if s \<le> 3 then base_uint_assign64 8 (ucast W) else base_uint_shl (base_uint_assign64 8 (ucast W)) (8 * (s - 3)),
       W \<noteq> 0 \<and> bit c 23, W \<noteq> 0 \<and> (34 < s \<or> 0xff < W \<and> 33 < s \<or> 0xffff < W \<and> 32 < s))"
    unfolding uint256_SetCompact_def Let_def s W_def [symmetric] sg by simp
  show "wval (fst (uint256_SetCompact c)) = (if s \<le> 3 then w else w * 256 ^ (s - 3) mod 2 ^ 256)"
    by (simp add: eq wval_assign64 wval_shl unat_ucast64 W power_mult)
  show "fst (snd (uint256_SetCompact c)) \<longleftrightarrow> w \<noteq> 0 \<and> bit c 23"
    by (simp add: eq W0)
  show "snd (snd (uint256_SetCompact c)) \<longleftrightarrow> w \<noteq> 0 \<and> (34 < s \<or> 0xff < w \<and> 33 < s \<or> 0xffff < w \<and> 32 < s)"
    by (simp add: eq W0 word_less_nat_alt W)
qed

lemma compact_no_overflow:
  assumes "w \<noteq> 0 \<longrightarrow> \<not> (34 < s \<or> 0xff < w \<and> 33 < s \<or> 0xffff < w \<and> 32 < s)" "w < 2 ^ 23" "3 < s"
  shows "w * 256 ^ (s - 3) < (2 ^ 256 :: nat)"
proof (cases "w = 0")
  case False
  have pw: "w * 256 ^ (s - 3) < 2 ^ 256" if "w < 2 ^ e" "e + 8 * (s - 3) \<le> 256" for e
  proof -
    have "w * 256 ^ (s - 3) < 2 ^ e * 256 ^ (s - 3)" using that(1) by simp
    also have "\<dots> = 2 ^ (e + 8 * (s - 3))" by (simp add: power_add power_mult)
    also have "\<dots> \<le> 2 ^ 256" using that(2) by (intro power_increasing) simp_all
    finally show ?thesis .
  qed
  consider "s \<le> 32" | "s = 33" | "s = 34" using assms(1) False by linarith
  then show ?thesis
  proof cases
    case 1
    then show ?thesis using pw [of 23] assms(2) by simp
  next
    case 2
    then show ?thesis using pw [of 16] assms(1) False by simp
  next
    case 3
    then show ?thesis using pw [of 8] assms(1) False by simp
  qed
qed simp

lemma bit7: "bit b 7 \<longleftrightarrow> 128 \<le> unat (b :: byte)"
  using bit_top_iff [of "unat b" 7] unat_less_power [of b] by (simp add: bit_unat)

lemma mod_2_23:
  "x mod 2 ^ 23 = x mod 256 + 256 * (x div 2 ^ 8 mod 256) + 65536 * (x div 2 ^ 16 mod 256 mod 128)"
  for x :: nat
proof -
  have "x mod (256 * 32768) = 256 * (x div 256 mod 32768) + x mod 256" by (rule mod_mult2_eq)
  moreover have "x div 256 mod (256 * 128) = 256 * (x div 256 div 256 mod 128) + x div 256 mod 256"
    by (rule mod_mult2_eq)
  moreover have "x div 256 div 256 = x div 2 ^ 16" by (simp flip: div_mult2_eq)
  moreover have "x div 2 ^ 16 mod 256 mod 128 = x div 2 ^ 16 mod 128" by (rule mod_mod_cancel) simp
  ultimately show ?thesis by simp
qed

lemma compact_payload:
  fixes c :: u32
  defines "s \<equiv> unat c div 2 ^ 24" and "m \<equiv> unat c mod 2 ^ 23"
  obtains p where "CBigNum_SetCompact L c = BN_mpi2bn L (be4 s @ p) (BN_new L)" "length p = s"
    "mpi_val p = (if bit c 23 then - 1 else 1) * int (if s \<le> 3 then m div 256 ^ (3 - s) else m * 256 ^ (s - 3))"
proof -
  define c2 c1 c0 :: byte where "c2 = ucast (drop_bit 16 c AND 0xff)"
    and "c1 = ucast (drop_bit 8 c AND 0xff)" and "c0 = ucast (c AND 0xff)"
  define p where "p = take s ([c2, c1, c0] @ replicate (s - 3) 0)"
  have low: "unat (ucast (x AND 0xff :: u32) :: byte) = unat x mod 256" for x
  proof -
    have "(0xff :: u32) = mask 8" by (simp add: mask_eq_exp_minus_1)
    then have "unat (x AND 0xff) = unat x mod 256" by (simp only: unat_and_mask) simp
    moreover have "unat (ucast (x AND 0xff) :: byte) = take_bit LENGTH(8) (unat (x AND 0xff))"
      by (rule unsigned_ucast_eq)
    ultimately show ?thesis by (simp add: take_bit_eq_mod)
  qed
  have dr: "unat (drop_bit n c) = unat c div 2 ^ n" for n
    by (rule trans [OF unat_drop_bit_eq drop_bit_eq_div])
  have b: "unat c2 = unat c div 2 ^ 16 mod 256" "unat c1 = unat c div 2 ^ 8 mod 256" "unat c0 = unat c mod 256"
    unfolding c2_def c1_def c0_def low dr by simp_all
  have top: "bit c 23 \<longleftrightarrow> 128 \<le> unat c2"
  proof -
    have "(0xff :: u32) = mask 8" by (simp add: mask_eq_exp_minus_1)
    then have "bit c2 7 \<longleftrightarrow> bit c 23" by (simp add: c2_def bit_simps)
    then show ?thesis by (simp add: bit7)
  qed
  have m: "m = unat c0 + 256 * unat c1 + 65536 * (unat c2 mod 128)"
    unfolding m_def b by (rule mod_2_23)
  have lt: "unat c0 < 256" "unat c1 < 256" using unat_less_power [of c0] unat_less_power [of c1] by simp_all
  have s: "s < 256" unfolding s_def using unat_less_power [of c] by (simp add: less_mult_imp_div_less)
  have dr24: "unat (drop_bit 24 c) = s" by (simp only: dr s_def)
  have be4: "be4 s = [0, 0, 0, of_nat s]" using s by (simp add: be4_def)
  consider "s = 0" | "s = 1" | "s = 2" | r where "s = Suc (Suc (Suc r))"
    by (metis One_nat_def Suc_1 not0_implies_Suc)
  note s_cases = this
  have "CBigNum_SetCompact L c = BN_mpi2bn L (be4 s @ p) (BN_new L)"
    unfolding CBigNum_SetCompact_def Let_def dr24 c2_def [symmetric] c1_def [symmetric] c0_def [symmetric] be4
    using s_cases by cases (simp_all add: p_def eval_nat_numeral)
  moreover have "length p = s" by (simp add: p_def)
  moreover have "mpi_val p = (if bit c 23 then - 1 else 1)
      * int (if s \<le> 3 then m div 256 ^ (3 - s) else m * 256 ^ (s - 3))"
  proof -
    have z: "be_val (replicate n 0) = 0" for n by (simp add: be_val_def)
    have val: "mpi_val (c2 # bs) = (if bit c 23 then - 1 else 1) * int (unat c2 mod 128 * 256 ^ length bs + be_val bs)"
      for bs by (simp add: Let_def sign_bit top be_val_Cons unat_and_7f)
    have m23: "m < 2 ^ 23" by (simp add: m_def)
    have md: "m div 65536 = unat c2 mod 128" "m div 256 = unat c2 mod 128 * 256 + unat c1"
      using lt by (simp_all add: m)
    show ?thesis
      using s_cases
    proof cases
      case (4 r)
      have "p = c2 # [c1, c0] @ replicate r 0" by (simp add: p_def 4)
      then have "mpi_val p = (if bit c 23 then - 1 else 1)
          * int (unat c2 mod 128 * 256 ^ (2 + r) + be_val ([c1, c0] @ replicate r 0))"
        by (simp only: val) simp
      also have "unat c2 mod 128 * 256 ^ (2 + r) + be_val ([c1, c0] @ replicate r 0) = m * 256 ^ r"
        unfolding be_val_append by (simp add: z be_val_Cons m power_add algebra_simps)
      finally show ?thesis by (simp add: 4)
    qed (use m23 md in \<open>simp_all add: p_def val be_val_Cons del: mpi_val.simps(2)\<close>)
  qed
  ultimately show thesis by (rule that)
qed

context openssl_bn
begin

lemma GetCompact_uint256:
  assumes "length a = 8"
  shows "uint256_GetCompact a False = Some (CBigNum_GetCompact L (CBigNum_setuint256 L a))"
proof -
  let ?x = "CBigNum_setuint256 L a" and ?p = "mpi_enc (int (wval a))"
  have p: "BN_bn2mpi L ?x = be4 (length ?p) @ ?p" using bn2mpi [of ?x] num_setuint256 [OF assms] by simp
  have "wval a < 256 ^ 32" using wval_bound [of a] assms by simp
  then have l: "length ?p < 256"
    using length_mpi_sign [of False "rev (nat_bytes (wval a))"] length_nat_bytes [of "wval a" 32]
    by (simp add: mpi_enc_def)
  note g = GetCompact_payload [OF p l]
  have "unat (CBigNum_GetCompact L ?x) = compact_nat ((base_uint_bits a + 7) div 8) (wval a)"
  proof (cases "wval a = 0")
    case True
    then show ?thesis using g bits_zero [OF True]
      by (simp add: compact_nat_def mpi_enc_def mpi_sign_def be_val_Cons)
  next
    case False
    then show ?thesis using g compact_nat_payload [OF False] nat_bytes_bits [of a] by simp
  qed
  then show ?thesis unfolding GetCompact_compact_nat [OF assms] by (simp flip: of_nat_of_unat)
qed

lemma SetCompact_uint256:
  assumes "\<not> snd (snd (uint256_SetCompact c))"
  shows "num (CBigNum_SetCompact L c)
    = (if fst (snd (uint256_SetCompact c)) then - 1 else 1) * int (wval (fst (uint256_SetCompact c)))"
proof -
  obtain p where p: "CBigNum_SetCompact L c = BN_mpi2bn L (be4 (unat c div 2 ^ 24) @ p) (BN_new L)"
    "length p = unat c div 2 ^ 24"
    "mpi_val p = (if bit c 23 then - 1 else 1) * int (if unat c div 2 ^ 24 \<le> 3
       then unat c mod 2 ^ 23 div 256 ^ (3 - unat c div 2 ^ 24)
       else unat c mod 2 ^ 23 * 256 ^ (unat c div 2 ^ 24 - 3))"
    by (rule compact_payload)
  have "length p < 2 ^ 31 - 4" using p(2) unat_less_power [of c] by (simp add: less_mult_imp_div_less)
  then have n: "num (CBigNum_SetCompact L c) = mpi_val p" using num_mpi2bn [of p] p by simp
  note g = SetCompact_general [of c]
  have "unat c mod 2 ^ 23 < 2 ^ 23" by simp
  then show ?thesis
    using assms compact_no_overflow [of "unat c mod 2 ^ 23" "unat c div 2 ^ 24"]
    unfolding n p(3) g by (auto split: if_splits)
qed

end

section \<open>Operators and text\<close>

fun ndigits :: "nat \<Rightarrow> nat \<Rightarrow> nat list" where
  "ndigits B n = (if n = 0 \<or> B < 2 then [] else n mod B # ndigits B (n div B))"

declare ndigits.simps [simp del]

lemma ndigits_less: "2 \<le> B \<Longrightarrow> list_all (\<lambda>d. d < B) (ndigits B n)"
proof (induction B n rule: ndigits.induct)
  case (1 B n)
  then show ?case by (subst ndigits.simps) simp
qed

lemma ndigits_last: "2 \<le> B \<Longrightarrow> n \<noteq> 0 \<Longrightarrow> ndigits B n \<noteq> [] \<and> last (ndigits B n) \<noteq> 0"
proof (induction B n rule: ndigits.induct)
  case (1 B n)
  show ?case
  proof (cases "n < B")
    case True
    then have "ndigits B n = [n]" using 1(2,3) by (simp add: ndigits.simps [of B n] ndigits.simps [of B 0])
    then show ?thesis using 1(3) by simp
  next
    case False
    then have "n div B \<noteq> 0" using 1(2) by (simp add: div_eq_0_iff)
    then show ?thesis using 1 by (subst (1 2) ndigits.simps) simp
  qed
qed

lemma hexdigit_alphabet: "d < B \<Longrightarrow> B \<le> 16 \<Longrightarrow> hexdigit d \<in> set (take B ''0123456789abcdef'')"
proof -
  assume d: "d < B" "B \<le> 16"
  have "list_all (\<lambda>d. hexdigit d = ''0123456789abcdef'' ! d) [0..<16]" by code_simp
  then have "hexdigit d = take B ''0123456789abcdef'' ! d" using d by (simp add: list_all_iff)
  moreover have "d < length (take B ''0123456789abcdef'')" using d by simp
  ultimately show ?thesis by (metis nth_mem)
qed

lemma hexdigit_nonzero: "d \<noteq> 0 \<Longrightarrow> d < 16 \<Longrightarrow> hexdigit d \<noteq> CHR ''0''"
proof -
  assume d: "d \<noteq> 0" "d < 16"
  have "list_all (\<lambda>d. hexdigit d \<noteq> CHR ''0'') [1..<16]" by code_simp
  then show ?thesis using d by (simp add: list_all_iff)
qed

text \<open>The canonical text of a number in a base: its digits and nothing else, without leading zeros.\<close>

lemma digits_text:
  fixes n :: nat
  assumes "2 \<le> B" "B \<le> 16"
  defines "str \<equiv> if n = 0 then ''0'' else rev (map hexdigit (ndigits B n))"
  shows "list_all (\<lambda>c. c \<in> set (take B ''0123456789abcdef'')) str" "str = ''0'' \<or> str \<noteq> [] \<and> hd str \<noteq> CHR ''0''"
proof -
  have less: "list_all (\<lambda>d. d < B) (ndigits B n)" by (rule ndigits_less [OF assms(1)])
  then show "list_all (\<lambda>c. c \<in> set (take B ''0123456789abcdef'')) str"
    using hexdigit_alphabet [of _ B] hexdigit_alphabet [of 0 B] assms(1,2) by (auto simp: str_def list_all_iff hexdigit_def)
  show "str = ''0'' \<or> str \<noteq> [] \<and> hd str \<noteq> CHR ''0''"
  proof (cases "n = 0")
    case False
    then have l: "ndigits B n \<noteq> []" "last (ndigits B n) \<noteq> 0" using ndigits_last [OF assms(1)] by blast+
    then have "last (ndigits B n) < B" using less last_in_set [OF l(1)] unfolding list_all_iff by blast
    then have "last (ndigits B n) < 16" using assms(2) by simp
    then show ?thesis using l hexdigit_nonzero [of "last (ndigits B n)"] False by (simp add: str_def hd_rev last_map)
  qed (simp add: str_def)
qed

lemma ndigits_value:
  "2 \<le> B \<Longrightarrow> B \<le> 16 \<Longrightarrow>
   foldl (\<lambda>v c. v * B + phexdigit c) 0 (rev (map hexdigit (ndigits B n))) = n"
proof (induction B n rule: ndigits.induct)
  case (1 B n)
  have "n mod B < 16" using 1 by (intro less_le_trans [OF mod_less_divisor]) auto
  then show ?case using 1 by (subst ndigits.simps) (simp add: hexdigit_ok)
qed

context openssl_bn
begin

lemma getint32_clamp: "CBigNum_getint32 L x = max (- (2 ^ 31)) (min (2 ^ 31 - 1) (num x))"
proof -
  have "unat (BN_get_word L x) = (if \<bar>num x\<bar> < 256 ^ sizeof_BN_ULONG L then nat \<bar>num x\<bar>
        else 256 ^ sizeof_BN_ULONG L - 1)"
    using word_size by (auto simp: get_word unat_of_nat nat_less_iff)
  then show ?thesis using word_size
    by (auto simp: CBigNum_getint32_def is_negative Let_def)
qed

lemma getuint32_small: "0 \<le> num x \<Longrightarrow> num x < 2 ^ 32 \<Longrightarrow> unat (CBigNum_getuint32 L x) = nat (num x)"
proof -
  assume x: "0 \<le> num x" "num x < 2 ^ 32"
  then have "num x < 256 ^ sizeof_BN_ULONG L" using word_size by auto
  moreover obtain k where k: "num x = int k" using x(1) nonneg_int_cases by blast
  ultimately have "unat (BN_get_word L x) = nat (num x)"
    using x by (simp add: get_word unat_of_nat)
  then show ?thesis using x by (simp add: CBigNum_getuint32_def unat_ucast32 nat_less_iff)
qed

lemma num_0: "num (CBigNum_of_int32 L 0) = 0" and num_1: "num (CBigNum_of_int32 L 1) = 1"
  by (simp_all add: num_of_int32)

lemma shr_spec:
  "\<exists>z. CBigNum_shr L x n = Some z \<and> num z = (if num x < 0 then 0 else num x div 2 ^ n)"
proof -
  obtain a where a: "BN_lshift L (CBigNum_of_int32 L 1) n = Some a" "num a = 2 ^ n"
    using num_lshift [of "CBigNum_of_int32 L 1" n] by (auto simp: num_1)
  obtain z where z: "BN_rshift L x n = Some z" "num z = sgn (num x) * (\<bar>num x\<bar> div 2 ^ n)"
    using num_rshift by blast
  show ?thesis
  proof (cases "num x < 2 ^ n")
    case True
    then have "num x div 2 ^ n = 0" if "0 \<le> num x" using that by simp
    then show ?thesis using True a by (auto simp: CBigNum_shr_def cmp num_0)
  next
    case False
    then have "(0::int) < 2 ^ n" "2 ^ n \<le> num x" by simp_all
    then have "0 < num x" by linarith
    then show ?thesis using False a z by (auto simp: CBigNum_shr_def cmp sgn_if)
  qed
qed

lemma tostring_loop_digits:
  assumes B: "num bnBase = int B" "2 \<le> B" "B \<le> 16" and z: "num bn0 = 0"
  shows "num bn = int n \<Longrightarrow>
    \<exists>bn'. tostring_loop L bnBase bn0 bn str = Some (Some (bn', str @ map hexdigit (ndigits B n))) \<and> num bn' = 0"
proof (induction n arbitrary: bn str rule: less_induct)
  case (less n)
  show ?case
  proof (cases "n = 0")
    case True
    then show ?thesis using less.prems
      by (subst tostring_loop.simps, subst ndigits.simps) (simp add: cmp z)
  next
    case False
    have "num bnBase \<noteq> 0" using B by simp
    then obtain q r where qr: "BN_div L bn bnBase = Some (q, r)"
      "num q = sgn (num bn) * sgn (num bnBase) * (\<bar>num bn\<bar> div \<bar>num bnBase\<bar>)"
      "num r = sgn (num bn) * (\<bar>num bn\<bar> mod \<bar>num bnBase\<bar>)"
      using num_div by blast
    have q: "num q = int (n div B)" and r: "num r = int (n mod B)"
      using qr(2,3) False B less.prems by (simp_all add: zdiv_int zmod_int sgn_if)
    have "n mod B < 16" using B by (intro less_le_trans [OF mod_less_divisor]) auto
    then have "unat (CBigNum_getuint32 L r) = n mod B" using getuint32_small [of r] r by simp
    moreover have "n div B < n" using False B by simp
    ultimately show ?thesis
      using less.IH [of "n div B" q "str @ [hexdigit (n mod B)]"] q False B less.prems
      by (subst tostring_loop.simps, subst ndigits.simps) (simp add: cmp z qr(1))
  qed
qed

lemma ToString_magnitude:
  assumes "2 \<le> sint base" "sint base \<le> 16"
  shows "CBigNum_ToString L x base = Some (Some (if num x = 0 then ''0''
    else rev (map hexdigit (ndigits (nat (sint base)) (nat \<bar>num x\<bar>)))))"
proof -
  let ?bn = "BN_set_negative L x False" and ?B = "nat (sint base)"
  have B: "num (CBigNum_of_int32 L base) = int ?B" "2 \<le> ?B" "?B \<le> 16"
    using assms by (simp_all add: num_of_int32 nat_le_iff le_nat_iff)
  have n: "num ?bn = int (nat \<bar>num x\<bar>)" by (simp add: num_set_negative)
  obtain bn' where "tostring_loop L (CBigNum_of_int32 L base) (CBigNum_of_int32 L 0) ?bn []
      = Some (Some (bn', [] @ map hexdigit (ndigits ?B (nat \<bar>num x\<bar>))))" "num bn' = 0"
    using tostring_loop_digits [OF B num_0 n] by blast
  then show ?thesis using n
    by (simp add: CBigNum_ToString_def cmp num_0 is_negative Let_def sgn_if)
qed

end

definition int_bn :: "int bn_lib" where
  "int_bn = \<lparr> sizeof_BN_ULONG = 8, BN_new = 0, BN_set_word = (\<lambda>w. int (unat w)),
     BN_get_word = (\<lambda>x. of_nat (if \<bar>x\<bar> < 256 ^ 8 then nat \<bar>x\<bar> else 256 ^ 8 - 1)),
     BN_is_negative = (\<lambda>x. x < 0), BN_set_negative = (\<lambda>x s. if s then - \<bar>x\<bar> else \<bar>x\<bar>),
     BN_is_zero = (\<lambda>x. x = 0),
     BN_mpi2bn = (\<lambda>s r. mpi_val (drop 4 s)), BN_bn2mpi = (\<lambda>x. be4 (length (mpi_enc x)) @ mpi_enc x),
     BN_bin2bn = (\<lambda>s. int (be_val s)), BN_bn2bin = (\<lambda>x. rev (nat_bytes (nat \<bar>x\<bar>))),
     BN_value_one = 1, BN_add = (\<lambda>x y. Some (x + y)), BN_sub = (\<lambda>x y. Some (x - y)),
     BN_mul = (\<lambda>x y. Some (x * y)),
     BN_div = (\<lambda>x y. if y = 0 then None else Some (sgn x * sgn y * (\<bar>x\<bar> div \<bar>y\<bar>), sgn x * (\<bar>x\<bar> mod \<bar>y\<bar>))),
     BN_nnmod = (\<lambda>x y. if y = 0 then None else Some (x mod \<bar>y\<bar>)),
     BN_lshift = (\<lambda>x n. Some (x * 2 ^ n)), BN_rshift = (\<lambda>x n. Some (sgn x * (\<bar>x\<bar> div 2 ^ n))),
     BN_cmp = (\<lambda>x y. sgn (x - y)) \<rparr>"

interpretation int_bn: openssl_bn int_bn "\<lambda>x. x"
  by unfold_locales (simp_all add: int_bn_def be4_def)

section \<open>Properties\<close>

text \<open>Under the documented behaviour of the library, the constructors from signed integers
  give exactly the number, the most negative one included, and \<open>getint32\<close> is the number clamped to
  the range of \<open>int32_t\<close>.\<close>

theorem CBigNum_machine_ints:
  assumes "openssl_bn L num"
  shows "num (CBigNum_setint64 L sn) = sint sn \<and> num (CBigNum_of_int64 L sn) = sint sn
    \<and> num (CBigNum_of_int32 L n) = sint n
    \<and> CBigNum_getint32 L x = max (- (2 ^ 31)) (min (2 ^ 31 - 1) (num x))
    \<and> unat (CBigNum_getuint64 L x) = nat \<bar>num x\<bar> mod 2 ^ 64"
  using openssl_bn.num_setint64 [OF assms] openssl_bn.num_of_int64 [OF assms]
    openssl_bn.num_of_int32 [OF assms] openssl_bn.getint32_clamp [OF assms]
    openssl_bn.getuint64 [OF assms] by metis

theorem CBigNum_machine_ints_witness:
  "CBigNum_setint64 int_bn 0x8000000000000000 = - (2 ^ 63) \<and> CBigNum_getint32 int_bn (2 ^ 40) = 2 ^ 31 - 1"
  using CBigNum_machine_ints [OF int_bn.openssl_bn_axioms, of "0x8000000000000000" 0 "2 ^ 40"] by simp

text \<open>C6: the byte vector of a number, which scripts and the wire carry, is read back by
  \<open>setvch\<close> as the same number and written again as the same bytes, and no byte vector that is
  read as the same number is shorter.\<close>

theorem CBigNum_vch_roundtrip:
  assumes "openssl_bn L num" "length (CBigNum_getvch L x) < 2 ^ 31 - 4"
  shows "num (CBigNum_setvch L (CBigNum_getvch L x)) = num x
    \<and> CBigNum_getvch L (CBigNum_setvch L (CBigNum_getvch L x)) = CBigNum_getvch L x
    \<and> (\<forall>vch. length vch < 2 ^ 31 - 4 \<and> num (CBigNum_setvch L vch) = num x \<longrightarrow> length (CBigNum_getvch L x) \<le> length vch)"
proof -
  have read: "num (CBigNum_setvch L (CBigNum_getvch L x)) = num x"
    unfolding openssl_bn.num_setvch [OF assms] by (simp add: openssl_bn.getvch [OF assms(1)])
  moreover have "length (CBigNum_getvch L x) \<le> length vch"
    if "length vch < 2 ^ 31 - 4" "num (CBigNum_setvch L vch) = num x" for vch
    using that(2) mpi_enc_shortest [of "rev vch"]
    unfolding openssl_bn.num_setvch [OF assms(1) that(1)] openssl_bn.getvch [OF assms(1)] by simp
  ultimately show ?thesis by (simp add: openssl_bn.getvch [OF assms(1)])
qed

theorem CBigNum_vch_roundtrip_witness:
  "CBigNum_setvch int_bn (CBigNum_getvch int_bn (- 384)) = - 384
   \<and> CBigNum_setvch int_bn [0x80, 0x01, 0x80] = - 384
   \<and> length (CBigNum_getvch int_bn (- 384)) \<le> length [0x80, 0x01, 0x80 :: byte]"
proof -
  have "length (CBigNum_getvch int_bn (- 384)) < 2 ^ 31 - 4"
    by (simp add: int_bn.getvch mpi_enc_def mpi_sign_def nat_bytes.simps)
  note w = CBigNum_vch_roundtrip [OF int_bn.openssl_bn_axioms this]
  have long: "CBigNum_setvch int_bn [0x80, 0x01, 0x80] = - 384"
    using int_bn.num_setvch [of "[0x80, 0x01, 0x80]"] by (simp add: be_val_def)
  then have "length (CBigNum_getvch int_bn (- 384)) \<le> length [0x80, 0x01, 0x80 :: byte]"
    using w by (elim conjE allE [of _ "[0x80, 0x01, 0x80]"]) simp
  then show ?thesis using w long by blast
qed

text \<open>C7: converting a \<open>uint256\<close> or a \<open>uint160\<close> to a \<open>CBigNum\<close> keeps its value, and converting
  back returns the same limbs; a number that does not fit is reduced modulo two to the width.\<close>

theorem CBigNum_uint256_roundtrip:
  assumes "openssl_bn L num" "length a = 8" "length b = 5"
  shows "num (CBigNum_setuint256 L a) = int (wval a)
    \<and> CBigNum_getuint256 L (CBigNum_setuint256 L a) = a
    \<and> wval (CBigNum_getuint256 L x) = nat \<bar>num x\<bar> mod 2 ^ 256
    \<and> num (CBigNum_setuint160 L b) = int (wval b)
    \<and> CBigNum_getuint160 L (CBigNum_setuint160 L b) = b
    \<and> wval (CBigNum_getuint160 L x) = nat \<bar>num x\<bar> mod 2 ^ 160"
proof -
  note n = openssl_bn.num_setuint256 [OF assms(1,2)] openssl_bn.num_setuint160 [OF assms(1,3)]
  note g = openssl_bn.getuint256 [OF assms(1)] openssl_bn.getuint160 [OF assms(1)]
  have "wval a < 2 ^ 256" "wval b < 2 ^ 160" using wval_bound [of a] wval_bound [of b] assms(2,3) by simp_all
  then have "wval (CBigNum_getuint256 L (CBigNum_setuint256 L a)) = wval a"
    "wval (CBigNum_getuint160 L (CBigNum_setuint160 L b)) = wval b"
    using g n by simp_all
  then have "CBigNum_getuint256 L (CBigNum_setuint256 L a) = a" "CBigNum_getuint160 L (CBigNum_setuint160 L b) = b"
    using wval_inject assms(2,3) g by metis+
  then show ?thesis using n g by blast
qed

theorem CBigNum_uint256_roundtrip_witness:
  "CBigNum_getuint256 int_bn (CBigNum_setuint256 int_bn (replicate 8 0xdeadbeef)) = replicate 8 0xdeadbeef
   \<and> CBigNum_getuint160 int_bn (CBigNum_setuint160 int_bn (replicate 5 0xdeadbeef)) = replicate 5 0xdeadbeef"
  using CBigNum_uint256_roundtrip [OF int_bn.openssl_bn_axioms length_replicate length_replicate] by blast

text \<open>C8: the two implementations of the compact form of a difficulty target agree: \<open>CBigNum\<close>
  encodes the value of every \<open>uint256\<close> to the same 32 bits as \<open>uint256::GetCompact\<close>, and decodes
  every compact number that does not overflow to the value, with its sign, that
  \<open>uint256::SetCompact\<close> gives.\<close>

theorem compact_forms_agree:
  assumes "openssl_bn L num" "length a = 8" "\<not> snd (snd (uint256_SetCompact c))"
  shows "uint256_GetCompact a False = Some (CBigNum_GetCompact L (CBigNum_setuint256 L a))
    \<and> num (CBigNum_SetCompact L c)
      = (if fst (snd (uint256_SetCompact c)) then - 1 else 1) * int (wval (fst (uint256_SetCompact c)))"
  using openssl_bn.GetCompact_uint256 [OF assms(1,2)] openssl_bn.SetCompact_uint256 [OF assms(1,3)]
  by blast

theorem compact_forms_agree_witness:
  "uint256_GetCompact (replicate 8 5) False = Some (CBigNum_GetCompact int_bn (CBigNum_setuint256 int_bn (replicate 8 5)))
   \<and> \<not> snd (snd (uint256_SetCompact 0x1d00ffff))"
proof -
  have "\<not> snd (snd (uint256_SetCompact 0x1d00ffff))"
    using SetCompact_canonical(3) [of "0xffff" "0x1d"] by simp
  then show ?thesis
    using compact_forms_agree [OF int_bn.openssl_bn_axioms, of "replicate 8 5" "0x1d00ffff"] by simp
qed

text \<open>C9: \<open>ToString\<close> returns for every base from 2 to 16 the canonical text of the magnitude of the
  number: digits of the base only, without leading zeros, that read back as the magnitude. No sign
  is ever printed, so that a number and its negation have the same text, because the sign is tested on
  the copy whose sign was cleared.\<close>

theorem CBigNum_ToString_magnitude:
  assumes "openssl_bn L num" "2 \<le> sint base" "sint base \<le> 16"
  shows "\<exists>str. CBigNum_ToString L x base = Some (Some str)
    \<and> list_all (\<lambda>c. c \<in> set (take (nat (sint base)) ''0123456789abcdef'')) str
    \<and> (str = ''0'' \<or> str \<noteq> [] \<and> hd str \<noteq> CHR ''0'')
    \<and> foldl (\<lambda>v c. v * nat (sint base) + phexdigit c) 0 str = nat \<bar>num x\<bar>
    \<and> CBigNum_ToString L (CBigNum_neg L x) base = Some (Some str)"
proof -
  let ?B = "nat (sint base)" and ?n = "nat \<bar>num x\<bar>"
  let ?str = "if ?n = 0 then ''0'' else rev (map hexdigit (ndigits ?B ?n))"
  have B: "2 \<le> ?B" "?B \<le> 16" using assms by (simp_all add: le_nat_iff nat_le_iff)
  have "\<bar>num (CBigNum_neg L x)\<bar> = \<bar>num x\<bar>"
    by (simp add: CBigNum_neg_def openssl_bn.num_set_negative [OF assms(1)])
  moreover from this have "num (CBigNum_neg L x) = 0 \<longleftrightarrow> num x = 0" by linarith
  ultimately have "CBigNum_ToString L x base = Some (Some ?str)" "CBigNum_ToString L (CBigNum_neg L x) base = Some (Some ?str)"
    unfolding openssl_bn.ToString_magnitude [OF assms] by simp_all
  moreover have "foldl (\<lambda>v c. v * ?B + phexdigit c) 0 ?str = ?n"
    using ndigits_value [OF B, of ?n] by (simp add: phexdigit_def)
  ultimately show ?thesis using digits_text [OF B, of ?n] by blast
qed

theorem CBigNum_ToString_magnitude_witness:
  "\<exists>str. CBigNum_ToString int_bn 42 10 = Some (Some str) \<and> CBigNum_ToString int_bn (- 42) 10 = Some (Some str)
    \<and> CHR ''-'' \<notin> set str"
proof -
  obtain str where str: "CBigNum_ToString int_bn 42 10 = Some (Some str)" "CBigNum_ToString int_bn (- 42) 10 = Some (Some str)"
      "list_all (\<lambda>c. c \<in> set (take (nat (sint (10 :: 32 word))) ''0123456789abcdef'')) str"
    using CBigNum_ToString_magnitude [OF int_bn.openssl_bn_axioms, of 10 42] by (auto simp: CBigNum_neg_def int_bn_def)
  have "CHR ''-'' \<notin> set (take (nat (sint (10 :: 32 word))) ''0123456789abcdef'')" by simp
  then show ?thesis using str unfolding list_all_iff by blast
qed

text \<open>\<open>>>=\<close> divides a non-negative number by a power of two and turns every negative
  number into zero.\<close>

theorem CBigNum_shr_spec:
  assumes "openssl_bn L num"
  shows "\<exists>z. CBigNum_shr L x n = Some z \<and> num z = (if num x < 0 then 0 else num x div 2 ^ n)"
  using assms by (rule openssl_bn.shr_spec)

theorem CBigNum_shr_spec_witness: "CBigNum_shr int_bn 1000 3 = Some 125 \<and> CBigNum_shr int_bn (- 256) 4 = Some 0"
  using CBigNum_shr_spec [OF int_bn.openssl_bn_axioms, of 1000 3]
    CBigNum_shr_spec [OF int_bn.openssl_bn_axioms, of "- 256" 4] by simp

end
