(* ===== verification/Serialize.thy ===== *)
theory Serialize
  imports Uint256
begin

text \<open>
  The serialization templates of \<open>src/src/serialize.h\<close> and the in-memory stream \<open>CDataStream\<close>
  of \<open>src/src/streams.h\<close> and \<open>src/src/streams.cpp\<close>.

  A template over \<open>Stream\<close> that writes is a function to the bytes it writes; one that reads takes
  the stream's \<open>read\<close> member as its argument \<open>rd\<close>, the way the template is instantiated, and
  returns the value with the stream after it. \<open>None\<close> is the exception
  \<open>std::ios_base::failure\<close>, for running out of data or for a size above \<open>MAX_SIZE\<close>. The locale
  \<open>input_stream\<close> says what the templates rely on, and \<open>CDataStream\<close> is shown to provide it.
\<close>

unbundle bit_operations_syntax

section \<open>The stream\<close>

record CDataStream =
  ds_vch :: bytes
  ds_nReadPos :: nat

definition CDataStream_Init :: "bytes \<Rightarrow> CDataStream" where
  "CDataStream_Init b = \<lparr> ds_vch = b, ds_nReadPos = 0 \<rparr>"

definition CDataStream_content :: "CDataStream \<Rightarrow> bytes" where
  "CDataStream_content s = drop (ds_nReadPos s) (ds_vch s)"

definition CDataStream_size :: "CDataStream \<Rightarrow> nat" where
  "CDataStream_size s = length (ds_vch s) - ds_nReadPos s"

definition CDataStream_append :: "CDataStream \<Rightarrow> CDataStream \<Rightarrow> CDataStream" where
  "CDataStream_append s b = s\<lparr> ds_vch := ds_vch s @ CDataStream_content b \<rparr>"

definition CDataStream_Rewind :: "CDataStream \<Rightarrow> nat \<Rightarrow> bool \<times> CDataStream" where
  "CDataStream_Rewind s n =
     (if n > ds_nReadPos s then (False, s) else (True, s\<lparr> ds_nReadPos := ds_nReadPos s - n \<rparr>))"

text \<open>\<open>nReadPosNext\<close> is a 32-bit unsigned sum. The first argument order follows the uses:
  the stream, then the number of bytes. A size that is no non-negative \<open>int\<close> fails the
  assertion.\<close>

definition CDataStream_read :: "CDataStream \<Rightarrow> nat \<Rightarrow> (bytes \<times> CDataStream) option" where
  "CDataStream_read s nSize =
     (if nSize \<ge> 2 ^ 31 then None
      else let nReadPosNext = (ds_nReadPos s + nSize) mod 2 ^ 32
           in if nReadPosNext \<ge> length (ds_vch s)
              then if nReadPosNext > length (ds_vch s) then None
                   else Some (take nSize (drop (ds_nReadPos s) (ds_vch s)), \<lparr> ds_vch = [], ds_nReadPos = 0 \<rparr>)
              else Some (take nSize (drop (ds_nReadPos s) (ds_vch s)), s\<lparr> ds_nReadPos := nReadPosNext \<rparr>))"

definition CDataStream_ignore :: "CDataStream \<Rightarrow> nat \<Rightarrow> CDataStream option" where
  "CDataStream_ignore s nSize =
     (if nSize \<ge> 2 ^ 31 then None
      else let nReadPosNext = (ds_nReadPos s + nSize) mod 2 ^ 32
           in if nReadPosNext \<ge> length (ds_vch s)
              then if nReadPosNext > length (ds_vch s) then None else Some \<lparr> ds_vch = [], ds_nReadPos = 0 \<rparr>
              else Some (s\<lparr> ds_nReadPos := nReadPosNext \<rparr>))"

definition CDataStream_write :: "CDataStream \<Rightarrow> bytes \<Rightarrow> CDataStream" where
  "CDataStream_write s b = s\<lparr> ds_vch := ds_vch s @ b \<rparr>"

definition CDataStream_erase_front :: "CDataStream \<Rightarrow> CDataStream" where
  "CDataStream_erase_front s =
     (if ds_nReadPos s + 1 \<ge> length (ds_vch s) then \<lparr> ds_vch = [], ds_nReadPos = 0 \<rparr>
      else s\<lparr> ds_nReadPos := ds_nReadPos s + 1 \<rparr>)"

definition CDataStream_Compact :: "CDataStream \<Rightarrow> CDataStream" where
  "CDataStream_Compact s = \<lparr> ds_vch = drop (ds_nReadPos s) (ds_vch s), ds_nReadPos = 0 \<rparr>"

section \<open>Basic types and sizes\<close>

type_synonym 's rd = "'s \<Rightarrow> nat \<Rightarrow> (bytes \<times> 's) option"

text \<open>\<open>WRITEDATA\<close> and \<open>READDATA\<close> copy the little-endian memory image of an integer.\<close>

definition ser_uint :: "nat \<Rightarrow> 'a::len word \<Rightarrow> bytes" where
  "ser_uint n a = le_bytes n (unat a)"

definition unser_uint :: "nat \<Rightarrow> 's rd \<Rightarrow> 's \<Rightarrow> ('a::len word \<times> 's) option" where
  "unser_uint n rd s = (case rd s n of None \<Rightarrow> None | Some (b, s) \<Rightarrow> Some (of_nat (le_val b), s))"

definition ser_bool :: "bool \<Rightarrow> bytes" where
  "ser_bool a = [if a then 1 else 0]"

definition unser_bool :: "'s rd \<Rightarrow> 's \<Rightarrow> (bool \<times> 's) option" where
  "unser_bool rd s = (case rd s 1 of None \<Rightarrow> None | Some (b, s) \<Rightarrow> Some (b ! 0 \<noteq> 0, s))"

abbreviation (input) MAX_SIZE :: nat where
  "MAX_SIZE \<equiv> 0x02000000"

definition GetSizeOfCompactSize :: "u64 \<Rightarrow> nat" where
  "GetSizeOfCompactSize nSize =
     (if nSize < 253 then 1 else if nSize \<le> 0xffff then 1 + 2
      else if nSize \<le> 0xffffffff then 1 + 4 else 1 + 8)"

definition WriteCompactSize :: "u64 \<Rightarrow> bytes" where
  "WriteCompactSize nSize =
     (if nSize < 253 then ser_uint 1 (ucast nSize :: byte)
      else if nSize \<le> 0xffff then ser_uint 1 (253 :: byte) @ ser_uint 2 (ucast nSize :: u16)
      else if nSize \<le> 0xffffffff then ser_uint 1 (254 :: byte) @ ser_uint 4 (ucast nSize :: u32)
      else ser_uint 1 (255 :: byte) @ ser_uint 8 nSize)"

definition ReadCompactSize :: "'s rd \<Rightarrow> 's \<Rightarrow> (u64 \<times> 's) option" where
  "ReadCompactSize rd s =
     (case unser_uint 1 rd s of None \<Rightarrow> None
      | Some (chSize :: byte, s) \<Rightarrow>
          (case (if chSize < 253 then Some (ucast chSize, s)
                 else if chSize = 253
                 then map_option (\<lambda>(x :: u16, s). (ucast x, s)) (unser_uint 2 rd s)
                 else if chSize = 254
                 then map_option (\<lambda>(x :: u32, s). (ucast x, s)) (unser_uint 4 rd s)
                 else unser_uint 8 rd s) of
             None \<Rightarrow> None
           | Some (nSizeRet, s) \<Rightarrow> if unat nSizeRet > MAX_SIZE then None else Some (nSizeRet, s)))"

section \<open>Variable-length integers\<close>

lemma le_7f: "n \<le> 0x7f \<longleftrightarrow> unat n < 128" for n :: "'a::len word"
proof -
  have "unat (of_nat 127 :: 'a word) = take_bit LENGTH('a) 127"
    by (simp only: unat_of_nat take_bit_eq_mod)
  then have "unat (0x7f :: 'a word) = take_bit LENGTH('a) 127" by simp
  also have "(127 :: nat) = mask 7" by (simp add: mask_eq_exp_minus_1)
  also have "take_bit LENGTH('a) (mask 7) = (mask (min LENGTH('a) 7) :: nat)" by simp
  finally have m: "unat (0x7f :: 'a word) = 2 ^ min LENGTH('a) 7 - 1" by (simp add: mask_eq_exp_minus_1)
  show ?thesis
  proof (cases "LENGTH('a) < 7")
    case True
    then have "(2::nat) ^ LENGTH('a) \<le> 128"
      using power_increasing [of "LENGTH('a)" 7 "2::nat"] by simp
    then have "unat n \<le> 2 ^ LENGTH('a) - 1" "unat n < 128" using unat_less_power [of n] by linarith+
    then show ?thesis using True m by (simp add: word_le_nat_alt)
  next
    case False
    then show ?thesis using m by (simp add: word_le_nat_alt min_def) arith
  qed
qed

lemma varint_step: "\<not> n \<le> 0x7f \<Longrightarrow> unat (drop_bit 7 n - 1) = unat n div 128 - 1" for n :: "'a::len word"
proof -
  assume "\<not> n \<le> 0x7f"
  then have "128 \<le> unat n" by (simp add: le_7f)
  have d: "unat (drop_bit 7 n) = unat n div 128"
    using trans [OF unat_drop_bit_eq drop_bit_eq_div, of 7 n] by simp
  then have "drop_bit 7 n \<noteq> 0" using \<open>128 \<le> unat n\<close> by (intro notI) simp
  then have "unat (drop_bit 7 n - 1) = unat (drop_bit 7 n) - 1" by (rule unat_minus_one)
  then show ?thesis using d by simp
qed

lemma varint_step_less: "\<not> n \<le> 0x7f \<Longrightarrow> unat (drop_bit 7 n - 1) < unat n" for n :: "'a::len word"
  using varint_step [of n] le_7f [of n] by auto

text \<open>The loop of \<open>WriteVarInt\<close> fills \<open>tmp\<close> from the last digit on; \<open>first\<close> is
  \<open>len = 0\<close>. The digits are then written in reverse.\<close>

function varint_tmp :: "bool \<Rightarrow> 'a::len word \<Rightarrow> bytes" where
  "varint_tmp first n =
     (let d = ucast (n AND 0x7f) OR (if first then 0 else 0x80)
      in if n \<le> 0x7f then [d] else d # varint_tmp False (drop_bit 7 n - 1))"
  by pat_completeness auto
termination
  by (relation "measure (\<lambda>(first, n). unat n)") (auto simp: varint_step_less)

function GetSizeOfVarInt :: "'a::len word \<Rightarrow> nat" where
  "GetSizeOfVarInt n = (if n \<le> 0x7f then 1 else Suc (GetSizeOfVarInt (drop_bit 7 n - 1)))"
  by pat_completeness auto
termination
  by (relation "measure unat") (auto simp: varint_step_less)

definition WriteVarInt :: "'a::len word \<Rightarrow> bytes" where
  "WriteVarInt n = rev (varint_tmp True n)"

partial_function (option) readvarint_loop :: "'s rd \<Rightarrow> 'a::len word \<Rightarrow> 's \<Rightarrow> ('a word \<times> 's) option" where
  "readvarint_loop rd n s =
     (case unser_uint 1 rd s of None \<Rightarrow> None
      | Some (chData :: byte, s) \<Rightarrow>
          let n = push_bit 7 n OR ucast (chData AND 0x7f)
          in if chData AND 0x80 \<noteq> 0 then readvarint_loop rd (n + 1) s else Some (n, s))"

definition ReadVarInt :: "'s rd \<Rightarrow> 's \<Rightarrow> ('a::len word \<times> 's) option" where
  "ReadVarInt rd s = readvarint_loop rd 0 s"

section \<open>Strings and vectors\<close>

definition ser_vector :: "('a \<Rightarrow> bytes) \<Rightarrow> 'a list \<Rightarrow> bytes" where
  "ser_vector ser v = WriteCompactSize (of_nat (length v)) @ concat (map ser v)"

primrec unser_items :: "('s rd \<Rightarrow> 's \<Rightarrow> ('a \<times> 's) option) \<Rightarrow> nat \<Rightarrow> 's rd \<Rightarrow> 's \<Rightarrow> ('a list \<times> 's) option" where
  "unser_items unser 0 rd s = Some ([], s)"
| "unser_items unser (Suc n) rd s =
     (case unser rd s of None \<Rightarrow> None
      | Some (x, s) \<Rightarrow>
          (case unser_items unser n rd s of None \<Rightarrow> None | Some (xs, s) \<Rightarrow> Some (x # xs, s)))"

definition unser_vector :: "('s rd \<Rightarrow> 's \<Rightarrow> ('a \<times> 's) option) \<Rightarrow> 's rd \<Rightarrow> 's \<Rightarrow> ('a list \<times> 's) option" where
  "unser_vector unser rd s =
     (case ReadCompactSize rd s of None \<Rightarrow> None
      | Some (nSize, s) \<Rightarrow> unser_items unser (unat (ucast nSize :: u32)) rd s)"

text \<open>A vector of bytes is read in blocks of at most \<open>1 + 4999999 / sizeof(T)\<close> elements.\<close>

definition ser_bytes :: "bytes \<Rightarrow> bytes" where
  "ser_bytes v = WriteCompactSize (of_nat (length v)) @ v"

function unser_blocks :: "nat \<Rightarrow> 's rd \<Rightarrow> nat \<Rightarrow> bytes \<Rightarrow> 's \<Rightarrow> (bytes \<times> 's) option" where
  "unser_blocks nSize rd i v s =
     (if i < nSize
      then let blk = min (nSize - i) (1 + 4999999)
           in case rd s blk of None \<Rightarrow> None
              | Some (b, s) \<Rightarrow> unser_blocks nSize rd (i + blk) (v @ b) s
      else Some (v, s))"
  by pat_completeness auto
termination
  by (relation "measure (\<lambda>(nSize, rd, i, v, s). nSize - i)") auto

definition unser_bytes :: "'s rd \<Rightarrow> 's \<Rightarrow> (bytes \<times> 's) option" where
  "unser_bytes rd s =
     (case ReadCompactSize rd s of None \<Rightarrow> None
      | Some (nSize, s) \<Rightarrow> unser_blocks (unat (ucast nSize :: u32)) rd 0 [] s)"

definition unser_string :: "'s rd \<Rightarrow> 's \<Rightarrow> (bytes \<times> 's) option" where
  "unser_string rd s =
     (case ReadCompactSize rd s of None \<Rightarrow> None
      | Some (nSize, s) \<Rightarrow>
          if unat (ucast nSize :: u32) \<noteq> 0 then rd s (unat (ucast nSize :: u32)) else Some ([], s))"

section \<open>Pairs and 256-bit numbers\<close>

definition ser_pair :: "('a \<Rightarrow> bytes) \<Rightarrow> ('b \<Rightarrow> bytes) \<Rightarrow> 'a \<times> 'b \<Rightarrow> bytes" where
  "ser_pair sa sb item = sa (fst item) @ sb (snd item)"

definition unser_pair :: "('s rd \<Rightarrow> 's \<Rightarrow> ('a \<times> 's) option) \<Rightarrow> ('s rd \<Rightarrow> 's \<Rightarrow> ('b \<times> 's) option)
    \<Rightarrow> 's rd \<Rightarrow> 's \<Rightarrow> (('a \<times> 'b) \<times> 's) option" where
  "unser_pair ua ub rd s =
     (case ua rd s of None \<Rightarrow> None
      | Some (a, s) \<Rightarrow> (case ub rd s of None \<Rightarrow> None | Some (b, s) \<Rightarrow> Some ((a, b), s)))"

definition unser_base_uint :: "nat \<Rightarrow> 's rd \<Rightarrow> 's \<Rightarrow> (base_uint \<times> 's) option" where
  "unser_base_uint WIDTH rd s =
     (case rd s (4 * WIDTH) of None \<Rightarrow> None | Some (b, s) \<Rightarrow> Some (limbs_of_bytes b, s))"

section \<open>The stream as an interface\<close>

lemma unat_ucast_back: "unat n < 2 ^ LENGTH('c) \<Longrightarrow> unat (ucast n :: 'c::len word) = unat n"
  for n :: "'b::len word"
proof -
  assume "unat n < 2 ^ LENGTH('c)"
  moreover have "unat (ucast n :: 'c word) = take_bit LENGTH('c) (unat n)" by (rule unsigned_ucast_eq)
  ultimately show ?thesis by (simp only: take_bit_nat_eq_self)
qed

lemma ucast_back: "unat n < 2 ^ LENGTH('c) \<Longrightarrow> ucast (ucast n :: 'c::len word) = n"
  for n :: "'b::len word"
  using unat_ucast_back [of n, where 'c = 'c] unat_ucast_back [of "ucast n :: 'c word", where 'c = 'b]
    unat_less_power [of n]
  by (simp only: word_unat_eq_iff)

definition reads :: "('s \<Rightarrow> bytes) \<Rightarrow> ('s \<Rightarrow> bool) \<Rightarrow> ('s \<Rightarrow> ('a \<times> 's) option) \<Rightarrow> bytes \<Rightarrow> 'a \<Rightarrow> bool" where
  "reads content ok f bs x \<longleftrightarrow>
     (\<forall>s rest. ok s \<and> content s = bs @ rest \<longrightarrow> (\<exists>s'. f s = Some (x, s') \<and> ok s' \<and> content s' = rest))"

lemma readsI:
  "(\<And>s rest. ok s \<Longrightarrow> content s = bs @ rest \<Longrightarrow> \<exists>s'. f s = Some (x, s') \<and> ok s' \<and> content s' = rest)
   \<Longrightarrow> reads content ok f bs x"
  by (simp add: reads_def)

lemma readsE:
  assumes "reads content ok f bs x" "ok s" "content s = bs @ rest"
  obtains s' where "f s = Some (x, s')" "ok s'" "content s' = rest"
  using assms by (auto simp: reads_def)

lemma reads_bind:
  assumes "reads content ok f bs x" "reads content ok (g x) cs y"
  shows "reads content ok (\<lambda>s. case f s of None \<Rightarrow> None | Some (x, s) \<Rightarrow> g x s) (bs @ cs) y"
proof (rule readsI)
  fix s rest
  assume "ok s" "content s = (bs @ cs) @ rest"
  then have s: "ok s" "content s = bs @ (cs @ rest)" by simp_all
  obtain s1 where 1: "f s = Some (x, s1)" "ok s1" "content s1 = cs @ rest"
    using readsE [OF assms(1) s] by blast
  obtain s2 where "g x s1 = Some (y, s2)" "ok s2" "content s2 = rest"
    using readsE [OF assms(2) 1(2,3)] by blast
  then show "\<exists>s'. (case f s of None \<Rightarrow> None | Some (x, s) \<Rightarrow> g x s) = Some (y, s') \<and> ok s' \<and> content s' = rest"
    using 1 by simp
qed

lemma reads_return: "reads content ok (\<lambda>s. Some (x, s)) [] x"
  by (simp add: reads_def)

lemma reads_bind_last:
  assumes "reads content ok f bs x"
  shows "reads content ok (\<lambda>s. case f s of None \<Rightarrow> None | Some (x, s) \<Rightarrow> Some (h x, s)) bs (h x)"
  using reads_bind [OF assms, where g = "\<lambda>x s. Some (h x, s)" and cs = "[]" and y = "h x"]
  by (simp add: reads_return)

locale input_stream =
  fixes rd :: "'s rd" and content :: "'s \<Rightarrow> bytes" and ok :: "'s \<Rightarrow> bool"
  assumes read_some: "ok s \<Longrightarrow> n \<le> length (content s) \<Longrightarrow>
      \<exists>s'. rd s n = Some (take n (content s), s') \<and> ok s' \<and> content s' = drop n (content s)"
    and read_none: "ok s \<Longrightarrow> length (content s) < n \<Longrightarrow> rd s n = None"
begin

lemma reads_raw: "reads content ok (\<lambda>s. rd s (length bs)) bs bs"
proof (rule readsI)
  fix s rest
  assume "ok s" "content s = bs @ rest"
  then show "\<exists>s'. rd s (length bs) = Some (bs, s') \<and> ok s' \<and> content s' = rest"
    using read_some [of s "length bs"] by simp
qed

lemma reads_uint:
  assumes "LENGTH('a) \<le> 8 * n"
  shows "reads content ok (unser_uint n rd) (ser_uint n a) (a :: 'a::len word)"
proof -
  have "(2::nat) ^ LENGTH('a) \<le> 2 ^ (8 * n)" using assms by (intro power_increasing) simp_all
  then have "unat a < 2 ^ (8 * n)" using unat_less_power [of a] by linarith
  then have "unat a < 256 ^ n" by (simp add: power_mult)
  then have "of_nat (le_val (le_bytes n (unat a))) = a" by (simp only: le_val_le_bytes) simp
  then show ?thesis
    using reads_bind_last [OF reads_raw [of "le_bytes n (unat a)"], where h = "\<lambda>b. of_nat (le_val b) :: 'a word"]
    by (simp add: unser_uint_def [abs_def] ser_uint_def)
qed

lemma reads_bool: "reads content ok (unser_bool rd) (ser_bool a) a"
  using reads_bind_last [OF reads_raw [of "ser_bool a"], where h = "\<lambda>b. b ! 0 \<noteq> 0"]
  by (cases a) (simp_all add: unser_bool_def [abs_def] ser_bool_def)

lemma reads_guard:
  assumes "reads content ok f bs x" "P x"
  shows "reads content ok (\<lambda>s. case f s of None \<Rightarrow> None | Some (x, s) \<Rightarrow> if P x then Some (x, s) else None) bs x"
  using reads_bind [OF assms(1), where cs = "[]" and g = "\<lambda>x s. if P x then Some (x, s) else None" and y = x]
    assms(2) by (simp add: reads_def)

lemma reads_base_uint:
  "length a = WIDTH \<Longrightarrow> reads content ok (unser_base_uint WIDTH rd) (base_uint_getBytes a) a"
  using reads_bind_last [OF reads_raw [of "base_uint_getBytes a"], where h = limbs_of_bytes]
  by (simp add: unser_base_uint_def [abs_def] length_getBytes limbs_of_getBytes)

lemma reads_pair:
  "reads content ok (ua rd) (sa a) a \<Longrightarrow> reads content ok (ub rd) (sb b) b \<Longrightarrow>
   reads content ok (unser_pair ua ub rd) (ser_pair sa sb (a, b)) (a, b)"
  unfolding unser_pair_def [abs_def] ser_pair_def fst_conv snd_conv
  by (rule reads_bind, assumption) (rule reads_bind_last)

lemma reads_items:
  assumes "\<And>x. x \<in> set xs \<Longrightarrow> reads content ok (unser rd) (ser x) x"
  shows "reads content ok (unser_items unser (length xs) rd) (concat (map ser xs)) xs"
  using assms
proof (induction xs)
  case Nil
  then show ?case by (simp add: reads_def)
next
  case (Cons x xs)
  have "reads content ok (\<lambda>s. case unser_items unser (length xs) rd s of None \<Rightarrow> None
      | Some (ys, s) \<Rightarrow> Some (x # ys, s)) (concat (map ser xs)) (x # xs)"
    by (rule reads_bind_last [where h = "\<lambda>ys. x # ys"]) (use Cons in simp)
  then show ?case
    using reads_bind [OF Cons.prems [of x], where y = "x # xs" and cs = "concat (map ser xs)"
        and g = "\<lambda>x s. case unser_items unser (length xs) rd s of None \<Rightarrow> None
      | Some (ys, s) \<Rightarrow> Some (x # ys, s)"]
    by (simp add: unser_items.simps(2) [abs_def])
qed

lemma reads_compact_any:
  "reads content ok (\<lambda>s. case unser_uint 1 rd s of None \<Rightarrow> None
      | Some (chSize :: byte, s) \<Rightarrow>
          if chSize < 253 then Some (ucast chSize, s)
          else if chSize = 253 then map_option (\<lambda>(x :: u16, s). (ucast x, s)) (unser_uint 2 rd s)
          else if chSize = 254 then map_option (\<lambda>(x :: u32, s). (ucast x, s)) (unser_uint 4 rd s)
          else unser_uint 8 rd s) (WriteCompactSize nSize) nSize"
  (is "reads _ _ (\<lambda>s. case _ of None \<Rightarrow> None | Some (c, s) \<Rightarrow> ?g c s) _ _")
proof -
  have mp: "map_option (\<lambda>(x, s). (h x, s)) r = (case r of None \<Rightarrow> None | Some (x, s) \<Rightarrow> Some (h x, s))"
    for h :: "'c \<Rightarrow> 'd" and r :: "('c \<times> 's) option"
    by (simp split: option.split)
  consider "nSize < 253" | "\<not> nSize < 253" "nSize \<le> 0xffff" | "\<not> nSize \<le> 0xffff" "\<not> nSize < 253" "nSize \<le> 0xffffffff"
    | "\<not> nSize \<le> 0xffffffff" "\<not> nSize \<le> 0xffff" "\<not> nSize < 253" by fastforce
  then show ?thesis
  proof cases
    case 1
    then have "ucast (ucast nSize :: byte) = nSize"
      by (intro ucast_back) (simp add: word_less_nat_alt)
    moreover have "(ucast nSize :: byte) < 253"
      using 1 unat_ucast_back [of nSize, where 'c = 8] by (simp add: word_less_nat_alt)
    ultimately have "reads content ok (?g (ucast nSize)) [] nSize" by (simp add: reads_return)
    then show ?thesis
      using reads_bind [OF reads_uint [of 1 "ucast nSize :: byte"], of ?g "[]" nSize] 1
      by (simp add: WriteCompactSize_def)
  next
    case 2
    then have "ucast (ucast nSize :: u16) = nSize"
      by (intro ucast_back) (simp add: word_le_nat_alt)
    then have "reads content ok (?g 253) (ser_uint 2 (ucast nSize :: u16)) nSize"
      using reads_bind_last [OF reads_uint [of 2 "ucast nSize :: u16"], where h = "ucast :: u16 \<Rightarrow> u64"]
      by (simp add: mp)
    then show ?thesis
      using reads_bind [OF reads_uint [of 1 "253 :: byte"], of ?g "ser_uint 2 (ucast nSize :: u16)" nSize] 2
      by (simp add: WriteCompactSize_def)
  next
    case 3
    then have "ucast (ucast nSize :: u32) = nSize"
      by (intro ucast_back) (simp add: word_le_nat_alt)
    then have "reads content ok (?g 254) (ser_uint 4 (ucast nSize :: u32)) nSize"
      using reads_bind_last [OF reads_uint [of 4 "ucast nSize :: u32"], where h = "ucast :: u32 \<Rightarrow> u64"]
      by (simp add: mp)
    then show ?thesis
      using reads_bind [OF reads_uint [of 1 "254 :: byte"], of ?g "ser_uint 4 (ucast nSize :: u32)" nSize] 3
      by (simp add: WriteCompactSize_def)
  next
    case 4
    have "reads content ok (?g 255) (ser_uint 8 nSize) nSize"
      using reads_uint [of 8 nSize] by simp
    then show ?thesis
      using reads_bind [OF reads_uint [of 1 "255 :: byte"], of ?g "ser_uint 8 nSize" nSize] 4
      by (simp add: WriteCompactSize_def)
  qed
qed

lemma ReadCompactSize_alt:
  "ReadCompactSize rd = (\<lambda>s. case (case unser_uint 1 rd s of None \<Rightarrow> None
      | Some (chSize :: byte, s) \<Rightarrow>
          if chSize < 253 then Some (ucast chSize, s)
          else if chSize = 253 then map_option (\<lambda>(x :: u16, s). (ucast x, s)) (unser_uint 2 rd s)
          else if chSize = 254 then map_option (\<lambda>(x :: u32, s). (ucast x, s)) (unser_uint 4 rd s)
          else unser_uint 8 rd s) of None \<Rightarrow> None
      | Some (n, s) \<Rightarrow> if unat n \<le> MAX_SIZE then Some (n, s) else None)"
  by (rule ext) (auto simp: ReadCompactSize_def not_le split: option.split)

lemma reads_compact:
  "unat nSize \<le> MAX_SIZE \<Longrightarrow> reads content ok (ReadCompactSize rd) (WriteCompactSize nSize) nSize"
  unfolding ReadCompactSize_alt by (rule reads_guard [OF reads_compact_any])

lemma compact_too_large:
  assumes "ok s" "content s = WriteCompactSize nSize @ rest" "MAX_SIZE < unat nSize"
  shows "ReadCompactSize rd s = None"
proof -
  obtain s' where "(case unser_uint 1 rd s of None \<Rightarrow> None
      | Some (chSize :: byte, s) \<Rightarrow>
          if chSize < 253 then Some (ucast chSize, s)
          else if chSize = 253 then map_option (\<lambda>(x :: u16, s). (ucast x, s)) (unser_uint 2 rd s)
          else if chSize = 254 then map_option (\<lambda>(x :: u32, s). (ucast x, s)) (unser_uint 4 rd s)
          else unser_uint 8 rd s) = Some (nSize, s')"
    using readsE [OF reads_compact_any assms(1,2)] by blast
  then show ?thesis using assms(3) by (simp add: ReadCompactSize_alt)
qed

lemma reads_vector:
  assumes "\<And>x. x \<in> set xs \<Longrightarrow> reads content ok (unser rd) (ser x) x" "length xs \<le> MAX_SIZE"
  shows "reads content ok (unser_vector unser rd) (ser_vector ser xs) xs"
proof -
  have u: "unat (of_nat (length xs) :: u64) = length xs" using assms(2) by (simp add: unat_of_nat)
  then have "unat (ucast (of_nat (length xs) :: u64) :: u32) = length xs"
    using assms(2) by (subst unat_ucast_back) simp_all
  then show ?thesis
    unfolding unser_vector_def [abs_def] ser_vector_def
    using reads_bind [OF reads_compact [of "of_nat (length xs)"], where y = xs
        and g = "\<lambda>n. unser_items unser (unat (ucast n :: u32)) rd" and cs = "concat (map ser xs)"]
      reads_items [of xs unser ser] assms u by simp
qed

declare unser_blocks.simps [simp del]

lemma unser_blocks_reads:
  assumes "ok s" "content s = bs @ rest" "length bs = nSize - i" "i \<le> nSize"
  shows "\<exists>s'. unser_blocks nSize rd i v s = Some (v @ bs, s') \<and> ok s' \<and> content s' = rest"
  using assms
proof (induction "nSize - i" arbitrary: i v s bs rule: less_induct)
  case less
  show ?case
  proof (cases "i < nSize")
    case False
    then show ?thesis using less.prems by (subst unser_blocks.simps) simp
  next
    case True
    define blk where "blk = min (nSize - i) (1 + 4999999)"
    have blk: "0 < blk" "blk \<le> length bs" using True less.prems(3) by (simp_all add: blk_def)
    obtain s1 where s1: "rd s blk = Some (take blk bs, s1)" "ok s1" "content s1 = drop blk bs @ rest"
      using read_some [OF less.prems(1), of blk] less.prems(2) blk(2) by auto
    have "\<exists>s'. unser_blocks nSize rd (i + blk) (v @ take blk bs) s1 = Some ((v @ take blk bs) @ drop blk bs, s')
        \<and> ok s' \<and> content s' = rest"
      by (rule less.hyps) (use s1 less.prems blk True in auto)
    moreover have "unser_blocks nSize rd i v s = unser_blocks nSize rd (i + blk) (v @ take blk bs) s1"
      using True s1(1) unfolding blk_def by (subst unser_blocks.simps) (simp add: Let_def)
    ultimately show ?thesis by simp
  qed
qed

lemma reads_bytes:
  assumes "length v \<le> MAX_SIZE"
  shows "reads content ok (unser_bytes rd) (ser_bytes v) v"
proof -
  have u: "unat (of_nat (length v) :: u64) = length v" using assms by (simp add: unat_of_nat)
  then have c: "unat (ucast (of_nat (length v) :: u64) :: u32) = length v"
    using assms by (subst unat_ucast_back) simp_all
  have "reads content ok (unser_blocks (length v) rd 0 []) v v"
    by (rule readsI) (use unser_blocks_reads [of _ v _ "length v" 0 "[]"] in simp)
  then show ?thesis
    unfolding unser_bytes_def [abs_def] ser_bytes_def
    using reads_bind [OF reads_compact [of "of_nat (length v)"], where y = v
        and g = "\<lambda>n. unser_blocks (unat (ucast n :: u32)) rd 0 []" and cs = v] assms u c by simp
qed

lemma reads_string:
  assumes "length v \<le> MAX_SIZE"
  shows "reads content ok (unser_string rd) (ser_bytes v) v"
proof -
  have u: "unat (of_nat (length v) :: u64) = length v" using assms by (simp add: unat_of_nat)
  then have c: "unat (ucast (of_nat (length v) :: u64) :: u32) = length v"
    using assms by (subst unat_ucast_back) simp_all
  have "reads content ok (\<lambda>s. if unat (ucast (of_nat (length v) :: u64) :: u32) \<noteq> 0
      then rd s (unat (ucast (of_nat (length v) :: u64) :: u32)) else Some ([], s)) v v"
    unfolding c using reads_raw [of v] by (cases v) (simp_all add: reads_return)
  then show ?thesis
    unfolding unser_string_def [abs_def] ser_bytes_def
    using reads_bind [OF reads_compact [of "of_nat (length v)"], where y = v
        and g = "\<lambda>n s. if unat (ucast n :: u32) \<noteq> 0 then rd s (unat (ucast n :: u32)) else Some ([], s)"
        and cs = v] assms u by simp
qed

end

subsection \<open>Variable-length integers\<close>

declare varint_tmp.simps [simp del] GetSizeOfVarInt.simps [simp del]

lemma length_varint_tmp: "length (varint_tmp b n) = GetSizeOfVarInt n"
  by (induction b n rule: varint_tmp.induct) (subst varint_tmp.simps, subst GetSizeOfVarInt.simps, simp add: Let_def)

lemma varint_capacity: "unat n < 2 ^ (7 * k) \<Longrightarrow> 0 < k \<Longrightarrow> GetSizeOfVarInt n \<le> k"
proof (induction n arbitrary: k rule: GetSizeOfVarInt.induct)
  case (1 n)
  show ?case
  proof (cases "n \<le> 0x7f")
    case True
    then show ?thesis using 1(3) by (subst GetSizeOfVarInt.simps) simp
  next
    case False
    then have n: "128 \<le> unat n" by (simp add: le_7f)
    have "k \<noteq> 1" using n 1(2) by (intro notI) simp
    then obtain j where j: "k = Suc j" "0 < j" using 1(3) by (cases k) auto
    have "unat n div 128 < 2 ^ (7 * j)"
      using 1(2) j by (intro less_mult_imp_div_less) (simp add: power_add mult.commute)
    then have "unat (drop_bit 7 n - 1) < 2 ^ (7 * j)" using varint_step [OF False] by linarith
    then have "GetSizeOfVarInt (drop_bit 7 n - 1) \<le> j" using 1(1) [OF False _ j(2)] by simp
    then show ?thesis using False j by (subst GetSizeOfVarInt.simps) simp
  qed
qed

lemma numeral_7f: "(0x7f :: 'a::len word) = mask 7"
  by (simp add: mask_eq_exp_minus_1)

lemma bit_80: "bit (0x80 :: byte) k \<longleftrightarrow> k = 7"
proof -
  have "(0x80 :: byte) = push_bit 7 1" by simp
  then show ?thesis by (simp only: bit_push_bit_iff) (auto simp: bit_1_iff)
qed

lemma varint_digit:
  fixes n :: "'a::len word" and first :: bool
  assumes "7 \<le> LENGTH('a)"
  defines "d \<equiv> ucast (n AND 0x7f) OR (if first then 0 else 0x80) :: byte"
  shows "d AND 0x80 \<noteq> 0 \<longleftrightarrow> \<not> first" and "ucast (d AND 0x7f) = n AND 0x7f"
proof -
  define h :: byte where "h = 0x80"
  have h: "bit h k \<longleftrightarrow> k = 7" for k unfolding h_def by (rule bit_80)
  have d: "bit d k \<longleftrightarrow> k < 7 \<and> bit n k \<or> \<not> first \<and> k = 7" for k
    using assms(1) unfolding d_def h_def [symmetric]
    by (auto simp: numeral_7f bit_or_iff bit_unsigned_iff bit_and_iff bit_mask_iff h)
  have "(0x80 :: byte) = 2 ^ 7" by simp
  then have "d AND 0x80 \<noteq> 0 \<longleftrightarrow> bit d 7" by (simp only: and_exp_eq_0_iff_not_bit) simp
  then show "d AND 0x80 \<noteq> 0 \<longleftrightarrow> \<not> first" by (simp add: d)
  show "ucast (d AND 0x7f) = n AND 0x7f"
    by (rule bit_eqI) (use assms(1) in \<open>auto simp: numeral_7f bit_simps d\<close>)
qed

lemma varint_join: "push_bit 7 (drop_bit 7 n) OR (n AND 0x7f) = n" for n :: "'a::len word"
  by (rule bit_eqI) (auto simp: numeral_7f bit_simps)

lemma varint_short: "n \<le> 0x7f \<Longrightarrow> drop_bit 7 n = 0" for n :: "'a::len word"
  using trans [OF unat_drop_bit_eq drop_bit_eq_div, of 7 n] by (simp add: le_7f word_unat_eq_iff)

context input_stream
begin

lemma readvarint_loop_digit:
  assumes "ok s" "content s = b # rest"
  shows "\<exists>s1. ok s1 \<and> content s1 = rest \<and>
    readvarint_loop rd n s = (let n = push_bit 7 n OR ucast (b AND 0x7f)
        in if b AND 0x80 \<noteq> 0 then readvarint_loop rd (n + 1) s1 else Some (n, s1))"
proof -
  have "content s = ser_uint 1 b @ rest" using assms(2) by (simp add: ser_uint_def)
  then obtain s1 where "unser_uint 1 rd s = Some (b, s1)" "ok s1" "content s1 = rest"
    using readsE [OF reads_uint [of 1 b] assms(1)] by auto
  then show ?thesis by (subst readvarint_loop.simps) auto
qed

lemma readvarint_tmp:
  fixes n :: "'a::len word" and first :: bool
  assumes "7 \<le> LENGTH('a)" "ok s" "content s = rev (varint_tmp first n) @ rest"
  shows "\<exists>s'. ok s' \<and> content s' = rest \<and>
    readvarint_loop rd 0 s = (if first then Some (n, s') else readvarint_loop rd (n + 1) s')"
  using assms(2,3)
proof (induction first n arbitrary: s rest rule: varint_tmp.induct)
  case (1 first n)
  define d :: byte where "d = ucast (n AND 0x7f) OR (if first then 0 else 0x80)"
  note dg = varint_digit [OF assms(1), of n first, folded d_def]
  have "\<exists>s1. ok s1 \<and> content s1 = d # rest \<and> readvarint_loop rd 0 s = readvarint_loop rd (drop_bit 7 n) s1"
  proof (cases "n \<le> 0x7f")
    case True
    then have "varint_tmp first n = [d]" by (subst varint_tmp.simps) (simp add: d_def Let_def)
    then show ?thesis using "1.prems" True by (auto simp: varint_short)
  next
    case False
    then have "varint_tmp first n = d # varint_tmp False (drop_bit 7 n - 1)"
      by (subst varint_tmp.simps) (simp add: d_def Let_def)
    then have "content s = rev (varint_tmp False (drop_bit 7 n - 1)) @ (d # rest)" using "1.prems"(2) by simp
    then show ?thesis using "1.IH" [OF refl False "1.prems"(1)] by simp
  qed
  then obtain s1 where s1: "ok s1" "content s1 = d # rest"
    "readvarint_loop rd 0 s = readvarint_loop rd (drop_bit 7 n) s1" by blast
  show ?case using readvarint_loop_digit [OF s1(1,2), of "drop_bit 7 n"] s1(3) dg
    by (auto simp: varint_join Let_def)
qed

lemma reads_varint:
  "7 \<le> LENGTH('a) \<Longrightarrow> reads content ok (ReadVarInt rd) (WriteVarInt n) (n :: 'a::len word)"
  by (rule readsI) (auto simp: ReadVarInt_def WriteVarInt_def dest: readvarint_tmp)

end

section \<open>The in-memory stream provides the interface\<close>

definition CDataStream_ok :: "CDataStream \<Rightarrow> bool" where
  "CDataStream_ok s \<longleftrightarrow> ds_nReadPos s \<le> length (ds_vch s) \<and> length (ds_vch s) < 2 ^ 31"

interpretation data_stream: input_stream CDataStream_read CDataStream_content CDataStream_ok
proof
  fix s n
  assume ok: "CDataStream_ok s" and n: "n \<le> length (CDataStream_content s)"
  then have "(ds_nReadPos s + n) mod 2 ^ 32 = ds_nReadPos s + n" "n < 2 ^ 31"
    by (auto simp: CDataStream_ok_def CDataStream_content_def)
  then show "\<exists>s'. CDataStream_read s n = Some (take n (CDataStream_content s), s')
      \<and> CDataStream_ok s' \<and> CDataStream_content s' = drop n (CDataStream_content s)"
    using ok n by (auto simp: CDataStream_read_def CDataStream_content_def CDataStream_ok_def Let_def add.commute)
next
  fix s n
  assume "CDataStream_ok s" "length (CDataStream_content s) < n"
  then show "CDataStream_read s n = None"
    by (auto simp: CDataStream_read_def CDataStream_content_def CDataStream_ok_def Let_def)
qed

lemma CDataStream_content_write:
  "CDataStream_ok s \<Longrightarrow> CDataStream_content (CDataStream_write s b) = CDataStream_content s @ b"
  by (simp add: CDataStream_content_def CDataStream_write_def CDataStream_ok_def)

section \<open>Properties\<close>

text \<open>C10: \<open>CDataStream::read\<close> consumes exactly the requested bytes from the front of the
  unread data, throws exactly when there are fewer, and returns everything written by \<open>write\<close>
  in order, however its buffer and read position are arranged.\<close>

theorem CDataStream_fifo:
  assumes "CDataStream_ok s"
  shows "(case CDataStream_read s n of
      None \<Rightarrow> CDataStream_size s < n
    | Some (b, s') \<Rightarrow> n \<le> CDataStream_size s \<and> CDataStream_ok s' \<and> length b = n
        \<and> CDataStream_content s = b @ CDataStream_content s')
    \<and> CDataStream_content (CDataStream_write s bs) = CDataStream_content s @ bs"
proof -
  have l: "length (CDataStream_content s) = CDataStream_size s"
    by (simp add: CDataStream_content_def CDataStream_size_def)
  show ?thesis
  proof (cases "n \<le> CDataStream_size s")
    case True
    then show ?thesis using data_stream.read_some [OF assms, of n] l CDataStream_content_write [OF assms]
      by auto
  next
    case False
    then show ?thesis using data_stream.read_none [OF assms, of n] l CDataStream_content_write [OF assms]
      by simp
  qed
qed

theorem CDataStream_fifo_witness:
  "CDataStream_content (CDataStream_write (CDataStream_Init [1, 2]) [3]) = [1, 2, 3]"
  using CDataStream_fifo [of "CDataStream_Init [1, 2]" 1 "[3]"]
  by (simp add: CDataStream_ok_def CDataStream_Init_def CDataStream_content_def)

text \<open>C11: a compact size is read back from the bytes \<open>WriteCompactSize\<close> wrote, on any stream that
  keeps the stream contract, when it is at most \<open>MAX_SIZE\<close>; above it the reader throws, and the number
  of bytes written is what \<open>GetSizeOfCompactSize\<close> says.\<close>

theorem CompactSize_roundtrip:
  assumes "input_stream rd content ok" "ok s" "content s = WriteCompactSize n @ rest"
  shows "(if unat n \<le> MAX_SIZE
      then \<exists>s'. ReadCompactSize rd s = Some (n, s') \<and> content s' = rest
      else ReadCompactSize rd s = None)
    \<and> length (WriteCompactSize n) = GetSizeOfCompactSize n"
proof -
  have "length (WriteCompactSize n) = GetSizeOfCompactSize n"
    by (simp add: WriteCompactSize_def GetSizeOfCompactSize_def ser_uint_def)
  moreover have "\<exists>s'. ReadCompactSize rd s = Some (n, s') \<and> content s' = rest" if "unat n \<le> MAX_SIZE"
    using readsE [OF input_stream.reads_compact [OF assms(1) that] assms(2,3)] by blast
  ultimately show ?thesis using input_stream.compact_too_large [OF assms] by simp
qed

theorem CompactSize_roundtrip_witness:
  "\<exists>s'. ReadCompactSize CDataStream_read (CDataStream_Init (WriteCompactSize 70000 @ [7])) = Some (70000, s')
     \<and> CDataStream_content s' = [7]"
  using CompactSize_roundtrip [OF data_stream.input_stream_axioms,
      of "CDataStream_Init (WriteCompactSize 70000 @ [7])" 70000 "[7]"]
  by (simp add: CDataStream_ok_def CDataStream_Init_def CDataStream_content_def WriteCompactSize_def ser_uint_def)

text \<open>C12: a variable-length integer of any unsigned type of at least eight bits is read back from
  the bytes \<open>WriteVarInt\<close> wrote, which number \<open>GetSizeOfVarInt\<close> and never exceed the
  \<open>(sizeof(n)*8+6)/7\<close> elements of the buffer \<open>tmp\<close>.\<close>

theorem VarInt_roundtrip:
  fixes n :: "'a::len word"
  assumes "input_stream rd content ok" "ok s" "content s = WriteVarInt n @ rest" "8 \<le> LENGTH('a)"
  shows "\<exists>s'. ReadVarInt rd s = Some (n, s') \<and> content s' = rest
    \<and> length (WriteVarInt n) = GetSizeOfVarInt n \<and> length (WriteVarInt n) \<le> (LENGTH('a) + 6) div 7"
proof -
  have "LENGTH('a) \<le> 7 * ((LENGTH('a) + 6) div 7)" by simp
  then have "(2::nat) ^ LENGTH('a) \<le> 2 ^ (7 * ((LENGTH('a) + 6) div 7))" by (intro power_increasing) simp_all
  then have "unat n < 2 ^ (7 * ((LENGTH('a) + 6) div 7))" using unat_less_power [of n] by linarith
  then have "GetSizeOfVarInt n \<le> (LENGTH('a) + 6) div 7"
    using assms(4) by (intro varint_capacity) auto
  moreover have "length (WriteVarInt n) = GetSizeOfVarInt n" by (simp add: WriteVarInt_def length_varint_tmp)
  moreover have "7 \<le> LENGTH('a)" using assms(4) by simp
  ultimately show ?thesis using readsE [OF input_stream.reads_varint [OF assms(1)] assms(2,3)] by metis
qed

theorem VarInt_roundtrip_witness:
  "\<exists>s'. ReadVarInt CDataStream_read (CDataStream_Init (WriteVarInt (16511 :: u64))) = Some (16511 :: u64, s')"
proof -
  have "length (WriteVarInt (16511 :: u64)) \<le> 10"
    using varint_capacity [of "16511 :: u64" 10] by (simp add: WriteVarInt_def length_varint_tmp)
  then show ?thesis
    using VarInt_roundtrip [OF data_stream.input_stream_axioms,
        of "CDataStream_Init (WriteVarInt (16511 :: u64))" "16511 :: u64" "[]"]
    by (auto simp: CDataStream_ok_def CDataStream_Init_def CDataStream_content_def)
qed

end
