(* ===== verification/Transaction.thy ===== *)
theory Transaction
  imports Serialize
begin

text \<open>
  Transactions of \<open>src/src/main.h\<close>: the classes \<open>COutPoint\<close>, \<open>CTxIn\<close>, \<open>CTxOut\<close> and
  \<open>CTransaction\<close>, their serialization, and their predicates. The denial-of-service counter
  \<open>nDoS\<close> is not part of a transaction's value. A signed 64-bit amount is kept as the 64-bit
  word it is, and read with \<open>sint\<close>.
\<close>

unbundle bit_operations_syntax

section \<open>Data\<close>

record COutPoint =
  op_hash :: base_uint
  op_n :: u32

record CTxIn =
  prevout :: COutPoint
  scriptSig :: bytes
  nSequence :: u32

record CTxOut =
  nValue :: "64 word"
  scriptPubKey :: bytes

record CTransaction =
  tx_nVersion :: "32 word"
  tx_nTime :: u32
  vin :: "CTxIn list"
  vout :: "CTxOut list"
  nLockTime :: u32

definition COutPoint_SetNull :: COutPoint where
  "COutPoint_SetNull = \<lparr> op_hash = replicate uint256_WIDTH 0, op_n = 0xffffffff \<rparr>"

definition COutPoint_IsNull :: "COutPoint \<Rightarrow> bool" where
  "COutPoint_IsNull p = (base_uint_eq64 (op_hash p) 0 \<and> op_n p = 0xffffffff)"

definition COutPoint_lt :: "COutPoint \<Rightarrow> COutPoint \<Rightarrow> bool" where
  "COutPoint_lt a b = (base_uint_lt (op_hash a) (op_hash b) \<or> base_uint_eq (op_hash a) (op_hash b) \<and> op_n a < op_n b)"

definition COutPoint_eq :: "COutPoint \<Rightarrow> COutPoint \<Rightarrow> bool" where
  "COutPoint_eq a b = (base_uint_eq (op_hash a) (op_hash b) \<and> op_n a = op_n b)"

definition CTxIn_IsFinal :: "CTxIn \<Rightarrow> bool" where
  "CTxIn_IsFinal txin = (nSequence txin = 0xffffffff)"

definition CTxOut_SetNull :: CTxOut where
  "CTxOut_SetNull = \<lparr> nValue = - 1, scriptPubKey = [] \<rparr>"

definition CTxOut_IsEmpty :: "CTxOut \<Rightarrow> bool" where
  "CTxOut_IsEmpty txout = (nValue txout = 0 \<and> scriptPubKey txout = [])"

definition CTransaction_IsNull :: "CTransaction \<Rightarrow> bool" where
  "CTransaction_IsNull tx = (vin tx = [] \<and> vout tx = [])"

section \<open>Predicates and amounts\<close>

abbreviation (input) LOCKTIME_THRESHOLD :: int where
  "LOCKTIME_THRESHOLD \<equiv> 500000000"

text \<open>The best height and the adjusted time stand in for arguments left at zero.\<close>

definition CTransaction_IsFinal :: "int \<Rightarrow> int \<Rightarrow> CTransaction \<Rightarrow> int \<Rightarrow> int \<Rightarrow> bool" where
  "CTransaction_IsFinal nBestHeight adjustedTime tx nBlockHeight nBlockTime =
     (if nLockTime tx = 0 then True
      else let nBlockHeight = (if nBlockHeight = 0 then nBestHeight else nBlockHeight);
               nBlockTime = (if nBlockTime = 0 then adjustedTime else nBlockTime);
               nLock = int (unat (nLockTime tx))
           in if nLock < (if nLock < LOCKTIME_THRESHOLD then nBlockHeight else nBlockTime) then True
              else list_all CTxIn_IsFinal (vin tx))"

fun newer_loop :: "(CTxIn \<times> CTxIn) list \<Rightarrow> bool \<Rightarrow> u32 \<Rightarrow> bool" where
  "newer_loop [] fNewer nLowest = fNewer"
| "newer_loop ((a, b) # rest) fNewer nLowest =
     (if nSequence a \<noteq> nSequence b
      then let (fNewer, nLowest) = (if nSequence a \<le> nLowest then (False, nSequence a) else (fNewer, nLowest));
               (fNewer, nLowest) = (if nSequence b < nLowest then (True, nSequence b) else (fNewer, nLowest))
           in newer_loop rest fNewer nLowest
      else newer_loop rest fNewer nLowest)"

definition CTransaction_IsNewerThan :: "CTransaction \<Rightarrow> CTransaction \<Rightarrow> bool" where
  "CTransaction_IsNewerThan tx old =
     (if length (vin tx) \<noteq> length (vin old) then False
      else if \<not> list_all2 (\<lambda>a b. COutPoint_eq (prevout a) (prevout b)) (vin tx) (vin old) then False
      else newer_loop (zip (vin tx) (vin old)) False 0xffffffff)"

definition CTransaction_IsCoinBase :: "CTransaction \<Rightarrow> bool" where
  "CTransaction_IsCoinBase tx =
     (length (vin tx) = 1 \<and> COutPoint_IsNull (prevout (vin tx ! 0)) \<and> length (vout tx) \<ge> 1)"

definition CTransaction_IsCoinStake :: "CTransaction \<Rightarrow> bool" where
  "CTransaction_IsCoinStake tx =
     (length (vin tx) > 0 \<and> \<not> COutPoint_IsNull (prevout (vin tx ! 0)) \<and> length (vout tx) \<ge> 2
      \<and> CTxOut_IsEmpty (vout tx ! 0))"

abbreviation (input) MAX_MONEY :: int where
  "MAX_MONEY \<equiv> 2 ^ 63 - 1"

definition MoneyRange :: "64 word \<Rightarrow> bool" where
  "MoneyRange v = (0 \<le> sint v \<and> sint v \<le> MAX_MONEY)"

text \<open>The sum is signed 64-bit, and an addition that leaves that range has no defined result. The call
  returns the sum, throws because a value is out of range, or has run into such an addition.\<close>

datatype valueout = ValueOut "64 word" | OutOfRange | SignedOverflow

definition signed_add_defined :: "64 word \<Rightarrow> 64 word \<Rightarrow> bool" where
  "signed_add_defined a b = (- (2 ^ 63) \<le> sint a + sint b \<and> sint a + sint b \<le> 2 ^ 63 - 1)"

fun valueout_loop :: "CTxOut list \<Rightarrow> 64 word \<Rightarrow> valueout" where
  "valueout_loop [] nValueOut = ValueOut nValueOut"
| "valueout_loop (txout # txouts) nValueOut =
     (if \<not> signed_add_defined nValueOut (nValue txout) then SignedOverflow
      else let nValueOut = nValueOut + nValue txout
           in if \<not> MoneyRange (nValue txout) \<or> \<not> MoneyRange nValueOut then OutOfRange
              else valueout_loop txouts nValueOut)"

definition CTransaction_GetValueOut :: "CTransaction \<Rightarrow> valueout" where
  "CTransaction_GetValueOut tx = valueout_loop (vout tx) 0"

section \<open>Serialization\<close>

definition ser_COutPoint :: "COutPoint \<Rightarrow> bytes" where
  "ser_COutPoint p = base_uint_getBytes (op_hash p) @ ser_uint 4 (op_n p)"

definition unser_COutPoint :: "'s rd \<Rightarrow> 's \<Rightarrow> (COutPoint \<times> 's) option" where
  "unser_COutPoint rd s =
     (case unser_base_uint uint256_WIDTH rd s of None \<Rightarrow> None
      | Some (h, s) \<Rightarrow>
          (case unser_uint 4 rd s of None \<Rightarrow> None | Some (i, s) \<Rightarrow> Some (\<lparr> op_hash = h, op_n = i \<rparr>, s)))"

definition ser_CTxIn :: "CTxIn \<Rightarrow> bytes" where
  "ser_CTxIn txin = ser_COutPoint (prevout txin) @ ser_bytes (scriptSig txin) @ ser_uint 4 (nSequence txin)"

definition unser_CTxIn :: "'s rd \<Rightarrow> 's \<Rightarrow> (CTxIn \<times> 's) option" where
  "unser_CTxIn rd s =
     (case unser_COutPoint rd s of None \<Rightarrow> None
      | Some (p, s) \<Rightarrow>
          (case unser_bytes rd s of None \<Rightarrow> None
           | Some (b, s) \<Rightarrow>
               (case unser_uint 4 rd s of None \<Rightarrow> None
                | Some (q, s) \<Rightarrow> Some (\<lparr> prevout = p, scriptSig = b, nSequence = q \<rparr>, s))))"

definition ser_CTxOut :: "CTxOut \<Rightarrow> bytes" where
  "ser_CTxOut txout = ser_uint 8 (nValue txout) @ ser_bytes (scriptPubKey txout)"

definition unser_CTxOut :: "'s rd \<Rightarrow> 's \<Rightarrow> (CTxOut \<times> 's) option" where
  "unser_CTxOut rd s =
     (case unser_uint 8 rd s of None \<Rightarrow> None
      | Some (v, s) \<Rightarrow>
          (case unser_bytes rd s of None \<Rightarrow> None
           | Some (b, s) \<Rightarrow> Some (\<lparr> nValue = v, scriptPubKey = b \<rparr>, s)))"

definition ser_CTransaction :: "CTransaction \<Rightarrow> bytes" where
  "ser_CTransaction tx =
     ser_uint 4 (tx_nVersion tx) @ ser_uint 4 (tx_nTime tx) @ ser_vector ser_CTxIn (vin tx)
     @ ser_vector ser_CTxOut (vout tx) @ ser_uint 4 (nLockTime tx)"

definition unser_CTransaction :: "'s rd \<Rightarrow> 's \<Rightarrow> (CTransaction \<times> 's) option" where
  "unser_CTransaction rd s =
     (case unser_uint 4 rd s of None \<Rightarrow> None
      | Some (v, s) \<Rightarrow>
          (case unser_uint 4 rd s of None \<Rightarrow> None
           | Some (t, s) \<Rightarrow>
               (case unser_vector unser_CTxIn rd s of None \<Rightarrow> None
                | Some (ins, s) \<Rightarrow>
                    (case unser_vector unser_CTxOut rd s of None \<Rightarrow> None
                     | Some (outs, s) \<Rightarrow>
                         (case unser_uint 4 rd s of None \<Rightarrow> None
                          | Some (l, s) \<Rightarrow>
                              Some (\<lparr> tx_nVersion = v, tx_nTime = t, vin = ins, vout = outs, nLockTime = l \<rparr>, s))))))"

section \<open>Well-formed transactions\<close>

definition COutPoint_wf :: "COutPoint \<Rightarrow> bool" where
  "COutPoint_wf p \<longleftrightarrow> length (op_hash p) = uint256_WIDTH"

definition CTxIn_wf :: "CTxIn \<Rightarrow> bool" where
  "CTxIn_wf txin \<longleftrightarrow> COutPoint_wf (prevout txin) \<and> length (scriptSig txin) \<le> MAX_SIZE"

definition CTxOut_wf :: "CTxOut \<Rightarrow> bool" where
  "CTxOut_wf txout \<longleftrightarrow> length (scriptPubKey txout) \<le> MAX_SIZE"

definition CTransaction_wf :: "CTransaction \<Rightarrow> bool" where
  "CTransaction_wf tx \<longleftrightarrow> length (vin tx) \<le> MAX_SIZE \<and> length (vout tx) \<le> MAX_SIZE
     \<and> list_all CTxIn_wf (vin tx) \<and> list_all CTxOut_wf (vout tx)"

text \<open>A small transaction, for the examples.\<close>

definition sample_tx :: CTransaction where
  "sample_tx = \<lparr> tx_nVersion = 1, tx_nTime = 1400000000,
     vin = [\<lparr> prevout = \<lparr> op_hash = replicate 8 0x1234, op_n = 1 \<rparr>, scriptSig = [0x51], nSequence = 0xffffffff \<rparr>],
     vout = [\<lparr> nValue = 5000000, scriptPubKey = [0x51, 0x87] \<rparr>], nLockTime = 0 \<rparr>"

section \<open>Round trip\<close>

context input_stream
begin

lemma reads_last:
  "reads content ok f bs x \<Longrightarrow> h x = y \<Longrightarrow>
   reads content ok (\<lambda>s. case f s of None \<Rightarrow> None | Some (x, s) \<Rightarrow> Some (h x, s)) bs y"
  by (drule reads_bind_last [where h = h]) simp

lemma reads_COutPoint:
  assumes "COutPoint_wf p"
  shows "reads content ok (unser_COutPoint rd) (ser_COutPoint p) p"
proof -
  have "reads content ok (\<lambda>s. case unser_uint 4 rd s of None \<Rightarrow> None
      | Some (i, s) \<Rightarrow> Some (\<lparr> op_hash = op_hash p, op_n = i \<rparr>, s)) (ser_uint 4 (op_n p)) p"
    by (rule reads_last [OF reads_uint]) (simp, cases p, simp)
  then show ?thesis
    unfolding unser_COutPoint_def [abs_def] ser_COutPoint_def
    using assms by (intro reads_bind [OF reads_base_uint]) (simp_all add: COutPoint_wf_def)
qed

lemma reads_CTxIn:
  assumes "CTxIn_wf t"
  shows "reads content ok (unser_CTxIn rd) (ser_CTxIn t) t"
proof -
  have "reads content ok (\<lambda>s. case unser_uint 4 rd s of None \<Rightarrow> None
      | Some (q, s) \<Rightarrow> Some (\<lparr> prevout = prevout t, scriptSig = scriptSig t, nSequence = q \<rparr>, s))
      (ser_uint 4 (nSequence t)) t"
    by (rule reads_last [OF reads_uint]) (simp, cases t, simp)
  then show ?thesis
    unfolding unser_CTxIn_def [abs_def] ser_CTxIn_def
    using assms
    by (intro reads_bind [OF reads_COutPoint] reads_bind [OF reads_bytes]) (simp_all add: CTxIn_wf_def)
qed

lemma reads_CTxOut:
  assumes "CTxOut_wf t"
  shows "reads content ok (unser_CTxOut rd) (ser_CTxOut t) t"
proof -
  have "reads content ok (\<lambda>s. case unser_bytes rd s of None \<Rightarrow> None
      | Some (b, s) \<Rightarrow> Some (\<lparr> nValue = nValue t, scriptPubKey = b \<rparr>, s)) (ser_bytes (scriptPubKey t)) t"
    by (rule reads_last [OF reads_bytes]) (use assms in \<open>simp add: CTxOut_wf_def\<close>, cases t, simp)
  then show ?thesis
    unfolding unser_CTxOut_def [abs_def] ser_CTxOut_def
    by (intro reads_bind [OF reads_uint]) simp_all
qed

lemma reads_CTransaction:
  assumes "CTransaction_wf tx"
  shows "reads content ok (unser_CTransaction rd) (ser_CTransaction tx) tx"
proof -
  have ins: "reads content ok (unser_vector unser_CTxIn rd) (ser_vector ser_CTxIn (vin tx)) (vin tx)"
    using assms by (intro reads_vector reads_CTxIn) (auto simp: CTransaction_wf_def list_all_iff)
  have outs: "reads content ok (unser_vector unser_CTxOut rd) (ser_vector ser_CTxOut (vout tx)) (vout tx)"
    using assms by (intro reads_vector reads_CTxOut) (auto simp: CTransaction_wf_def list_all_iff)
  have last: "reads content ok (\<lambda>s. case unser_uint 4 rd s of None \<Rightarrow> None
      | Some (l, s) \<Rightarrow> Some (\<lparr> tx_nVersion = tx_nVersion tx, tx_nTime = tx_nTime tx, vin = vin tx,
          vout = vout tx, nLockTime = l \<rparr>, s)) (ser_uint 4 (nLockTime tx)) tx"
    by (rule reads_last [OF reads_uint]) (simp, cases tx, simp)
  show ?thesis
    unfolding unser_CTransaction_def [abs_def] ser_CTransaction_def
    by (rule reads_bind [OF reads_uint], simp, rule reads_bind [OF reads_uint], simp,
        rule reads_bind [OF ins], rule reads_bind [OF outs], rule last)
qed

end

section \<open>Amounts\<close>

lemma MoneyRange_nonneg: "MoneyRange v \<longleftrightarrow> 0 \<le> sint v"
  using sint_lt [of v] by (auto simp: MoneyRange_def)

lemma sint_add_nonneg:
  fixes a b :: "64 word"
  assumes "0 \<le> sint a" "0 \<le> sint b" "sint a + sint b \<le> MAX_MONEY"
  shows "sint (a + b) = sint a + sint b"
proof -
  have ua: "sint a = int (unat a)" "sint b = int (unat b)" using unat_nonnegative assms by metis+
  have "int (unat a) < 9223372036854775808" "int (unat b) < 9223372036854775808"
    using sint_lt [of a] sint_lt [of b] ua by simp_all
  then have lt: "unat a < 9223372036854775808" "unat b < 9223372036854775808" by linarith+
  have ab: "unat (a + b) = unat a + unat b" using lt by (simp add: unat_word_ariths)
  then have "unat (a + b) < 2 ^ 63" using assms(3) ua by (simp del: of_nat_unat)
  then show ?thesis using ab ua by (simp add: sint_unat [of "a + b"] del: of_nat_unat)
qed

text \<open>The loop adds the values in front of the first negative one. Whether it meets that value or
  leaves the range first decides the outcome.\<close>

lemma valueout_loop_outcome:
  assumes "0 \<le> sint acc"
  shows "valueout_loop outs acc =
    (let p = takeWhile (\<lambda>t. 0 \<le> sint (nValue t)) outs; s = sint acc + (\<Sum>t\<leftarrow>p. sint (nValue t))
     in if MAX_MONEY < s then SignedOverflow else if p = outs then ValueOut (word_of_int s) else OutOfRange)"
  using assms
proof (induction outs arbitrary: acc)
  case Nil
  then show ?case using sint_lt [of acc] by simp
next
  case (Cons t outs)
  let ?v = "sint (nValue t)" and ?p = "takeWhile (\<lambda>t. 0 \<le> sint (nValue t)) outs"
  let ?S = "\<Sum>t\<leftarrow>?p. sint (nValue t)"
  have pos: "0 \<le> ?S" by (rule sum_list_nonneg) (auto dest: set_takeWhileD)
  show ?case
  proof (cases "0 \<le> ?v")
    case False
    then have "signed_add_defined acc (nValue t)"
      using Cons.prems sint_lt [of acc] sint_ge [of "nValue t"] by (simp add: signed_add_defined_def)
    then show ?thesis using False sint_lt [of acc] by (simp add: MoneyRange_nonneg Let_def)
  next
    case v: True
    show ?thesis
    proof (cases "sint acc + ?v \<le> MAX_MONEY")
      case True
      then have "signed_add_defined acc (nValue t)" using Cons.prems v by (simp add: signed_add_defined_def)
      moreover have sum: "sint (acc + nValue t) = sint acc + ?v" by (rule sint_add_nonneg [OF Cons.prems v True])
      ultimately have "valueout_loop (t # outs) acc = valueout_loop outs (acc + nValue t)"
        using v Cons.prems by (simp add: MoneyRange_nonneg Let_def)
      then show ?thesis using Cons.IH [of "acc + nValue t"] Cons.prems v by (simp add: sum Let_def add.assoc)
    next
      case False
      then have "\<not> signed_add_defined acc (nValue t)" by (simp add: signed_add_defined_def)
      then show ?thesis using False v pos by (simp add: Let_def)
    qed
  qed
qed

section \<open>Properties\<close>

text \<open>C13: a well-formed transaction is read back, on any stream that keeps the stream contract,
  from the bytes it was serialized to, and the reader stops exactly behind them.\<close>

theorem CTransaction_roundtrip:
  assumes "input_stream rd content ok" "CTransaction_wf tx" "ok s" "content s = ser_CTransaction tx @ rest"
  shows "\<exists>s'. unser_CTransaction rd s = Some (tx, s') \<and> content s' = rest"
  using readsE [OF input_stream.reads_CTransaction [OF assms(1,2)] assms(3,4)] by blast

theorem CTransaction_roundtrip_witness:
  "\<exists>s'. unser_CTransaction CDataStream_read (CDataStream_Init (ser_CTransaction sample_tx @ [9])) = Some (sample_tx, s')
     \<and> CDataStream_content s' = [9]"
proof -
  have wf: "CTransaction_wf sample_tx"
    by (simp add: sample_tx_def CTransaction_wf_def CTxIn_wf_def CTxOut_wf_def COutPoint_wf_def)
  have "length (ser_CTransaction sample_tx) < 200"
    by (simp add: sample_tx_def ser_CTransaction_def ser_vector_def ser_CTxIn_def ser_CTxOut_def
        ser_COutPoint_def ser_bytes_def ser_uint_def WriteCompactSize_def length_getBytes)
  then have "CDataStream_ok (CDataStream_Init (ser_CTransaction sample_tx @ [9]))"
    by (simp add: CDataStream_ok_def CDataStream_Init_def)
  then show ?thesis
    using CTransaction_roundtrip [OF data_stream.input_stream_axioms wf,
        of "CDataStream_Init (ser_CTransaction sample_tx @ [9])" "[9]"]
    by (simp add: CDataStream_content_def CDataStream_Init_def)
qed

text \<open>C14: what \<open>GetValueOut\<close> does with the output values, exactly. Let the sum run over the values in front
  of the first negative one. If it fits a signed 64-bit integer, the call returns it when there is no
  negative value and throws when there is one. If it does not fit, the addition overflows, which has no
  defined result: the range test of \<open>MoneyRange\<close> comes after the addition, and its upper bound is the
  largest 64-bit integer.\<close>

theorem GetValueOut_exact:
  "CTransaction_GetValueOut tx =
    (let p = takeWhile (\<lambda>t. 0 \<le> sint (nValue t)) (vout tx); s = (\<Sum>t\<leftarrow>p. sint (nValue t))
     in if 2 ^ 63 - 1 < s then SignedOverflow
        else if p = vout tx then ValueOut (word_of_int s) else OutOfRange)"
  by (simp add: CTransaction_GetValueOut_def valueout_loop_outcome)

end
