(* ===== verification/Script.thy ===== *)
theory Script
  imports Bignum Transaction
begin

text \<open>
  Scripts of \<open>src/src/script.h\<close> and \<open>src/src/script.cpp\<close>: the class \<open>CScript\<close>, a byte vector,
  with its builders (\<open>operator<<\<close>), its instruction parser \<open>GetOp2\<close> and the scans built on it,
  and the matching of output scripts against the standard templates (\<open>Solver\<close>).

  An iterator \<open>pc\<close> into a script is the list of the bytes from it to the end. An opcode is the
  byte it is stored as. \<open>None\<close> as the result of \<open>GetOp2\<close> is its \<open>false\<close>.
\<close>

unbundle bit_operations_syntax

section \<open>Opcodes\<close>

abbreviation (input) OP_0 :: byte where "OP_0 \<equiv> 0x00"
abbreviation (input) OP_PUSHDATA1 :: byte where "OP_PUSHDATA1 \<equiv> 0x4c"
abbreviation (input) OP_PUSHDATA2 :: byte where "OP_PUSHDATA2 \<equiv> 0x4d"
abbreviation (input) OP_PUSHDATA4 :: byte where "OP_PUSHDATA4 \<equiv> 0x4e"
abbreviation (input) OP_1NEGATE :: byte where "OP_1NEGATE \<equiv> 0x4f"
abbreviation (input) OP_1 :: byte where "OP_1 \<equiv> 0x51"
abbreviation (input) OP_16 :: byte where "OP_16 \<equiv> 0x60"
abbreviation (input) OP_RETURN :: byte where "OP_RETURN \<equiv> 0x6a"
abbreviation (input) OP_DROP :: byte where "OP_DROP \<equiv> 0x75"
abbreviation (input) OP_DUP :: byte where "OP_DUP \<equiv> 0x76"
abbreviation (input) OP_EQUAL :: byte where "OP_EQUAL \<equiv> 0x87"
abbreviation (input) OP_EQUALVERIFY :: byte where "OP_EQUALVERIFY \<equiv> 0x88"
abbreviation (input) OP_HASH160 :: byte where "OP_HASH160 \<equiv> 0xa9"
abbreviation (input) OP_CODESEPARATOR :: byte where "OP_CODESEPARATOR \<equiv> 0xab"
abbreviation (input) OP_CHECKSIG :: byte where "OP_CHECKSIG \<equiv> 0xac"
abbreviation (input) OP_CHECKSIGVERIFY :: byte where "OP_CHECKSIGVERIFY \<equiv> 0xad"
abbreviation (input) OP_CHECKMULTISIG :: byte where "OP_CHECKMULTISIG \<equiv> 0xae"
abbreviation (input) OP_CHECKMULTISIGVERIFY :: byte where "OP_CHECKMULTISIGVERIFY \<equiv> 0xaf"
abbreviation (input) OP_SMALLDATA :: byte where "OP_SMALLDATA \<equiv> 0xf9"
abbreviation (input) OP_SMALLINTEGER :: byte where "OP_SMALLINTEGER \<equiv> 0xfa"
abbreviation (input) OP_PUBKEYS :: byte where "OP_PUBKEYS \<equiv> 0xfb"
abbreviation (input) OP_INTEGER :: byte where "OP_INTEGER \<equiv> 0xfc"
abbreviation (input) OP_PUBKEYHASH :: byte where "OP_PUBKEYHASH \<equiv> 0xfd"
abbreviation (input) OP_PUBKEY :: byte where "OP_PUBKEY \<equiv> 0xfe"
abbreviation (input) OP_INVALIDOPCODE :: byte where "OP_INVALIDOPCODE \<equiv> 0xff"

section \<open>Building scripts\<close>

text \<open>\<open>operator<<\<close> for a byte vector, as the bytes it appends.\<close>

definition push_bytes :: "bytes \<Rightarrow> bytes" where
  "push_bytes b =
     (if length b < 0x4c then of_nat (length b) # b
      else if length b \<le> 0xff then OP_PUSHDATA1 # of_nat (length b) # b
      else if length b \<le> 0xffff then OP_PUSHDATA2 # le_bytes 2 (length b) @ b
      else OP_PUSHDATA4 # le_bytes 4 (length b) @ b)"

definition push_int64 :: "'b bn_lib \<Rightarrow> 64 word \<Rightarrow> bytes" where
  "push_int64 L v =
     (if sint v = - 1 \<or> (sint v \<ge> 1 \<and> sint v \<le> 16) then [ucast v + (OP_1 - 1)]
      else push_bytes (CBigNum_getvch L (CBigNum_of_int64 L v)))"

definition push_uint64 :: "'b bn_lib \<Rightarrow> u64 \<Rightarrow> bytes" where
  "push_uint64 L v =
     (if v \<ge> 1 \<and> v \<le> 16 then [ucast v + (OP_1 - 1)]
      else push_bytes (CBigNum_getvch L (CBigNum_setuint64 L v)))"

definition push_uint160 :: "base_uint \<Rightarrow> bytes" where
  "push_uint160 b = 20 # base_uint_getBytes b"

definition push_uint256 :: "base_uint \<Rightarrow> bytes" where
  "push_uint256 b = 32 # base_uint_getBytes b"

text \<open>\<open>None\<close> is a failed assertion.\<close>

definition DecodeOP_N :: "byte \<Rightarrow> nat option" where
  "DecodeOP_N opcode =
     (if opcode = OP_0 then Some 0
      else if opcode \<ge> OP_1 \<and> opcode \<le> OP_16 then Some (unat opcode - 0x50) else None)"

definition EncodeOP_N :: "int \<Rightarrow> byte option" where
  "EncodeOP_N v =
     (if \<not> (v \<ge> 0 \<and> v \<le> 16) then None
      else if v = 0 then Some OP_0 else Some (word_of_int (0x51 + v - 1)))"

section \<open>Reading instructions\<close>

definition GetOp2 :: "bytes \<Rightarrow> (byte \<times> bytes \<times> bytes) option" where
  "GetOp2 pc =
     (case pc of [] \<Rightarrow> None
      | opcode # pc \<Rightarrow>
          if opcode \<le> OP_PUSHDATA4
          then (case (if opcode < OP_PUSHDATA1 then Some (unat opcode, pc)
                      else if opcode = OP_PUSHDATA1
                      then (if length pc < 1 then None else Some (le_val (take 1 pc), drop 1 pc))
                      else if opcode = OP_PUSHDATA2
                      then (if length pc < 2 then None else Some (le_val (take 2 pc), drop 2 pc))
                      else (if length pc < 4 then None else Some (le_val (take 4 pc), drop 4 pc))) of
                  None \<Rightarrow> None
                | Some (nSize, pc) \<Rightarrow>
                    if length pc < nSize then None
                    else Some (opcode, take nSize pc, drop nSize pc))
          else Some (opcode, [], pc))"

lemma GetOp2_shorter: "GetOp2 pc = Some (opcode, vch, pc') \<Longrightarrow> length pc' < length pc"
  by (auto simp: GetOp2_def split: list.splits if_splits option.splits)

section \<open>Scans\<close>

text \<open>The inner \<open>while\<close> of \<open>FindAndDelete\<close> erases copies of \<open>b\<close> at \<open>pc\<close>; the outer loop then steps
  over one instruction, which stays, or ends with whatever is left.\<close>

function erase_at :: "bytes \<Rightarrow> bytes \<Rightarrow> nat \<times> bytes" where
  "erase_at b pc =
     (if b \<noteq> [] \<and> length pc \<ge> length b \<and> take (length b) pc = b
      then let (k, pc) = erase_at b (drop (length b) pc) in (Suc k, pc)
      else (0, pc))"
  by pat_completeness auto
termination
  by (relation "measure (\<lambda>(b, pc). length pc)") (auto simp flip: length_greater_0_conv)

declare erase_at.simps [simp del]

lemma erase_at_length: "length (snd (erase_at b pc)) \<le> length pc"
  by (induction b pc rule: erase_at.induct) (subst erase_at.simps, auto simp: Let_def split: prod.splits)

function fad_loop :: "bytes \<Rightarrow> bytes \<Rightarrow> nat \<times> bytes" where
  "fad_loop b pc =
     (let (k, pc) = erase_at b pc
      in case GetOp2 pc of None \<Rightarrow> (k, pc)
         | Some (opcode, vch, pc') \<Rightarrow>
             let (k', rest) = fad_loop b pc' in (k + k', take (length pc - length pc') pc @ rest))"
  by pat_completeness auto
termination
proof (relation "measure (\<lambda>(b, pc). length pc)")
  fix b pc x k and pc1 y opcode z vch and pc' :: bytes
  assume a: "x = erase_at b pc" "(k, pc1) = x" "GetOp2 pc1 = Some y" "(opcode, z) = y" "(vch, pc') = z"
  have "length pc1 \<le> length pc" using erase_at_length [of b pc] a(1,2) by (metis snd_conv)
  moreover have "length pc' < length pc1" using a(3-5) GetOp2_shorter by blast
  ultimately show "((b, pc'), b, pc) \<in> measure (\<lambda>(b, pc). length pc)" by simp
qed simp

declare fad_loop.simps [simp del]

definition FindAndDelete :: "bytes \<Rightarrow> bytes \<Rightarrow> nat \<times> bytes" where
  "FindAndDelete this b = (if b = [] then (0, this) else fad_loop b this)"

function Find_loop :: "byte \<Rightarrow> bytes \<Rightarrow> nat" where
  "Find_loop op pc =
     (case GetOp2 pc of None \<Rightarrow> 0
      | Some (opcode, vch, pc') \<Rightarrow> (if opcode = op then 1 else 0) + Find_loop op pc')"
  by pat_completeness auto
termination
  by (relation "measure (\<lambda>(op, pc). length pc)") (auto dest: GetOp2_shorter)

declare Find_loop.simps [simp del]

function IsPushOnly :: "bytes \<Rightarrow> bool" where
  "IsPushOnly pc =
     (if pc = [] then True
      else case GetOp2 pc of None \<Rightarrow> False
           | Some (opcode, vch, pc') \<Rightarrow> if opcode > OP_16 then False else IsPushOnly pc')"
  by pat_completeness auto
termination
  by (relation "measure length") (auto dest: GetOp2_shorter)

declare IsPushOnly.simps [simp del]

function sigops_loop :: "bool \<Rightarrow> byte \<Rightarrow> bytes \<Rightarrow> nat" where
  "sigops_loop fAccurate lastOpcode pc =
     (case GetOp2 pc of None \<Rightarrow> 0
      | Some (opcode, vch, pc') \<Rightarrow>
          (if opcode = OP_CHECKSIG \<or> opcode = OP_CHECKSIGVERIFY then 1
           else if opcode = OP_CHECKMULTISIG \<or> opcode = OP_CHECKMULTISIGVERIFY
           then (if fAccurate \<and> lastOpcode \<ge> OP_1 \<and> lastOpcode \<le> OP_16
                 then the (DecodeOP_N lastOpcode) else 20)
           else 0) + sigops_loop fAccurate opcode pc')"
  by pat_completeness auto
termination
  by (relation "measure (\<lambda>(f, l, pc). length pc)") (auto dest: GetOp2_shorter)

declare sigops_loop.simps [simp del]

definition GetSigOpCount :: "bytes \<Rightarrow> bool \<Rightarrow> nat" where
  "GetSigOpCount this fAccurate = sigops_loop fAccurate OP_INVALIDOPCODE this"

definition IsPayToScriptHash :: "bytes \<Rightarrow> bool" where
  "IsPayToScriptHash this =
     (length this = 23 \<and> this ! 0 = OP_HASH160 \<and> this ! 1 = 0x14 \<and> this ! 22 = OP_EQUAL)"

text \<open>The last data the script pushes, or \<open>None\<close> if it is not made of pushes only.\<close>

function last_push :: "bytes \<Rightarrow> bytes \<Rightarrow> bytes option" where
  "last_push data pc =
     (if pc = [] then Some data
      else case GetOp2 pc of None \<Rightarrow> None
           | Some (opcode, data, pc') \<Rightarrow> if opcode > OP_16 then None else last_push data pc')"
  by pat_completeness auto
termination
  by (relation "measure (\<lambda>(d, pc). length pc)") (auto dest: GetOp2_shorter)

declare last_push.simps [simp del]

definition GetSigOpCount_P2SH :: "bytes \<Rightarrow> bytes \<Rightarrow> nat" where
  "GetSigOpCount_P2SH this script_sig =
     (if \<not> IsPayToScriptHash this then GetSigOpCount this True
      else case last_push [] script_sig of None \<Rightarrow> 0 | Some data \<Rightarrow> GetSigOpCount data True)"

function HasCanonicalPushes :: "bytes \<Rightarrow> bool" where
  "HasCanonicalPushes pc =
     (if pc = [] then True
      else case GetOp2 pc of None \<Rightarrow> False
           | Some (opcode, data, pc') \<Rightarrow>
               if opcode > OP_16 then HasCanonicalPushes pc'
               else if opcode < OP_PUSHDATA1 \<and> opcode > OP_0 \<and> length data = 1 \<and> data ! 0 \<le> 16 then False
               else if opcode = OP_PUSHDATA1 \<and> length data < 0x4c then False
               else if opcode = OP_PUSHDATA2 \<and> length data \<le> 0xff then False
               else if opcode = OP_PUSHDATA4 \<and> length data \<le> 0xffff then False
               else HasCanonicalPushes pc')"
  by pat_completeness auto
termination
  by (relation "measure length") (auto dest: GetOp2_shorter)

declare HasCanonicalPushes.simps [simp del]

section \<open>Instructions\<close>

text \<open>What \<open>GetOp2\<close> does behind the opcode: read a size of \<open>k\<close> bytes, then that many bytes.\<close>

definition sized_data :: "byte \<Rightarrow> nat \<Rightarrow> bytes \<Rightarrow> (byte \<times> bytes \<times> bytes) option" where
  "sized_data opcode k pc =
     (if length pc < k then None
      else let nSize = le_val (take k pc); pc = drop k pc
           in if length pc < nSize then None else Some (opcode, take nSize pc, drop nSize pc))"

lemma GetOp2_Nil [simp]: "GetOp2 [] = None"
  by (simp add: GetOp2_def)

lemma GetOp2_plain: "\<not> c \<le> OP_PUSHDATA4 \<Longrightarrow> GetOp2 (c # pc) = Some (c, [], pc)"
  by (simp add: GetOp2_def)

lemma GetOp2_short:
  "c < OP_PUSHDATA1 \<Longrightarrow> GetOp2 (c # pc) =
    (if length pc < unat c then None else Some (c, take (unat c) pc, drop (unat c) pc))"
  using order.strict_implies_order [of c "OP_PUSHDATA1"] order_trans [of c "OP_PUSHDATA1" "OP_PUSHDATA4"]
  by (simp add: GetOp2_def)

lemma GetOp2_sized:
  "GetOp2 (OP_PUSHDATA1 # pc) = sized_data OP_PUSHDATA1 1 pc"
  "GetOp2 (OP_PUSHDATA2 # pc) = sized_data OP_PUSHDATA2 2 pc"
  "GetOp2 (OP_PUSHDATA4 # pc) = sized_data OP_PUSHDATA4 4 pc"
  by (simp_all add: GetOp2_def sized_data_def Let_def)

lemma opcode_cases:
  fixes c :: byte
  obtains "\<not> c \<le> OP_PUSHDATA4" | "c < OP_PUSHDATA1" | "c = OP_PUSHDATA1" | "c = OP_PUSHDATA2" | "c = OP_PUSHDATA4"
proof -
  have "unat c = 0x4c \<or> unat c = 0x4d \<or> unat c = 0x4e" if "c \<le> OP_PUSHDATA4" "\<not> c < OP_PUSHDATA1"
    using that by (auto simp: word_le_nat_alt word_less_nat_alt)
  then show thesis using that by (auto simp: word_unat_eq_iff)
qed

lemma sized_data_append:
  "sized_data c k pc = Some (opcode, vch, r) \<Longrightarrow> sized_data c k (pc @ rest) = Some (opcode, vch, r @ rest)"
  by (auto simp: sized_data_def Let_def split: if_splits)

lemma GetOp2_append:
  assumes "GetOp2 x = Some (opcode, vch, r)"
  shows "GetOp2 (x @ rest) = Some (opcode, vch, r @ rest)"
proof (cases x)
  case Nil
  then show ?thesis using assms by simp
next
  case (Cons c pc)
  show ?thesis
    by (cases c rule: opcode_cases)
      (use assms in \<open>auto simp: Cons GetOp2_plain GetOp2_short GetOp2_sized sized_data_append split: if_splits\<close>)
qed

lemma GetOp2_push:
  assumes "length b < 2 ^ 32"
  shows "GetOp2 (push_bytes b @ rest) = Some (hd (push_bytes b), b, rest)"
    and "hd (push_bytes b) \<le> OP_PUSHDATA4"
proof -
  have small: "unat (of_nat (length b) :: byte) = length b" if "length b \<le> 0xff"
    using that by (simp add: unat_of_nat)
  have lt: "(of_nat (length b) :: byte) < 0x4c" if "length b < 0x4c"
    using that small by (simp add: word_less_nat_alt)
  have two: "le_val (le_bytes 2 (length b)) = length b" if "length b \<le> 0xffff"
    using that by (intro le_val_le_bytes) simp
  have four: "le_val (le_bytes 4 (length b)) = length b"
    using assms by (intro le_val_le_bytes) simp
  have le: "(of_nat (length b) :: byte) \<le> 0x4e" if "length b < 0x4c"
    using small that by (simp add: word_le_nat_alt)
  consider "length b < 0x4c" | "0x4c \<le> length b" "length b \<le> 0xff"
    | "0xff < length b" "length b \<le> 0xffff" | "0xffff < length b" by linarith
  then have "GetOp2 (push_bytes b @ rest) = Some (hd (push_bytes b), b, rest) \<and> hd (push_bytes b) \<le> OP_PUSHDATA4"
  proof cases
    case 1
    then show ?thesis using small lt le by (simp add: push_bytes_def GetOp2_short)
  next
    case 2
    then show ?thesis using small by (simp add: push_bytes_def GetOp2_sized sized_data_def)
  next
    case 3
    then show ?thesis using two by (simp add: push_bytes_def GetOp2_sized sized_data_def)
  next
    case 4
    then show ?thesis using four by (simp add: push_bytes_def GetOp2_sized sized_data_def)
  qed
  then show "GetOp2 (push_bytes b @ rest) = Some (hd (push_bytes b), b, rest)"
    and "hd (push_bytes b) \<le> OP_PUSHDATA4" by blast+
qed

lemma push_opcode: "length b < 2 ^ 32 \<Longrightarrow> \<not> OP_16 < hd (push_bytes b)"
  by (rule leD, rule order_trans [OF GetOp2_push(2)]) simp_all

lemma push_bytes_not_Nil [simp]: "push_bytes b \<noteq> []"
  by (simp add: push_bytes_def)

lemma IsPushOnly_push:
  "length b < 2 ^ 32 \<Longrightarrow> IsPushOnly (push_bytes b @ rest) = IsPushOnly rest"
  using GetOp2_push(1) [of b rest] push_opcode [of b] by (subst IsPushOnly.simps) simp

lemma last_push_push:
  "length b < 2 ^ 32 \<Longrightarrow> last_push d (push_bytes b @ rest) = last_push b rest"
  using GetOp2_push(1) [of b rest] push_opcode [of b] by (subst last_push.simps) simp

lemma pushes_only:
  "list_all (\<lambda>b. length b < 2 ^ 32) bs \<Longrightarrow> IsPushOnly (concat (map push_bytes bs))
    \<and> last_push d (concat (map push_bytes bs)) = Some (last (d # bs))"
proof (induction bs arbitrary: d)
  case Nil
  then show ?case by (subst IsPushOnly.simps, subst last_push.simps) simp
next
  case (Cons b bs)
  then show ?case by (simp add: IsPushOnly_push last_push_push)
qed

text \<open>A byte string that is one whole instruction. No instruction is a proper prefix of another.\<close>

definition is_instr :: "bytes \<Rightarrow> bool" where
  "is_instr x \<longleftrightarrow> (case GetOp2 x of Some (opcode, vch, r) \<Rightarrow> r = [] | None \<Rightarrow> False)"

lemma is_instrE:
  assumes "is_instr x"
  obtains opcode vch where "\<And>rest. GetOp2 (x @ rest) = Some (opcode, vch, rest)"
proof -
  obtain opcode vch where "GetOp2 x = Some (opcode, vch, [])"
    using assms by (auto simp: is_instr_def split: option.splits)
  then have "\<And>rest. GetOp2 (x @ rest) = Some (opcode, vch, rest)" by (simp add: GetOp2_append)
  then show thesis by (rule that)
qed

lemma is_instr_push: "length b < 2 ^ 32 \<Longrightarrow> is_instr (push_bytes b)"
  using GetOp2_push(1) [of b "[]"] by (simp add: is_instr_def)

lemma is_instr_not_Nil: "is_instr x \<Longrightarrow> x \<noteq> []"
  by (auto simp: is_instr_def GetOp2_def)

lemma is_instr_prefix:
  assumes "is_instr x" "is_instr y" "take (length y) (x @ rest) = y"
  shows "x = y"
proof -
  obtain o1 v1 where x: "\<And>rest. GetOp2 (x @ rest) = Some (o1, v1, rest)" using is_instrE [OF assms(1)] by blast
  obtain o2 v2 where y: "\<And>rest. GetOp2 (y @ rest) = Some (o2, v2, rest)" using is_instrE [OF assms(2)] by blast
  have eq: "x @ rest = y @ drop (length y) (x @ rest)"
    by (metis assms(3) append_take_drop_id)
  define r where "r = drop (length y) (x @ rest)"
  have eq: "x @ rest = y @ r" using eq unfolding r_def .
  then have "r = rest" using x [of rest] y [of r] by simp
  then show ?thesis using eq by simp
qed

lemma erase_at_instr:
  assumes "is_instr b" "is_instr x"
  shows "erase_at b (x @ rest) = (if x = b then apfst Suc (erase_at b rest) else (0, x @ rest))"
proof (cases "x = b")
  case True
  then show ?thesis using is_instr_not_Nil [OF assms(1)]
    by (subst erase_at.simps) (simp add: Let_def apfst_def map_prod_def split: prod.splits)
next
  case False
  then have "take (length b) (x @ rest) \<noteq> b" using is_instr_prefix [OF assms(2,1)] by blast
  then show ?thesis using False by (subst erase_at.simps) simp
qed

lemma erase_at_Nil [simp]: "erase_at b [] = (0, [])"
  by (subst erase_at.simps) auto

lemma fad_loop_Nil [simp]: "fad_loop b [] = (0, [])"
  by (subst fad_loop.simps) (simp add: GetOp2_def)

lemma fad_loop_instr:
  assumes b: "is_instr b" and x: "is_instr x"
  shows "fad_loop b (x @ rest) =
    (if x = b then apfst Suc (fad_loop b rest) else apsnd ((@) x) (fad_loop b rest))"
proof (cases "x = b")
  case True
  obtain k pc where e: "erase_at b rest = (k, pc)" by (cases "erase_at b rest")
  then have "erase_at b (b @ rest) = (Suc k, pc)" using erase_at_instr [OF b b] by simp
  then have "fad_loop b (b @ rest) = apfst Suc (case GetOp2 pc of None \<Rightarrow> (k, pc)
      | Some (opcode, vch, pc') \<Rightarrow>
          let (k', rest) = fad_loop b pc' in (k + k', take (length pc - length pc') pc @ rest))"
    by (subst fad_loop.simps) (simp split: option.split prod.split)
  also have "(case GetOp2 pc of None \<Rightarrow> (k, pc)
      | Some (opcode, vch, pc') \<Rightarrow>
          let (k', rest) = fad_loop b pc' in (k + k', take (length pc - length pc') pc @ rest))
      = fad_loop b rest"
    by (subst (2) fad_loop.simps) (simp add: e)
  finally show ?thesis using True by simp
next
  case False
  obtain o1 v1 where "\<And>rest. GetOp2 (x @ rest) = Some (o1, v1, rest)" using is_instrE [OF x] by blast
  then have "GetOp2 (x @ rest) = Some (o1, v1, rest)" by blast
  moreover have "erase_at b (x @ rest) = (0, x @ rest)" using False erase_at_instr [OF b x, of rest] by simp
  ultimately have "fad_loop b (x @ rest) = (case fad_loop b rest of (k', r) \<Rightarrow> (k', x @ r))"
    by (subst fad_loop.simps) simp
  then show ?thesis using False by (cases "fad_loop b rest") simp
qed

lemma fad_loop_concat:
  "is_instr b \<Longrightarrow> list_all is_instr xs \<Longrightarrow>
   fad_loop b (concat xs) = (count_list xs b, concat (removeAll b xs))"
proof (induction xs)
  case (Cons x xs)
  then show ?case using fad_loop_instr [of b x "concat xs"] by simp
qed simp

section \<open>Counting signature operations\<close>

lemma DecodeOP_N_bound: "c \<ge> OP_1 \<Longrightarrow> c \<le> OP_16 \<Longrightarrow> the (DecodeOP_N c) \<le> 16"
  by (auto simp: DecodeOP_N_def word_le_nat_alt)

lemma sigops_accurate_le: "sigops_loop True l pc \<le> sigops_loop False l pc"
proof (induction False l pc rule: sigops_loop.induct)
  case (1 l pc)
  show ?case
  proof (cases "GetOp2 pc")
    case None
    then show ?thesis by (subst (1 2) sigops_loop.simps) simp
  next
    case (Some x)
    obtain c v pc' where x: "x = (c, v, pc')" by (cases x)
    have "sigops_loop True c pc' \<le> sigops_loop False c pc'" using 1 Some x by blast
    moreover have "the (DecodeOP_N l) \<le> 20" if "OP_1 \<le> l" "l \<le> OP_16" using DecodeOP_N_bound [OF that] by simp
    ultimately show ?thesis
      by (auto simp: sigops_loop.simps [of True l pc] sigops_loop.simps [of False l pc] Some x intro: add_mono)
  qed
qed

lemma sigops_length: "sigops_loop False l pc \<le> 20 * length pc"
proof (induction False l pc rule: sigops_loop.induct)
  case (1 l pc)
  show ?case
  proof (cases "GetOp2 pc")
    case None
    then show ?thesis by (subst sigops_loop.simps) simp
  next
    case (Some x)
    obtain c v pc' where x: "x = (c, v, pc')" by (cases x)
    have "sigops_loop False c pc' \<le> 20 * length pc'" using 1 Some x by blast
    moreover have "length pc' < length pc" using Some x GetOp2_shorter by simp
    ultimately show ?thesis by (simp add: sigops_loop.simps [of False l pc] Some x)
  qed
qed

section \<open>Properties\<close>

text \<open>C15: data pushed with \<open>operator<<\<close> is read back by \<open>GetOp\<close>, whichever of the four push forms
  its size needs, and the parser stops exactly behind it; a script that is a sequence of pushes
  is push-only and its last data is the last thing pushed.\<close>

theorem CScript_push_roundtrip:
  assumes "list_all (\<lambda>b. length b < 2 ^ 32) (b # bs)"
  shows "GetOp2 (push_bytes b @ rest) = Some (hd (push_bytes b), b, rest)
    \<and> hd (push_bytes b) \<le> OP_PUSHDATA4
    \<and> IsPushOnly (concat (map push_bytes (b # bs)))
    \<and> last_push [] (concat (map push_bytes (b # bs))) = Some (last (b # bs))"
proof -
  have "length b < 2 ^ 32" using assms by simp
  then show ?thesis
    using GetOp2_push [of b] pushes_only [OF assms, of "[]"] by simp
qed

theorem CScript_push_roundtrip_witness:
  "GetOp2 (push_bytes [7, 8] @ [0x51]) = Some (2, [7, 8], [0x51])
    \<and> IsPushOnly (push_bytes [7, 8] @ push_bytes [9])
    \<and> last_push [] (push_bytes [7, 8] @ push_bytes [9]) = Some [9]"
  using CScript_push_roundtrip [of "[7, 8]" "[[9]]" "[0x51]"] by (simp add: push_bytes_def)

text \<open>C16: on a script that is a sequence of whole instructions, \<open>FindAndDelete\<close> of an instruction
  removes exactly its occurrences as an instruction, and counts them: bytes that look like it
  inside the data of another instruction stay.\<close>

theorem FindAndDelete_instructions:
  assumes "is_instr b" "list_all is_instr xs"
  shows "FindAndDelete (concat xs) b = (count_list xs b, concat (removeAll b xs))"
  using fad_loop_concat [OF assms] is_instr_not_Nil [OF assms(1)] by (simp add: FindAndDelete_def)

theorem FindAndDelete_instructions_witness:
  "FindAndDelete [0xab, 2, 0xab, 7, 0xab, 0x51] [0xab] = (2, [2, 0xab, 7, 0x51])"
proof -
  have "is_instr [0xab]" "list_all is_instr [[0xab], [2, 0xab, 7], [0xab], [0x51 :: byte]]"
    by (simp_all add: is_instr_def GetOp2_def)
  from FindAndDelete_instructions [OF this] show ?thesis by simp
qed

text \<open>The accurate count of signature operations never exceeds the legacy count, which is at
  most twenty per byte of script.\<close>

theorem GetSigOpCount_bounds:
  "GetSigOpCount script True \<le> GetSigOpCount script False \<and> GetSigOpCount script False \<le> 20 * length script"
  by (simp add: GetSigOpCount_def sigops_accurate_le sigops_length)

end
