(* ===== verification/Key.thy ===== *)
theory Key
  imports Serialize Bignum
begin

text \<open>
  Hashing (\<open>src/src/hash.h\<close>) and public keys (\<open>CPubKey\<close> of \<open>src/src/key.h\<close> and
  \<open>src/src/key.cpp\<close>). The digests and the elliptic curve are OpenSSL's, a parameter: the record
  \<open>crypto\<close> has the digest functions and the four functions \<open>CPubKey::Verify\<close> calls, on abstract
  types \<open>'k\<close> of parsed keys and \<open>'g\<close> of parsed signatures. The predicate \<open>digest_lengths\<close>
  states their documented output lengths.
\<close>

unbundle bit_operations_syntax

record ('k, 'g) crypto =
  SHA256 :: "bytes \<Rightarrow> bytes"
  SHA1 :: "bytes \<Rightarrow> bytes"
  RIPEMD160 :: "bytes \<Rightarrow> bytes"
  o2i_ECPublicKey :: "bytes \<Rightarrow> 'k option"
  d2i_ECDSA_SIG :: "bytes \<Rightarrow> 'g option"
  i2d_ECDSA_SIG :: "'g \<Rightarrow> bytes"
  ECDSA_verify :: "bytes \<Rightarrow> bytes \<Rightarrow> 'k \<Rightarrow> int"

section \<open>Hashes\<close>

definition Hash :: "('k, 'g) crypto \<Rightarrow> bytes \<Rightarrow> base_uint" where
  "Hash C b = limbs_of_bytes (SHA256 C (SHA256 C b))"

text \<open>The forms over two and three ranges hash their concatenation; \<open>SerializeHash\<close> and
  \<open>CHashWriter\<close> feed the serialized bytes to the same double digest.\<close>

definition Hash2 :: "('k, 'g) crypto \<Rightarrow> bytes \<Rightarrow> bytes \<Rightarrow> base_uint" where
  "Hash2 C b1 b2 = limbs_of_bytes (SHA256 C (SHA256 C (b1 @ b2)))"

definition SerializeHash :: "('k, 'g) crypto \<Rightarrow> ('a \<Rightarrow> bytes) \<Rightarrow> 'a \<Rightarrow> base_uint" where
  "SerializeHash C ser obj = limbs_of_bytes (SHA256 C (SHA256 C (ser obj)))"

definition Hash160 :: "('k, 'g) crypto \<Rightarrow> bytes \<Rightarrow> base_uint" where
  "Hash160 C b = limbs_of_bytes (RIPEMD160 C (SHA256 C b))"

section \<open>Public keys\<close>

text \<open>A \<open>CPubKey\<close> is the used part of its buffer \<open>vbytes\<close>; the invalid key has the one byte
  \<open>0xff\<close>.\<close>

definition CPubKey_GetLen :: "byte \<Rightarrow> nat" where
  "CPubKey_GetLen chHeader =
     (if chHeader = 2 \<or> chHeader = 3 then 33
      else if chHeader = 4 \<or> chHeader = 6 \<or> chHeader = 7 then 65 else 0)"

definition CPubKey_Set :: "bytes \<Rightarrow> bytes" where
  "CPubKey_Set vch =
     (let len = (if vch = [] then 0 else CPubKey_GetLen (vch ! 0))
      in if len \<noteq> 0 \<and> len = length vch then take len vch else [0xff])"

definition CPubKey_size :: "bytes \<Rightarrow> nat" where
  "CPubKey_size vbytes = CPubKey_GetLen (vbytes ! 0)"

definition CPubKey_bytes :: "bytes \<Rightarrow> bytes" where
  "CPubKey_bytes vbytes = take (CPubKey_size vbytes) vbytes"

definition CPubKey_IsValid :: "bytes \<Rightarrow> bool" where
  "CPubKey_IsValid vbytes = (CPubKey_size vbytes > 0)"

definition CPubKey_IsCompressed :: "bytes \<Rightarrow> bool" where
  "CPubKey_IsCompressed vbytes = (CPubKey_size vbytes = 33)"

definition CPubKey_GetID :: "('k, 'g) crypto \<Rightarrow> bytes \<Rightarrow> base_uint" where
  "CPubKey_GetID C vbytes = Hash160 C (CPubKey_bytes vbytes)"

definition CPubKey_Verify :: "('k, 'g) crypto \<Rightarrow> bytes \<Rightarrow> base_uint \<Rightarrow> bytes \<Rightarrow> bool" where
  "CPubKey_Verify C vbytes hash vchSig =
     (if vchSig = [] \<or> \<not> CPubKey_IsValid vbytes then False
      else case o2i_ECPublicKey C (CPubKey_bytes vbytes) of None \<Rightarrow> False
           | Some pkey \<Rightarrow>
               (case d2i_ECDSA_SIG C vchSig of None \<Rightarrow> False
                | Some norm_sig \<Rightarrow>
                    let norm_der = i2d_ECDSA_SIG C norm_sig
                    in if norm_der = [] then False
                       else ECDSA_verify C (base_uint_getBytes hash) norm_der pkey = 1))"

definition ser_CPubKey :: "bytes \<Rightarrow> bytes" where
  "ser_CPubKey vbytes = WriteCompactSize (of_nat (CPubKey_size vbytes)) @ CPubKey_bytes vbytes"

section \<open>Signature elements\<close>

text \<open>The loops over the longer operand's leading bytes, then over the common length.\<close>

fun cmp_lead :: "int \<Rightarrow> bytes \<Rightarrow> nat \<Rightarrow> int + bytes" where
  "cmp_lead r (c # cs) n = (if length (c # cs) > n then if c \<noteq> 0 then Inl r else cmp_lead r cs n else Inr (c # cs))"
| "cmp_lead r [] n = Inr []"

fun cmp_common :: "bytes \<Rightarrow> bytes \<Rightarrow> int" where
  "cmp_common (a # c1) (b # c2) = (if a > b then 1 else if b > a then - 1 else cmp_common c1 c2)"
| "cmp_common c1 c2 = 0"

definition CompareBigEndian :: "bytes \<Rightarrow> bytes \<Rightarrow> int" where
  "CompareBigEndian c1 c2 =
     (case cmp_lead 1 c1 (length c2) of Inl r \<Rightarrow> r
      | Inr c1 \<Rightarrow> (case cmp_lead (- 1) c2 (length c1) of Inl r \<Rightarrow> r | Inr c2 \<Rightarrow> cmp_common c1 c2))"

definition vchMaxModOrder :: bytes where
  "vchMaxModOrder =
     [0xFF, 0xFF, 0xFF, 0xFF, 0xFF, 0xFF, 0xFF, 0xFF, 0xFF, 0xFF, 0xFF, 0xFF, 0xFF, 0xFF, 0xFF, 0xFE,
      0xBA, 0xAE, 0xDC, 0xE6, 0xAF, 0x48, 0xA0, 0x3B, 0xBF, 0xD2, 0x5E, 0x8C, 0xD0, 0x36, 0x41, 0x40]"

definition vchMaxModHalfOrder :: bytes where
  "vchMaxModHalfOrder =
     [0x7F, 0xFF, 0xFF, 0xFF, 0xFF, 0xFF, 0xFF, 0xFF, 0xFF, 0xFF, 0xFF, 0xFF, 0xFF, 0xFF, 0xFF, 0xFF,
      0x5D, 0x57, 0x6E, 0x73, 0x57, 0xA4, 0x50, 0x1D, 0xDF, 0xE9, 0x2F, 0x46, 0x68, 0x1B, 0x20, 0xA0]"

definition CheckSignatureElement :: "bytes \<Rightarrow> bool \<Rightarrow> bool" where
  "CheckSignatureElement vch half =
     (CompareBigEndian vch [] > 0
      \<and> CompareBigEndian vch (if half then vchMaxModHalfOrder else vchMaxModOrder) \<le> 0)"

section \<open>What the digests promise\<close>

definition digest_lengths :: "('k, 'g) crypto \<Rightarrow> bool" where
  "digest_lengths C \<longleftrightarrow>
     (\<forall>b. length (SHA256 C b) = 32 \<and> length (SHA1 C b) = 20 \<and> length (RIPEMD160 C b) = 20)"

text \<open>A concrete library for the examples: it pads or cuts instead of hashing, and accepts the
  signature that repeats the last byte of the key.\<close>

definition sample_crypto :: "(bytes, bytes) crypto" where
  "sample_crypto =
     \<lparr> SHA256 = \<lambda>b. take 32 (b @ replicate 32 0), SHA1 = \<lambda>b. take 20 (b @ replicate 20 1),
       RIPEMD160 = \<lambda>b. take 20 (b @ replicate 20 2), o2i_ECPublicKey = \<lambda>b. Some b,
       d2i_ECDSA_SIG = \<lambda>b. Some b, i2d_ECDSA_SIG = \<lambda>b. b,
       ECDSA_verify = \<lambda>h sg key. if sg = [last key] then 1 else 0 \<rparr>"

lemma sample_digest_lengths: "digest_lengths sample_crypto"
  by (auto simp: digest_lengths_def sample_crypto_def min_def)

section \<open>Byte strings as numbers\<close>

lemma cmp_lead_short [simp]: "length c \<le> n \<Longrightarrow> cmp_lead r c n = Inr c"
  by (cases c) auto

lemma cmp_lead_long:
  "n \<le> length c \<Longrightarrow>
   (case cmp_lead r c n of Inl r' \<Rightarrow> r' = r \<and> 256 ^ n \<le> be_val c
    | Inr c' \<Rightarrow> length c' = n \<and> be_val c' = be_val c)"
proof (induction c)
  case (Cons a c)
  consider "n = Suc (length c)" | "n \<le> length c" "a = 0" | "n \<le> length c" "a \<noteq> 0" using Cons.prems by force
  then show ?case
  proof cases
    case 2
    then show ?thesis using Cons.IH by (simp add: be_val_Cons split: sum.splits)
  next
    case 3
    then have "1 \<le> unat a" by (simp add: Suc_le_eq unat_gt_0)
    then have "256 ^ n \<le> unat a * 256 ^ length c"
      using mult_le_mono [of 1 "unat a" "256 ^ n" "256 ^ length c"] power_increasing [OF 3(1), of "256 :: nat"] by simp
    then show ?thesis using 3 by (simp add: be_val_Cons)
  qed simp
qed simp

lemma cmp_common_sgn:
  "length c1 = length c2 \<Longrightarrow> cmp_common c1 c2 = sgn (int (be_val c1) - int (be_val c2))"
proof (induction c1 c2 rule: list_induct2)
  case (Cons a c1 b c2)
  let ?p = "256 ^ length c2 :: nat"
  have bounds: "be_val c1 < ?p" "be_val c2 < ?p" using be_val_bound [of c1] be_val_bound [of c2] Cons.hyps by simp_all
  have lead: "unat x * ?p + i < unat y * ?p + j" if "x < y" "i < ?p" for x y :: byte and i j
  proof -
    have "Suc (unat x) * ?p \<le> unat y * ?p" using that(1) by (intro mult_le_mono1) (simp add: word_less_nat_alt)
    then show ?thesis using that(2) by simp
  qed
  show ?case
  proof (cases a b rule: linorder_cases)
    case less
    then show ?thesis using lead [of a b "be_val c1" "be_val c2"] bounds Cons.hyps
      by (auto simp: be_val_Cons simp flip: of_nat_mult of_nat_add of_nat_power)
  next
    case equal
    then show ?thesis using Cons by (simp add: be_val_Cons)
  next
    case greater
    then show ?thesis using lead [of b a "be_val c2" "be_val c1"] bounds Cons.hyps
      by (auto simp: be_val_Cons simp flip: of_nat_mult of_nat_add of_nat_power)
  qed
qed simp

lemma CompareBigEndian_sgn: "CompareBigEndian c1 c2 = sgn (int (be_val c1) - int (be_val c2))"
proof (cases "length c2 \<le> length c1")
  case True
  show ?thesis
  proof (cases "cmp_lead 1 c1 (length c2)")
    case (Inl r)
    then have "r = 1" "be_val c2 < be_val c1"
      using cmp_lead_long [OF True, of 1] be_val_bound [of c2] by auto
    then show ?thesis using Inl by (simp add: CompareBigEndian_def)
  next
    case (Inr c)
    then have "length c = length c2" "be_val c = be_val c1" using cmp_lead_long [OF True, of 1] by auto
    then show ?thesis using Inr by (simp add: CompareBigEndian_def cmp_common_sgn)
  qed
next
  case False
  then have le: "length c1 \<le> length c2" by simp
  show ?thesis
  proof (cases "cmp_lead (- 1) c2 (length c1)")
    case (Inl r)
    then have "r = - 1" "be_val c1 < be_val c2"
      using cmp_lead_long [OF le, of "- 1"] be_val_bound [of c1] by auto
    then show ?thesis using Inl le by (simp add: CompareBigEndian_def)
  next
    case (Inr c)
    then have "length c = length c1" "be_val c = be_val c2" using cmp_lead_long [OF le, of "- 1"] by auto
    then show ?thesis using Inr le by (simp add: CompareBigEndian_def cmp_common_sgn)
  qed
qed

definition secp256k1_order :: nat where
  "secp256k1_order = 0xFFFFFFFFFFFFFFFFFFFFFFFFFFFFFFFEBAAEDCE6AF48A03BBFD25E8CD0364141"

lemma order_values:
  "be_val vchMaxModOrder = secp256k1_order - 1" "be_val vchMaxModHalfOrder = secp256k1_order div 2"
  by (simp_all add: be_val_def vchMaxModOrder_def vchMaxModHalfOrder_def secp256k1_order_def)

section \<open>Properties\<close>

text \<open>C17: \<open>CompareBigEndian\<close> compares the numbers two byte strings stand for, whatever their lengths
  and leading zeros; so \<open>CheckSignatureElement\<close> accepts exactly the elements from 1 to the order
  of the group minus one, or to half of the order.\<close>

theorem CheckSignatureElement_range:
  "CompareBigEndian c1 c2 = sgn (int (be_val c1) - int (be_val c2))
   \<and> CheckSignatureElement vch half
     = (0 < be_val vch \<and> be_val vch \<le> (if half then secp256k1_order div 2 else secp256k1_order - 1))"
proof -
  have le: "sgn (int a - int b) \<le> 0 \<longleftrightarrow> a \<le> b" for a b by (simp add: sgn_if)
  have "CheckSignatureElement vch half = (0 < be_val vch \<and>
      be_val vch \<le> be_val (if half then vchMaxModHalfOrder else vchMaxModOrder))"
    unfolding CheckSignatureElement_def CompareBigEndian_sgn le by (simp add: sgn_if)
  then show ?thesis by (simp add: CompareBigEndian_sgn order_values)
qed

end
