(* ===== verification/Solver.thy ===== *)
theory Solver
  imports Script Key
begin

text \<open>
  Recognition and construction of standard output scripts: the rest of \<open>src/src/script.cpp\<close> that
  does not evaluate scripts. \<open>Solver\<close> matches a script against the templates and returns the
  data it found; \<open>CScript::SetDestination\<close> and \<open>CScript::SetMultisig\<close> build such scripts.
\<close>

unbundle bit_operations_syntax

datatype txnouttype =
    TX_NONSTANDARD | TX_PUBKEY | TX_PUBKEY_DROP | TX_PUBKEYHASH | TX_SCRIPTHASH | TX_MULTISIG | TX_NULL_DATA

text \<open>\<open>None\<close> is the exception for an operand above four bytes.\<close>

definition CastToBigNum :: "'b bn_lib \<Rightarrow> bytes \<Rightarrow> 'b option" where
  "CastToBigNum L vch =
     (if length vch > 4 then None
      else Some (CBigNum_setvch L (CBigNum_getvch L (CBigNum_setvch L vch))))"

section \<open>Template matching\<close>

text \<open>The templates in the order of the map's keys.\<close>

definition mTemplates :: "(txnouttype \<times> bytes) list" where
  "mTemplates =
     [(TX_PUBKEY, [OP_PUBKEY, OP_CHECKSIG]),
      (TX_PUBKEY_DROP, [OP_PUBKEY, OP_PUBKEY, OP_DROP, OP_CHECKSIG]),
      (TX_PUBKEYHASH, [OP_DUP, OP_HASH160, OP_PUBKEYHASH, OP_EQUALVERIFY, OP_CHECKSIG]),
      (TX_MULTISIG, [OP_SMALLINTEGER, OP_PUBKEYS, OP_SMALLINTEGER, OP_CHECKMULTISIG]),
      (TX_NULL_DATA, [OP_RETURN, OP_SMALLDATA])]"

text \<open>The loop over the public keys ends at the first push that is no key, or when no instruction
  can be read, which leaves the invalid opcode and no data.\<close>

function pubkeys_loop :: "byte \<Rightarrow> bytes \<Rightarrow> bytes \<Rightarrow> bytes list \<Rightarrow> byte \<times> bytes \<times> bytes \<times> bytes list" where
  "pubkeys_loop opcode1 vch1 pc1 vSolutions =
     (if 33 \<le> length vch1 \<and> length vch1 \<le> 120
      then case GetOp2 pc1 of
             None \<Rightarrow> (OP_INVALIDOPCODE, [], pc1, vSolutions @ [vch1])
           | Some (opcode1, vch1', pc1') \<Rightarrow> pubkeys_loop opcode1 vch1' pc1' (vSolutions @ [vch1])
      else (opcode1, vch1, pc1, vSolutions))"
  by pat_completeness auto
termination
  by (relation "measure (\<lambda>(o1, v1, pc1, s). length pc1)") (auto dest: GetOp2_shorter)

declare pubkeys_loop.simps [simp del]

text \<open>One instruction against one template opcode: the solutions with what it contributes, or
  \<open>None\<close> for a mismatch.\<close>

definition match_op :: "'b bn_lib \<Rightarrow> byte \<Rightarrow> bytes \<Rightarrow> byte \<Rightarrow> bytes \<Rightarrow> bytes list \<Rightarrow> bytes list option" where
  "match_op L opcode1 vch1 opcode2 vch2 vSolutions =
     (if opcode2 = OP_PUBKEY
      then (if length vch1 < 33 \<or> length vch1 > 120 then None else Some (vSolutions @ [vch1]))
      else if opcode2 = OP_PUBKEYHASH
      then (if length vch1 \<noteq> 20 then None else Some (vSolutions @ [vch1]))
      else if opcode2 = OP_SMALLINTEGER
      then (if opcode1 = OP_0 \<or> opcode1 \<ge> OP_1 \<and> opcode1 \<le> OP_16
            then map_option (\<lambda>v. vSolutions @ [[of_nat v]]) (DecodeOP_N opcode1)
            else None)
      else if opcode2 = OP_INTEGER
      then (case CastToBigNum L vch1 of None \<Rightarrow> None
            | Some bnVal \<Rightarrow> if CBigNum_le L bnVal (CBigNum_of_int32 L 16) then None
                            else Some (vSolutions @ [vch1]))
      else if opcode2 = OP_SMALLDATA
      then (if length vch1 > 1024 then None else Some vSolutions)
      else if opcode1 \<noteq> opcode2 \<or> vch1 \<noteq> vch2 then None else Some vSolutions)"

function match_loop :: "'b bn_lib \<Rightarrow> bytes \<Rightarrow> bytes \<Rightarrow> bytes list \<Rightarrow> bytes list option" where
  "match_loop L pc1 pc2 vSolutions =
     (if pc1 = [] \<and> pc2 = [] then Some vSolutions
      else case GetOp2 pc1 of None \<Rightarrow> None
           | Some (opcode1, vch1, pc1') \<Rightarrow>
             (case GetOp2 pc2 of None \<Rightarrow> None
              | Some (opcode2, vch2, pc2') \<Rightarrow>
                  if opcode2 = OP_PUBKEYS
                  then let (opcode1, vch1, pc1'', vSolutions) = pubkeys_loop opcode1 vch1 pc1' vSolutions
                       in case GetOp2 pc2' of None \<Rightarrow> None
                          | Some (opcode2, vch2, pc2'') \<Rightarrow>
                              (case match_op L opcode1 vch1 opcode2 vch2 vSolutions of None \<Rightarrow> None
                               | Some vSolutions \<Rightarrow> match_loop L pc1'' pc2'' vSolutions)
                  else (case match_op L opcode1 vch1 opcode2 vch2 vSolutions of None \<Rightarrow> None
                        | Some vSolutions \<Rightarrow> match_loop L pc1' pc2' vSolutions)))"
  by pat_completeness auto
termination
  by (relation "measure (\<lambda>(L, pc1, pc2, s). length pc2)") (force dest: GetOp2_shorter)+

declare match_loop.simps [simp del]

fun scan_templates :: "'b bn_lib \<Rightarrow> bytes \<Rightarrow> (txnouttype \<times> bytes) list \<Rightarrow> bool \<times> txnouttype \<times> bytes list" where
  "scan_templates L script1 [] = (False, TX_NONSTANDARD, [])"
| "scan_templates L script1 ((t, script2) # ts) =
     (case match_loop L script1 script2 [] of
        None \<Rightarrow> scan_templates L script1 ts
      | Some vSolutions \<Rightarrow>
          if t = TX_MULTISIG
          then let m = hd vSolutions ! 0; k = last vSolutions ! 0
               in (\<not> (m < 1 \<or> k < 1 \<or> m > k \<or> length vSolutions - 2 \<noteq> unat k), t, vSolutions)
          else (True, t, vSolutions))"

definition Solver :: "'b bn_lib \<Rightarrow> bytes \<Rightarrow> bool \<times> txnouttype \<times> bytes list" where
  "Solver L script =
     (if IsPayToScriptHash script then (True, TX_SCRIPTHASH, [take 20 (drop 2 script)])
      else if length script \<ge> 1 \<and> script ! 0 = OP_RETURN \<and> IsPushOnly (drop 1 script)
      then (True, TX_NULL_DATA, [])
      else scan_templates L script mTemplates)"

definition ScriptSigArgsExpected :: "txnouttype \<Rightarrow> bytes list \<Rightarrow> int" where
  "ScriptSigArgsExpected t vSolutions =
     (case t of
        TX_NONSTANDARD \<Rightarrow> - 1
      | TX_NULL_DATA \<Rightarrow> 1
      | TX_PUBKEY \<Rightarrow> 1
      | TX_PUBKEY_DROP \<Rightarrow> 1
      | TX_PUBKEYHASH \<Rightarrow> 2
      | TX_MULTISIG \<Rightarrow>
          if length vSolutions < 1 \<or> length (vSolutions ! 0) < 1 then - 1
          else int (unat (vSolutions ! 0 ! 0)) + 1
      | TX_SCRIPTHASH \<Rightarrow> 1)"

definition IsStandard :: "'b bn_lib \<Rightarrow> bytes \<Rightarrow> bool" where
  "IsStandard L script =
     (case Solver L script of
        (False, whichType, vSolutions) \<Rightarrow> False
      | (True, whichType, vSolutions) \<Rightarrow>
          if whichType = TX_MULTISIG
          then let m = hd vSolutions ! 0; k = last vSolutions ! 0
               in if k < 1 \<or> k > 3 then False
                  else if m < 1 \<or> m > k then False
                  else True
          else whichType \<noteq> TX_NONSTANDARD)"

section \<open>Destinations\<close>

datatype CTxDestination = CNoDestination | CKeyID base_uint | CScriptID base_uint

definition ExtractDestination :: "('k, 'g) crypto \<Rightarrow> 'b bn_lib \<Rightarrow> bytes \<Rightarrow> CTxDestination option" where
  "ExtractDestination C L script =
     (case Solver L script of
        (False, whichType, vSolutions) \<Rightarrow> None
      | (True, whichType, vSolutions) \<Rightarrow>
          if whichType = TX_PUBKEY then Some (CKeyID (CPubKey_GetID C (CPubKey_Set (vSolutions ! 0))))
          else if whichType = TX_PUBKEYHASH
          then Some (CKeyID (base_uint_of_vch uint160_WIDTH (vSolutions ! 0)))
          else if whichType = TX_SCRIPTHASH
          then Some (CScriptID (base_uint_of_vch uint160_WIDTH (vSolutions ! 0)))
          else None)"

definition ExtractDestinations ::
  "('k, 'g) crypto \<Rightarrow> 'b bn_lib \<Rightarrow> bytes \<Rightarrow> (txnouttype \<times> CTxDestination list \<times> nat) option" where
  "ExtractDestinations C L script =
     (case Solver L script of
        (False, typeRet, vSolutions) \<Rightarrow> None
      | (True, typeRet, vSolutions) \<Rightarrow>
          if typeRet = TX_NULL_DATA then Some (typeRet, [], 0)
          else if typeRet = TX_MULTISIG
          then Some (typeRet,
                 map (\<lambda>v. CKeyID (CPubKey_GetID C (CPubKey_Set v))) (butlast (tl vSolutions)),
                 unat (hd vSolutions ! 0))
          else if typeRet = TX_PUBKEY_DROP then Some (typeRet, [], 1)
          else case ExtractDestination C L script of None \<Rightarrow> None
               | Some address \<Rightarrow> Some (typeRet, [address], 1))"

definition SetDestination :: "CTxDestination \<Rightarrow> bytes" where
  "SetDestination dest =
     (case dest of
        CNoDestination \<Rightarrow> []
      | CKeyID keyID \<Rightarrow> [OP_DUP, OP_HASH160] @ push_uint160 keyID @ [OP_EQUALVERIFY, OP_CHECKSIG]
      | CScriptID scriptID \<Rightarrow> [OP_HASH160] @ push_uint160 scriptID @ [OP_EQUAL])"

text \<open>\<open>None\<close> is an assertion of \<open>EncodeOP_N\<close> failing.\<close>

definition SetMultisig :: "int \<Rightarrow> bytes list \<Rightarrow> bytes option" where
  "SetMultisig nRequired keys =
     (case EncodeOP_N nRequired of None \<Rightarrow> None
      | Some m \<Rightarrow>
          (case EncodeOP_N (int (length keys)) of None \<Rightarrow> None
           | Some k \<Rightarrow>
               Some ([m] @ concat (map (\<lambda>key. push_bytes (CPubKey_bytes key)) keys)
                     @ [k] @ [OP_CHECKMULTISIG])))"

definition CScript_GetID :: "('k, 'g) crypto \<Rightarrow> bytes \<Rightarrow> base_uint" where
  "CScript_GetID C this = Hash160 C this"

section \<open>Matching\<close>

lemma match_loop_ends [simp]:
  "match_loop L [] [] s = Some s"
  "match_loop L [] (b # pc2) s = None"
  "match_loop L (a # pc1) [] s = None"
  by (subst match_loop.simps, simp split: option.split)+

lemma match_loop_Cons:
  "match_loop L (a # pc1) (b # pc2) s =
     (case GetOp2 (a # pc1) of None \<Rightarrow> None
      | Some (opcode1, vch1, pc1') \<Rightarrow>
        (case GetOp2 (b # pc2) of None \<Rightarrow> None
         | Some (opcode2, vch2, pc2') \<Rightarrow>
             if opcode2 = OP_PUBKEYS
             then let (opcode1, vch1, pc1'', s) = pubkeys_loop opcode1 vch1 pc1' s
                  in case GetOp2 pc2' of None \<Rightarrow> None
                     | Some (opcode2, vch2, pc2'') \<Rightarrow>
                         (case match_op L opcode1 vch1 opcode2 vch2 s of None \<Rightarrow> None
                          | Some s \<Rightarrow> match_loop L pc1'' pc2'' s)
             else (case match_op L opcode1 vch1 opcode2 vch2 s of None \<Rightarrow> None
                   | Some s \<Rightarrow> match_loop L pc1' pc2' s)))"
  by (subst match_loop.simps) simp

lemma not_p2sh_first: "script ! 0 \<noteq> OP_HASH160 \<Longrightarrow> \<not> IsPayToScriptHash script"
  by (simp add: IsPayToScriptHash_def)

lemma GetOp2_20: "length b = 20 \<Longrightarrow> GetOp2 (20 # b @ rest) = Some (20, b, rest)"
  by (simp add: GetOp2_short)

lemma Solver_pubkeyhash:
  assumes "length b = 20"
  shows "Solver L ([OP_DUP, OP_HASH160] @ (20 # b) @ [OP_EQUALVERIFY, OP_CHECKSIG]) = (True, TX_PUBKEYHASH, [b])"
  using assms
  by (simp add: Solver_def not_p2sh_first mTemplates_def match_loop_Cons GetOp2_plain GetOp2_20 match_op_def)

lemma Solver_scripthash:
  assumes "length b = 20"
  shows "Solver L ([OP_HASH160] @ (20 # b) @ [OP_EQUAL]) = (True, TX_SCRIPTHASH, [b])"
  using assms by (simp add: Solver_def IsPayToScriptHash_def nth_Cons' nth_append)

section \<open>Multisignature scripts\<close>

definition CPubKey_wf :: "bytes \<Rightarrow> bool" where
  "CPubKey_wf k \<longleftrightarrow> CPubKey_IsValid k \<and> length k = CPubKey_size k"

lemma CPubKey_wf_length: "CPubKey_wf k \<Longrightarrow> length k = 33 \<or> length k = 65"
  by (auto simp: CPubKey_wf_def CPubKey_IsValid_def CPubKey_size_def CPubKey_GetLen_def split: if_splits)

lemma CPubKey_wf_bytes: "CPubKey_wf k \<Longrightarrow> CPubKey_bytes k = k"
  by (simp add: CPubKey_wf_def CPubKey_bytes_def)

lemma CPubKey_wf_Set: "CPubKey_wf k \<Longrightarrow> CPubKey_Set k = k"
  using CPubKey_wf_length [of k] by (auto simp: CPubKey_wf_def CPubKey_Set_def CPubKey_size_def CPubKey_IsValid_def)

lemma pubkeys_loop_stop:
  "\<not> (33 \<le> length v \<and> length v \<le> 120) \<Longrightarrow> pubkeys_loop c v pc s = (c, v, pc, s)"
  by (subst pubkeys_loop.simps) auto

lemma pubkeys_loop_keys:
  assumes "list_all CPubKey_wf (k # ks)" "GetOp2 rest = Some (c', v', rest')"
    and "\<not> (33 \<le> length v' \<and> length v' \<le> 120)"
  shows "pubkeys_loop c k (concat (map push_bytes ks) @ rest) s = (c', v', rest', s @ k # ks)"
  using assms(1)
proof (induction ks arbitrary: c k s)
  case Nil
  then have "33 \<le> length k \<and> length k \<le> 120" using CPubKey_wf_length [of k] by auto
  then show ?case using assms(2) pubkeys_loop_stop [OF assms(3)] by (subst pubkeys_loop.simps) simp
next
  case (Cons k' ks)
  then have "33 \<le> length k \<and> length k \<le> 120" "length k' < 2 ^ 32"
    using CPubKey_wf_length [of k] CPubKey_wf_length [of k'] by auto
  then show ?case
    using Cons.IH [of k' "hd (push_bytes k')" "s @ [k]"] Cons.prems GetOp2_push(1) [of k']
    by (subst pubkeys_loop.simps) simp
qed

lemma EncodeOP_N_small:
  assumes "1 \<le> v" "v \<le> 16"
  shows "EncodeOP_N (int v) = Some (of_nat (0x50 + v))" "unat (of_nat (0x50 + v) :: byte) = 0x50 + v"
proof -
  show u: "unat (of_nat (0x50 + v) :: byte) = 0x50 + v" using assms by (simp only: unat_of_nat) simp
  have "word_of_int (0x51 + int v - 1) = (of_nat (0x50 + v) :: byte)" by simp
  then show "EncodeOP_N (int v) = Some (of_nat (0x50 + v))" using assms by (simp add: EncodeOP_N_def)
qed

lemma small_opcode:
  assumes "1 \<le> v" "v \<le> 16" "c = of_nat (0x50 + v)"
  shows "OP_1 \<le> c" "c \<le> OP_16" "\<not> c \<le> OP_PUSHDATA4" "DecodeOP_N c = Some v"
  using assms(1,2) EncodeOP_N_small(2) [OF assms(1,2)]
  unfolding assms(3) by (auto simp: word_le_nat_alt DecodeOP_N_def simp del: of_nat_add)

lemma Solver_multisig:
  assumes "1 \<le> m" "m \<le> length keys" "length keys \<le> 16" "list_all CPubKey_wf keys"
    and cm: "cm = of_nat (0x50 + m)" and ck: "ck = of_nat (0x50 + length keys)"
  shows "Solver L (cm # concat (map push_bytes keys) @ [ck, OP_CHECKMULTISIG])
    = (True, TX_MULTISIG, [of_nat m] # keys @ [[of_nat (length keys)]])"
proof -
  have m: "OP_1 \<le> cm" "cm \<le> OP_16" "\<not> cm \<le> OP_PUSHDATA4" "DecodeOP_N cm = Some m"
    using small_opcode [OF _ _ cm] assms(1-3) by simp_all
  have k: "OP_1 \<le> ck" "ck \<le> OP_16" "\<not> ck \<le> OP_PUSHDATA4" "DecodeOP_N ck = Some (length keys)"
    using small_opcode [OF _ _ ck] assms(1-3) by simp_all
  have ne: "cm \<noteq> OP_HASH160" "cm \<noteq> OP_RETURN" "cm \<noteq> OP_DUP" using m(2) by auto
  obtain k0 ks where keys: "keys = k0 # ks" using assms(1,2) by (cases keys) auto
  let ?rest = "[ck, OP_CHECKMULTISIG]"
  have g: "GetOp2 (push_bytes k0 @ concat (map push_bytes ks) @ ?rest)
      = Some (hd (push_bytes k0), k0, concat (map push_bytes ks) @ ?rest)"
    using CPubKey_wf_length [of k0] assms(4) keys by (intro GetOp2_push) auto
  obtain a pc where ap: "push_bytes k0 @ concat (map push_bytes ks) @ ?rest = a # pc"
    by (cases "push_bytes k0 @ concat (map push_bytes ks) @ ?rest") auto
  have p: "pubkeys_loop c k0 (concat (map push_bytes ks) @ ?rest) s = (ck, [], [OP_CHECKMULTISIG], s @ k0 # ks)" for c s
    by (rule pubkeys_loop_keys) (use assms(4) keys k(3) in \<open>simp_all add: GetOp2_plain\<close>)
  have u: "unat (of_nat m :: byte) = m" "unat (of_nat (length keys) :: byte) = length keys"
    using assms(1-3) by (simp_all add: unat_of_nat)
  have t: "match_loop L (cm # a # pc) [OP_SMALLINTEGER, OP_PUBKEYS, OP_SMALLINTEGER, OP_CHECKMULTISIG] []
      = Some ([of_nat m] # keys @ [[of_nat (length keys)]])"
    using m k g p keys ap
    by (simp add: match_loop_Cons GetOp2_plain match_op_def)
  have c: "(1 :: byte) \<le> of_nat m" "of_nat m \<le> (of_nat (length keys) :: byte)" "(1 :: byte) \<le> of_nat (length keys)"
    using u assms(1-3) by (simp_all add: word_le_nat_alt)
  have nz: "(of_nat m :: byte) \<noteq> 0" "(of_nat (length keys) :: byte) \<noteq> 0" using c by auto
  show ?thesis
    using m ne keys ap t u c nz
    by (simp add: Solver_def not_p2sh_first mTemplates_def GetOp2_plain match_op_def match_loop_Cons [of L cm]
        not_less Let_def)
qed

lemma getBytes_160: "length h = 5 \<Longrightarrow> length (base_uint_getBytes h) = 20"
  by (simp add: length_getBytes)

section \<open>Properties\<close>

text \<open>C18: the script \<open>SetDestination\<close> builds for a key or a script hash is recognised as standard
  and \<open>ExtractDestination\<close> returns that destination; the empty script of no destination has none.\<close>

theorem destination_roundtrip:
  assumes "length h = 5"
  shows "ExtractDestination C L (SetDestination (CKeyID h)) = Some (CKeyID h)
    \<and> ExtractDestination C L (SetDestination (CScriptID h)) = Some (CScriptID h)
    \<and> ExtractDestination C L (SetDestination CNoDestination) = None
    \<and> IsStandard L (SetDestination (CKeyID h)) \<and> IsStandard L (SetDestination (CScriptID h))"
proof -
  let ?b = "base_uint_getBytes h"
  have b: "length ?b = 20" using assms by (rule getBytes_160)
  have h: "base_uint_of_vch 5 ?b = h" using base_uint_of_vch_getBytes [of h] assms by simp
  show ?thesis
    using Solver_pubkeyhash [OF b, of L] Solver_scripthash [OF b, of L] h
    by (simp add: ExtractDestination_def SetDestination_def push_uint160_def IsStandard_def
        Solver_def IsPayToScriptHash_def mTemplates_def)
qed

theorem destination_roundtrip_witness:
  "ExtractDestination sample_crypto int_bn (SetDestination (CKeyID [1, 2, 3, 4, 5])) = Some (CKeyID [1, 2, 3, 4, 5])"
  using destination_roundtrip [of "[1, 2, 3, 4, 5]" sample_crypto int_bn] by simp

text \<open>C19: for up to sixteen valid keys and a threshold between one and their number, \<open>SetMultisig\<close>
  fails no assertion, and its script is recognised with the threshold, the keys in order and
  their number; \<open>ExtractDestinations\<close> returns the keys' identifiers and the threshold.\<close>

theorem multisig_roundtrip:
  assumes "1 \<le> m" "m \<le> length keys" "length keys \<le> 16" "list_all CPubKey_wf keys"
  shows "\<exists>script. SetMultisig (int m) keys = Some script
    \<and> Solver L script = (True, TX_MULTISIG, [of_nat m] # keys @ [[of_nat (length keys)]])
    \<and> ExtractDestinations C L script
        = Some (TX_MULTISIG, map (\<lambda>k. CKeyID (CPubKey_GetID C k)) keys, m)"
proof -
  let ?s = "of_nat (0x50 + m) # concat (map push_bytes keys) @ [of_nat (0x50 + length keys), OP_CHECKMULTISIG]"
  have bs: "map (\<lambda>k. push_bytes (CPubKey_bytes k)) keys = map push_bytes keys"
    and ids: "map (\<lambda>k. CKeyID (CPubKey_GetID C (CPubKey_Set k))) keys = map (\<lambda>k. CKeyID (CPubKey_GetID C k)) keys"
    using assms(4) by (auto simp: list_all_iff CPubKey_wf_bytes CPubKey_wf_Set)
  have "SetMultisig (int m) keys = Some ?s"
    using EncodeOP_N_small(1) [of m] EncodeOP_N_small(1) [of "length keys"] assms(1-3)
    by (simp add: SetMultisig_def bs del: of_nat_add)
  moreover have "Solver L ?s = (True, TX_MULTISIG, [of_nat m] # keys @ [[of_nat (length keys)]])"
    using assms by (intro Solver_multisig) simp_all
  moreover have "unat (of_nat m :: byte) = m" using assms(2,3) by (simp add: unat_of_nat)
  ultimately show ?thesis using ids by (auto simp: ExtractDestinations_def simp del: of_nat_add)
qed

theorem multisig_roundtrip_witness:
  "\<exists>script. SetMultisig 1 [2 # replicate 32 7, 3 # replicate 32 9] = Some script
    \<and> ExtractDestinations sample_crypto int_bn script
      = Some (TX_MULTISIG, map (\<lambda>k. CKeyID (CPubKey_GetID sample_crypto k)) [2 # replicate 32 7, 3 # replicate 32 9], 1)"
proof -
  have "list_all CPubKey_wf [2 # replicate 32 7, 3 # replicate 32 9]"
    by (simp add: CPubKey_wf_def CPubKey_IsValid_def CPubKey_size_def CPubKey_GetLen_def)
  then show ?thesis
    using multisig_roundtrip [of 1 "[2 # replicate 32 7, 3 # replicate 32 9]" int_bn sample_crypto] by auto
qed

end
