(* ===== verification/ScriptEval.thy ===== *)
theory ScriptEval
  imports Solver
begin

text \<open>
  The script interpreter of \<open>src/src/script.cpp\<close>: \<open>EvalScript\<close> with every opcode, the checks of
  encodings and lock times it uses, \<open>SignatureHash\<close>, \<open>CheckSig\<close> with its cache, and
  \<open>VerifyScript\<close>.

  A stack is a list whose head is the top (\<open>stack.back()\<close>, \<open>stacktop(-1)\<close>). \<open>None\<close> is \<open>return false\<close>,
  an exception included, since \<open>EvalScript\<close> catches every exception and returns false. The stack a
  failed evaluation leaves behind is not modelled: \<open>VerifyScript\<close> does not read it. As in the
  source, \<open>nIn\<close> has to be the index of an input for the two lock time checks.
\<close>

unbundle bit_operations_syntax

section \<open>Values and flags\<close>

abbreviation (input) SCRIPT_VERIFY_P2SH :: u32 where "SCRIPT_VERIFY_P2SH \<equiv> 1"
abbreviation (input) SCRIPT_VERIFY_STRICTENC :: u32 where "SCRIPT_VERIFY_STRICTENC \<equiv> 2"
abbreviation (input) SCRIPT_VERIFY_LOW_S :: u32 where "SCRIPT_VERIFY_LOW_S \<equiv> 4"
abbreviation (input) SCRIPT_VERIFY_NOCACHE :: u32 where "SCRIPT_VERIFY_NOCACHE \<equiv> 8"
abbreviation (input) SCRIPT_VERIFY_NULLDUMMY :: u32 where "SCRIPT_VERIFY_NULLDUMMY \<equiv> 16"
abbreviation (input) SCRIPT_VERIFY_CHECKLOCKTIMEVERIFY :: u32 where "SCRIPT_VERIFY_CHECKLOCKTIMEVERIFY \<equiv> 0x200"
abbreviation (input) SCRIPT_VERIFY_CHECKSEQUENCEVERIFY :: u32 where "SCRIPT_VERIFY_CHECKSEQUENCEVERIFY \<equiv> 0x400"

abbreviation (input) SEQUENCE_FINAL :: u32 where "SEQUENCE_FINAL \<equiv> 0xffffffff"
abbreviation (input) SEQUENCE_LOCKTIME_DISABLE_FLAG :: u64 where "SEQUENCE_LOCKTIME_DISABLE_FLAG \<equiv> 0x80000000"
abbreviation (input) SEQUENCE_LOCKTIME_TYPE_FLAG :: u64 where "SEQUENCE_LOCKTIME_TYPE_FLAG \<equiv> 0x00400000"
abbreviation (input) SEQUENCE_LOCKTIME_MASK :: u64 where "SEQUENCE_LOCKTIME_MASK \<equiv> 0x0000ffff"

abbreviation (input) MAX_SCRIPT_ELEMENT_SIZE :: nat where "MAX_SCRIPT_ELEMENT_SIZE \<equiv> 520"

definition vchFalse :: bytes where "vchFalse = []"
definition vchTrue :: bytes where "vchTrue = [1]"

text \<open>The loop stops at the first non-zero byte; a lone sign bit in the last byte is negative zero.\<close>

fun CastToBool :: "bytes \<Rightarrow> bool" where
  "CastToBool [] = False"
| "CastToBool (c # vch) = (if c \<noteq> 0 then \<not> (vch = [] \<and> c = 0x80) else CastToBool vch)"

section \<open>Encodings of keys and signatures\<close>

definition IsCanonicalPubKey :: "bytes \<Rightarrow> u32 \<Rightarrow> bool" where
  "IsCanonicalPubKey vchPubKey flags =
     (if flags AND SCRIPT_VERIFY_STRICTENC = 0 then True
      else if length vchPubKey < 33 then False
      else if vchPubKey ! 0 = 0x04 then length vchPubKey = 65
      else if vchPubKey ! 0 = 0x02 \<or> vchPubKey ! 0 = 0x03 then length vchPubKey = 33
      else False)"

definition IsDERSignature :: "bytes \<Rightarrow> bool \<Rightarrow> bool \<Rightarrow> bool" where
  "IsDERSignature vchSig fWithHashType fCheckLow =
     (if length vchSig < 9 then False
      else if length vchSig > 73 then False
      else if vchSig ! 0 \<noteq> 0x30 then False
      else if unat (vchSig ! 1) \<noteq> length vchSig - (if fWithHashType then 3 else 2) then False
      else if fWithHashType
              \<and> (let nHashType = vchSig ! (length vchSig - 1) AND 0x7f in nHashType < 1 \<or> nHashType > 3)
      then False
      else let nLenR = unat (vchSig ! 3)
           in if 5 + nLenR \<ge> length vchSig then False
              else let nLenS = unat (vchSig ! (5 + nLenR))
                   in if nLenR + nLenS + (if fWithHashType then 7 else 6) \<noteq> length vchSig then False
                      else if vchSig ! 2 \<noteq> 0x02 then False
                      else if nLenR = 0 then False
                      else if vchSig ! 4 AND 0x80 \<noteq> 0 then False
                      else if nLenR > 1 \<and> vchSig ! 4 = 0 \<and> vchSig ! 5 AND 0x80 = 0 then False
                      else if vchSig ! (4 + nLenR) \<noteq> 0x02 then False
                      else if nLenS = 0 then False
                      else if vchSig ! (6 + nLenR) AND 0x80 \<noteq> 0 then False
                      else if nLenS > 1 \<and> vchSig ! (6 + nLenR) = 0 \<and> vchSig ! (7 + nLenR) AND 0x80 = 0 then False
                      else if fCheckLow \<and> \<not> CheckSignatureElement (take nLenS (drop (6 + nLenR) vchSig)) True
                      then False
                      else True)"

definition IsCanonicalSignature :: "bytes \<Rightarrow> u32 \<Rightarrow> bool" where
  "IsCanonicalSignature vchSig flags =
     (if flags AND SCRIPT_VERIFY_STRICTENC = 0 then True
      else IsDERSignature vchSig True (flags AND SCRIPT_VERIFY_LOW_S \<noteq> 0))"

section \<open>Lock times\<close>

definition CheckLockTime :: "int \<Rightarrow> CTransaction \<Rightarrow> nat \<Rightarrow> bool" where
  "CheckLockTime nLock txTo nIn =
     (let txLock = int (unat (nLockTime txTo))
      in if \<not> (txLock < LOCKTIME_THRESHOLD \<and> nLock < LOCKTIME_THRESHOLD
                \<or> txLock \<ge> LOCKTIME_THRESHOLD \<and> nLock \<ge> LOCKTIME_THRESHOLD) then False
         else if nLock > txLock then False
         else if nSequence (vin txTo ! nIn) = SEQUENCE_FINAL then False
         else True)"

definition CheckSequence :: "64 word \<Rightarrow> CTransaction \<Rightarrow> nat \<Rightarrow> bool" where
  "CheckSequence nSeq txTo nIn =
     (let txToSequence = ucast (nSequence (vin txTo ! nIn)) :: 64 word
      in if txToSequence AND SEQUENCE_LOCKTIME_DISABLE_FLAG \<noteq> 0 then False
         else let nLockTimeMask = SEQUENCE_LOCKTIME_TYPE_FLAG OR SEQUENCE_LOCKTIME_MASK;
                  txToSequenceMasked = sint (txToSequence AND nLockTimeMask);
                  nSequenceMasked = sint (nSeq AND nLockTimeMask);
                  typeFlag = sint SEQUENCE_LOCKTIME_TYPE_FLAG
              in if \<not> (txToSequenceMasked < typeFlag \<and> nSequenceMasked < typeFlag
                        \<or> txToSequenceMasked \<ge> typeFlag \<and> nSequenceMasked \<ge> typeFlag) then False
                 else if nSequenceMasked > txToSequenceMasked then False
                 else True)"

section \<open>Signatures\<close>

abbreviation (input) SIGHASH_ALL :: u32 where "SIGHASH_ALL \<equiv> 1"
abbreviation (input) SIGHASH_NONE :: u32 where "SIGHASH_NONE \<equiv> 2"
abbreviation (input) SIGHASH_SINGLE :: u32 where "SIGHASH_SINGLE \<equiv> 3"
abbreviation (input) SIGHASH_ANYONECANPAY :: u32 where "SIGHASH_ANYONECANPAY \<equiv> 0x80"

text \<open>The steps of \<open>SignatureHash\<close> on its copy \<open>txTmp\<close> of the transaction.\<close>

definition blank_scripts :: "bytes \<Rightarrow> nat \<Rightarrow> CTransaction \<Rightarrow> CTransaction" where
  "blank_scripts scriptCode nIn txTmp =
     (let ins = map (\<lambda>txin. txin\<lparr> scriptSig := [] \<rparr>) (vin txTmp)
      in txTmp\<lparr> vin := ins[nIn := (ins ! nIn)\<lparr> scriptSig := scriptCode \<rparr>] \<rparr>)"

definition free_sequences :: "nat \<Rightarrow> CTransaction \<Rightarrow> CTransaction" where
  "free_sequences nIn txTmp =
     txTmp\<lparr> vin := map (\<lambda>i. if i \<noteq> nIn then (vin txTmp ! i)\<lparr> nSequence := 0 \<rparr> else vin txTmp ! i)
                       [0..<length (vin txTmp)] \<rparr>"

definition single_output :: "nat \<Rightarrow> CTransaction \<Rightarrow> CTransaction" where
  "single_output nOut txTmp =
     txTmp\<lparr> vout := replicate nOut CTxOut_SetNull @ [vout txTmp ! nOut] \<rparr>"

definition only_input :: "nat \<Rightarrow> CTransaction \<Rightarrow> CTransaction" where
  "only_input nIn txTmp = txTmp\<lparr> vin := [vin txTmp ! nIn] \<rparr>"

text \<open>The transaction that is serialized and hashed; \<open>None\<close> where the source returns the hash 1
  instead.\<close>

definition sighash_tx :: "bytes \<Rightarrow> CTransaction \<Rightarrow> nat \<Rightarrow> u32 \<Rightarrow> CTransaction option" where
  "sighash_tx scriptCode txTo nIn nHashType =
     (if nIn \<ge> length (vin txTo) then None
      else let scriptCode = snd (FindAndDelete scriptCode [OP_CODESEPARATOR]);
               txTmp = blank_scripts scriptCode nIn txTo
           in case (if nHashType AND 0x1f = SIGHASH_NONE
                    then Some (free_sequences nIn (txTmp\<lparr> vout := [] \<rparr>))
                    else if nHashType AND 0x1f = SIGHASH_SINGLE
                    then (if nIn \<ge> length (vout txTmp) then None
                          else Some (free_sequences nIn (single_output nIn txTmp)))
                    else Some txTmp) of
                None \<Rightarrow> None
              | Some txTmp \<Rightarrow>
                  Some (if nHashType AND SIGHASH_ANYONECANPAY \<noteq> 0 then only_input nIn txTmp else txTmp))"

definition SignatureHash :: "('k, 'g) crypto \<Rightarrow> bytes \<Rightarrow> CTransaction \<Rightarrow> nat \<Rightarrow> u32 \<Rightarrow> base_uint" where
  "SignatureHash C scriptCode txTo nIn nHashType =
     (case sighash_tx scriptCode txTo nIn nHashType of
        None \<Rightarrow> base_uint_assign64 uint256_WIDTH 1
      | Some txTmp \<Rightarrow> Hash C (ser_CTransaction txTmp @ ser_uint 4 nHashType))"

text \<open>\<open>sig_query\<close> is the part of \<open>CheckSig\<close> before the cache: the hash, the signature without its
  type byte and the key, or \<open>None\<close> for an early \<open>return false\<close>. \<open>CheckSig\<close> is the function without
  its cache, and \<open>CheckSig_cached\<close> below the one with it.\<close>

definition sig_query ::
  "('k, 'g) crypto \<Rightarrow> bytes \<Rightarrow> bytes \<Rightarrow> bytes \<Rightarrow> CTransaction \<Rightarrow> nat \<Rightarrow> u32 \<Rightarrow> (base_uint \<times> bytes \<times> bytes) option" where
  "sig_query C vchSig vchPubKey scriptCode txTo nIn nHashType =
     (let pubkey = CPubKey_Set vchPubKey
      in if \<not> CPubKey_IsValid pubkey then None
         else if vchSig = [] then None
         else if nHashType \<noteq> 0 \<and> nHashType \<noteq> ucast (last vchSig) then None
         else let nHashType = (if nHashType = 0 then ucast (last vchSig) else nHashType)
              in Some (SignatureHash C scriptCode txTo nIn nHashType, butlast vchSig, pubkey))"

definition CheckSig ::
  "('k, 'g) crypto \<Rightarrow> bytes \<Rightarrow> bytes \<Rightarrow> bytes \<Rightarrow> CTransaction \<Rightarrow> nat \<Rightarrow> u32 \<Rightarrow> bool" where
  "CheckSig C vchSig vchPubKey scriptCode txTo nIn nHashType =
     (case sig_query C vchSig vchPubKey scriptCode txTo nIn nHashType of
        None \<Rightarrow> False
      | Some (sighash, vchSig, pubkey) \<Rightarrow> CPubKey_Verify C pubkey sighash vchSig)"

subsection \<open>The signature cache\<close>

type_synonym sigdata_type = "base_uint \<times> bytes \<times> bytes"

text \<open>\<open>std::set\<close> keeps its elements sorted by the tuple order: by hash, then signature, then key.
  A vector is compared lexicographically, a key by its header byte and then by \<open>memcmp\<close>.\<close>

definition CPubKey_lt :: "bytes \<Rightarrow> bytes \<Rightarrow> bool" where
  "CPubKey_lt a b =
     (a ! 0 < b ! 0 \<or> a ! 0 = b ! 0 \<and> bytes_lt (take (CPubKey_size a) a) (take (CPubKey_size a) b))"

definition sigdata_lt :: "sigdata_type \<Rightarrow> sigdata_type \<Rightarrow> bool" where
  "sigdata_lt x y =
     (case (x, y) of ((h, s, k), (h', s', k')) \<Rightarrow>
        if base_uint_lt h h' then True else if base_uint_lt h' h then False
        else if bytes_lt s s' then True else if bytes_lt s' s then False
        else CPubKey_lt k k')"

text \<open>The set is the sorted list of its elements, and \<open>k\<close> is equivalent to an element that is
  neither before nor behind it.\<close>

definition CSignatureCache_Get :: "sigdata_type list \<Rightarrow> sigdata_type \<Rightarrow> bool" where
  "CSignatureCache_Get setValid k = list_ex (\<lambda>e. \<not> sigdata_lt e k \<and> \<not> sigdata_lt k e) setValid"

definition cache_lower_bound :: "sigdata_type list \<Rightarrow> sigdata_type \<Rightarrow> nat" where
  "cache_lower_bound setValid k = length (takeWhile (\<lambda>e. sigdata_lt e k) setValid)"

text \<open>The random hash of each round of the eviction is \<open>rnd\<close> of the size of the set then. The limit is
  positive where the loop runs, so the set it takes an element from is not empty.\<close>

definition evict_pos :: "(nat \<Rightarrow> base_uint) \<Rightarrow> sigdata_type list \<Rightarrow> nat" where
  "evict_pos rnd setValid =
     (let it = cache_lower_bound setValid (rnd (length setValid), [], CPubKey_Set [])
      in if it = length setValid then 0 else it)"

function evict_loop :: "int \<Rightarrow> (nat \<Rightarrow> base_uint) \<Rightarrow> sigdata_type list \<Rightarrow> sigdata_type list" where
  "evict_loop nMaxCacheSize rnd setValid =
     (if int (length setValid) > nMaxCacheSize \<and> setValid \<noteq> []
      then let it = evict_pos rnd setValid
           in evict_loop nMaxCacheSize rnd (take it setValid @ drop (Suc it) setValid)
      else setValid)"
  by pat_completeness auto
termination
proof (relation "measure (\<lambda>(m, r, s). length s)")
  fix m r and s :: "sigdata_type list" and it
  assume "int (length s) > m \<and> s \<noteq> []" "it = evict_pos r s"
  moreover have "length (takeWhile P s) \<le> length s" for P by (simp add: length_takeWhile_le)
  ultimately have "it < length s"
    by (simp add: evict_pos_def cache_lower_bound_def Let_def le_neq_implies_less)
  then show "((m, r, take it s @ drop (Suc it) s), m, r, s) \<in> measure (\<lambda>(m, r, s). length s)"
    by simp
qed simp

declare evict_loop.simps [simp del]

fun cache_insert :: "sigdata_type \<Rightarrow> sigdata_type list \<Rightarrow> sigdata_type list" where
  "cache_insert k [] = [k]"
| "cache_insert k (e # es) =
     (if sigdata_lt e k then e # cache_insert k es else if sigdata_lt k e then k # e # es else e # es)"

definition CSignatureCache_Set ::
  "int \<Rightarrow> (nat \<Rightarrow> base_uint) \<Rightarrow> sigdata_type \<Rightarrow> sigdata_type list \<Rightarrow> sigdata_type list" where
  "CSignatureCache_Set nMaxCacheSize rnd k setValid =
     (if nMaxCacheSize \<le> 0 then setValid
      else cache_insert k (evict_loop nMaxCacheSize rnd setValid))"

definition CheckSig_cached ::
  "('k, 'g) crypto \<Rightarrow> int \<Rightarrow> (nat \<Rightarrow> base_uint) \<Rightarrow> sigdata_type list \<Rightarrow> bytes \<Rightarrow> bytes \<Rightarrow> bytes \<Rightarrow> CTransaction
   \<Rightarrow> nat \<Rightarrow> u32 \<Rightarrow> u32 \<Rightarrow> bool \<times> sigdata_type list" where
  "CheckSig_cached C nMaxCacheSize rnd signatureCache vchSig vchPubKey scriptCode txTo nIn nHashType flags =
     (case sig_query C vchSig vchPubKey scriptCode txTo nIn nHashType of
        None \<Rightarrow> (False, signatureCache)
      | Some (sighash, vchSig, pubkey) \<Rightarrow>
          if CSignatureCache_Get signatureCache (sighash, vchSig, pubkey) then (True, signatureCache)
          else if \<not> CPubKey_Verify C pubkey sighash vchSig then (False, signatureCache)
          else (True, if flags AND SCRIPT_VERIFY_NOCACHE = 0
                      then CSignatureCache_Set nMaxCacheSize rnd (sighash, vchSig, pubkey) signatureCache
                      else signatureCache))"

section \<open>Opcodes\<close>

record ('b, 'k, 'g) eval_ctx =
  ec_lib :: "'b bn_lib"
  ec_crypto :: "('k, 'g) crypto"
  ec_txTo :: CTransaction
  ec_nIn :: nat
  ec_flags :: u32
  ec_nHashType :: u32

text \<open>The local variables of \<open>EvalScript\<close>: \<open>st_pc\<close> and \<open>st_pbegincodehash\<close> are the script from those
  iterators to its end, and \<open>st_vfExec\<close> has its back as its head.\<close>

record eval_state =
  st_pc :: bytes
  st_pbegincodehash :: bytes
  st_stack :: "bytes list"
  st_altstack :: "bytes list"
  st_vfExec :: "bool list"
  st_nOpCount :: nat

definition disabled_opcode :: "byte \<Rightarrow> bool" where
  "disabled_opcode opcode =
     (opcode = 0x7e \<or> opcode = 0x7f \<or> opcode = 0x80 \<or> opcode = 0x81 \<or> opcode = 0x83 \<or> opcode = 0x84
      \<or> opcode = 0x85 \<or> opcode = 0x86 \<or> opcode = 0x8d \<or> opcode = 0x8e \<or> opcode = 0x95 \<or> opcode = 0x96
      \<or> opcode = 0x97 \<or> opcode = 0x98 \<or> opcode = 0x99)"

text \<open>The stack operations \<open>OP_2DROP\<close> (0x6d) to \<open>OP_TUCK\<close> (0x7d) and \<open>OP_SIZE\<close> (0x82), which change
  nothing but the stack.\<close>

definition op_pick_roll :: "'b bn_lib \<Rightarrow> bool \<Rightarrow> bytes list \<Rightarrow> bytes list option" where
  "op_pick_roll L roll stack =
     (if length stack < 2 then None
      else case CastToBigNum L (stack ! 0) of None \<Rightarrow> None
           | Some bn \<Rightarrow>
               let i = CBigNum_getint32 L bn; stack = tl stack
               in if i < 0 \<or> i \<ge> int (length stack) then None
                  else let vch = stack ! nat i;
                           stack = (if roll then take (nat i) stack @ drop (Suc (nat i)) stack else stack)
                       in Some (vch # stack))"

definition op_stack :: "'b bn_lib \<Rightarrow> byte \<Rightarrow> bytes list \<Rightarrow> bytes list option" where
  "op_stack L opcode stack =
     (if opcode = 0x6d then (case stack of x2 # x1 # s \<Rightarrow> Some s | _ \<Rightarrow> None)
      else if opcode = 0x6e then (case stack of x2 # x1 # s \<Rightarrow> Some (x2 # x1 # x2 # x1 # s) | _ \<Rightarrow> None)
      else if opcode = 0x6f
      then (case stack of x3 # x2 # x1 # s \<Rightarrow> Some (x3 # x2 # x1 # x3 # x2 # x1 # s) | _ \<Rightarrow> None)
      else if opcode = 0x70
      then (case stack of x4 # x3 # x2 # x1 # s \<Rightarrow> Some (x2 # x1 # x4 # x3 # x2 # x1 # s) | _ \<Rightarrow> None)
      else if opcode = 0x71
      then (case stack of x6 # x5 # x4 # x3 # x2 # x1 # s \<Rightarrow> Some (x2 # x1 # x6 # x5 # x4 # x3 # s) | _ \<Rightarrow> None)
      else if opcode = 0x72
      then (case stack of x4 # x3 # x2 # x1 # s \<Rightarrow> Some (x2 # x1 # x4 # x3 # s) | _ \<Rightarrow> None)
      else if opcode = 0x73
      then (case stack of x # s \<Rightarrow> Some (if CastToBool x then x # x # s else x # s) | _ \<Rightarrow> None)
      else if opcode = 0x74
      then Some (CBigNum_getvch L (CBigNum_setuint32 L (ucast (of_nat (length stack) :: u16))) # stack)
      else if opcode = OP_DROP then (case stack of x # s \<Rightarrow> Some s | _ \<Rightarrow> None)
      else if opcode = OP_DUP then (case stack of x # s \<Rightarrow> Some (x # x # s) | _ \<Rightarrow> None)
      else if opcode = 0x77 then (case stack of x2 # x1 # s \<Rightarrow> Some (x2 # s) | _ \<Rightarrow> None)
      else if opcode = 0x78 then (case stack of x2 # x1 # s \<Rightarrow> Some (x1 # x2 # x1 # s) | _ \<Rightarrow> None)
      else if opcode = 0x79 then op_pick_roll L False stack
      else if opcode = 0x7a then op_pick_roll L True stack
      else if opcode = 0x7b
      then (case stack of x3 # x2 # x1 # s \<Rightarrow> Some (x1 # x3 # x2 # s) | _ \<Rightarrow> None)
      else if opcode = 0x7c then (case stack of x2 # x1 # s \<Rightarrow> Some (x1 # x2 # s) | _ \<Rightarrow> None)
      else if opcode = 0x7d then (case stack of x2 # x1 # s \<Rightarrow> Some (x2 # x1 # x2 # s) | _ \<Rightarrow> None)
      else if opcode = 0x82
      then (case stack of
              x # s \<Rightarrow> Some (CBigNum_getvch L (CBigNum_setuint32 L (ucast (of_nat (length x) :: u16))) # x # s)
            | _ \<Rightarrow> None)
      else None)"

text \<open>\<open>OP_VERIFY\<close> and the \<open>VERIFY\<close> forms drop a true result and fail on a false one.\<close>

definition push_result :: "bool \<Rightarrow> bool \<Rightarrow> bytes list \<Rightarrow> bytes list option" where
  "push_result verify fSuccess stack =
     (if verify then (if fSuccess then Some stack else None)
      else Some ((if fSuccess then vchTrue else vchFalse) # stack))"

definition op_equal :: "bool \<Rightarrow> bytes list \<Rightarrow> bytes list option" where
  "op_equal verify stack =
     (case stack of vch2 # vch1 # s \<Rightarrow> push_result verify (vch1 = vch2) s | _ \<Rightarrow> None)"

text \<open>\<open>OP_1ADD\<close> (0x8b), \<open>OP_1SUB\<close>, \<open>OP_NEGATE\<close> (0x8f), \<open>OP_ABS\<close>, \<open>OP_NOT\<close>, \<open>OP_0NOTEQUAL\<close> (0x92).\<close>

definition unary_num :: "'b bn_lib \<Rightarrow> byte \<Rightarrow> 'b \<Rightarrow> 'b option" where
  "unary_num L opcode bn =
     (let bnZero = CBigNum_of_int32 L 0; bnOne = CBigNum_of_int32 L 1
      in if opcode = 0x8b then BN_add L bn bnOne
         else if opcode = 0x8c then BN_sub L bn bnOne
         else if opcode = 0x8f then Some (CBigNum_neg L bn)
         else if opcode = 0x90 then Some (if CBigNum_lt L bn bnZero then CBigNum_neg L bn else bn)
         else if opcode = 0x91 then Some (CBigNum_of_bool L (CBigNum_eq L bn bnZero))
         else if opcode = 0x92 then Some (CBigNum_of_bool L (\<not> CBigNum_eq L bn bnZero))
         else None)"

definition op_unary :: "'b bn_lib \<Rightarrow> byte \<Rightarrow> bytes list \<Rightarrow> bytes list option" where
  "op_unary L opcode stack =
     (case stack of [] \<Rightarrow> None
      | x # s \<Rightarrow>
          (case CastToBigNum L x of None \<Rightarrow> None
           | Some bn \<Rightarrow>
               (case unary_num L opcode bn of None \<Rightarrow> None
                | Some bn \<Rightarrow> Some (CBigNum_getvch L bn # s))))"

text \<open>\<open>OP_ADD\<close> (0x93), \<open>OP_SUB\<close> and \<open>OP_BOOLAND\<close> (0x9a) to \<open>OP_MAX\<close> (0xa4).\<close>

definition binary_num :: "'b bn_lib \<Rightarrow> byte \<Rightarrow> 'b \<Rightarrow> 'b \<Rightarrow> 'b option" where
  "binary_num L opcode bn1 bn2 =
     (let bnZero = CBigNum_of_int32 L 0
      in if opcode = 0x93 then BN_add L bn1 bn2
         else if opcode = 0x94 then BN_sub L bn1 bn2
         else if opcode = 0x9a
         then Some (CBigNum_of_bool L (\<not> CBigNum_eq L bn1 bnZero \<and> \<not> CBigNum_eq L bn2 bnZero))
         else if opcode = 0x9b
         then Some (CBigNum_of_bool L (\<not> CBigNum_eq L bn1 bnZero \<or> \<not> CBigNum_eq L bn2 bnZero))
         else if opcode = 0x9c then Some (CBigNum_of_bool L (CBigNum_eq L bn1 bn2))
         else if opcode = 0x9d then Some (CBigNum_of_bool L (CBigNum_eq L bn1 bn2))
         else if opcode = 0x9e then Some (CBigNum_of_bool L (\<not> CBigNum_eq L bn1 bn2))
         else if opcode = 0x9f then Some (CBigNum_of_bool L (CBigNum_lt L bn1 bn2))
         else if opcode = 0xa0 then Some (CBigNum_of_bool L (CBigNum_gt L bn1 bn2))
         else if opcode = 0xa1 then Some (CBigNum_of_bool L (CBigNum_le L bn1 bn2))
         else if opcode = 0xa2 then Some (CBigNum_of_bool L (CBigNum_ge L bn1 bn2))
         else if opcode = 0xa3 then Some (if CBigNum_lt L bn1 bn2 then bn1 else bn2)
         else if opcode = 0xa4 then Some (if CBigNum_gt L bn1 bn2 then bn1 else bn2)
         else None)"

definition op_binary :: "'b bn_lib \<Rightarrow> byte \<Rightarrow> bytes list \<Rightarrow> bytes list option" where
  "op_binary L opcode stack =
     (case stack of
        x2 # x1 # s \<Rightarrow>
          (case (CastToBigNum L x1, CastToBigNum L x2) of
             (Some bn1, Some bn2) \<Rightarrow>
               (case binary_num L opcode bn1 bn2 of None \<Rightarrow> None
                | Some bn \<Rightarrow>
                    let vch = CBigNum_getvch L bn
                    in if opcode = 0x9d then (if CastToBool vch then Some s else None)
                       else Some (vch # s))
           | _ \<Rightarrow> None)
      | _ \<Rightarrow> None)"

definition op_within :: "'b bn_lib \<Rightarrow> bytes list \<Rightarrow> bytes list option" where
  "op_within L stack =
     (case stack of
        x3 # x2 # x1 # s \<Rightarrow>
          (case (CastToBigNum L x1, CastToBigNum L x2, CastToBigNum L x3) of
             (Some bn1, Some bn2, Some bn3) \<Rightarrow>
               push_result False (CBigNum_le L bn2 bn1 \<and> CBigNum_lt L bn1 bn3) s
           | _ \<Rightarrow> None)
      | _ \<Rightarrow> None)"

text \<open>\<open>OP_RIPEMD160\<close> (0xa6) to \<open>OP_HASH256\<close> (0xaa).\<close>

definition op_hash_fn :: "('k, 'g) crypto \<Rightarrow> byte \<Rightarrow> bytes \<Rightarrow> bytes" where
  "op_hash_fn C opcode vch =
     (if opcode = 0xa6 then RIPEMD160 C vch
      else if opcode = 0xa7 then SHA1 C vch
      else if opcode = 0xa8 then SHA256 C vch
      else if opcode = OP_HASH160 then base_uint_getBytes (Hash160 C vch)
      else base_uint_getBytes (Hash C vch))"

definition op_digest :: "('k, 'g) crypto \<Rightarrow> byte \<Rightarrow> bytes list \<Rightarrow> bytes list option" where
  "op_digest C opcode stack = (case stack of [] \<Rightarrow> None | vch # s \<Rightarrow> Some (op_hash_fn C opcode vch # s))"

section \<open>Signature opcodes\<close>

definition sig_ok :: "('b, 'k, 'g) eval_ctx \<Rightarrow> bytes \<Rightarrow> bytes \<Rightarrow> bytes \<Rightarrow> bool" where
  "sig_ok ctx scriptCode vchSig vchPubKey =
     (IsCanonicalSignature vchSig (ec_flags ctx) \<and> IsCanonicalPubKey vchPubKey (ec_flags ctx)
      \<and> CheckSig (ec_crypto ctx) vchSig vchPubKey scriptCode (ec_txTo ctx) (ec_nIn ctx) (ec_nHashType ctx))"

definition op_checksig :: "('b, 'k, 'g) eval_ctx \<Rightarrow> bool \<Rightarrow> bytes \<Rightarrow> bytes list \<Rightarrow> bytes list option" where
  "op_checksig ctx verify codehash stack =
     (case stack of
        vchPubKey # vchSig # s \<Rightarrow>
          let scriptCode = snd (FindAndDelete codehash (push_bytes vchSig))
          in push_result verify (sig_ok ctx scriptCode vchSig vchPubKey) s
      | _ \<Rightarrow> None)"

text \<open>The loop of \<open>OP_CHECKMULTISIG\<close> on the signatures and keys that are left. It stops, without
  success, as soon as there are more signatures than keys.\<close>

fun multisig_loop :: "(bytes \<Rightarrow> bytes \<Rightarrow> bool) \<Rightarrow> bytes list \<Rightarrow> bytes list \<Rightarrow> bool" where
  "multisig_loop ok [] keys = True"
| "multisig_loop ok (vchSig # sigs) [] = False"
| "multisig_loop ok (vchSig # sigs) (vchPubKey # keys) =
     (let sigs = (if ok vchSig vchPubKey then sigs else vchSig # sigs)
      in if length sigs > length keys then False else multisig_loop ok sigs keys)"

definition drop_sigs :: "bytes list \<Rightarrow> bytes \<Rightarrow> bytes" where
  "drop_sigs sigs scriptCode = fold (\<lambda>vchSig sc. snd (FindAndDelete sc (push_bytes vchSig))) sigs scriptCode"

definition op_checkmultisig ::
  "('b, 'k, 'g) eval_ctx \<Rightarrow> bool \<Rightarrow> bytes \<Rightarrow> nat \<Rightarrow> bytes list \<Rightarrow> (nat \<times> bytes list) option" where
  "op_checkmultisig ctx verify codehash nOpCount stack =
     (if length stack < 1 then None
      else case CastToBigNum (ec_lib ctx) (stack ! 0) of None \<Rightarrow> None
      | Some bn \<Rightarrow>
        let nKeysCount = CBigNum_getint32 (ec_lib ctx) bn
        in if nKeysCount < 0 \<or> nKeysCount > 20 then None
           else let nKeysCount = nat nKeysCount; nOpCount = nOpCount + nKeysCount
           in if nOpCount > 201 then None
           else let ikey = 2; i = 2 + nKeysCount
           in if length stack < i then None
           else case CastToBigNum (ec_lib ctx) (stack ! (i - 1)) of None \<Rightarrow> None
           | Some bn \<Rightarrow>
             let nSigsCount = CBigNum_getint32 (ec_lib ctx) bn
             in if nSigsCount < 0 \<or> nSigsCount > int nKeysCount then None
                else let nSigsCount = nat nSigsCount; isig = i + 1; i = isig + nSigsCount
                in if length stack < i then None
                else let sigs = take nSigsCount (drop (isig - 1) stack);
                         keys = take nKeysCount (drop (ikey - 1) stack);
                         scriptCode = drop_sigs sigs codehash;
                         fSuccess = multisig_loop (sig_ok ctx scriptCode) sigs keys;
                         stack = drop (i - 1) stack
                in if length stack < 1 then None
                   else if ec_flags ctx AND SCRIPT_VERIFY_NULLDUMMY \<noteq> 0 \<and> length (stack ! 0) \<noteq> 0 then None
                   else case push_result verify fSuccess (tl stack) of None \<Rightarrow> None
                        | Some stack \<Rightarrow> Some (nOpCount, stack))"

section \<open>Lock time opcodes\<close>

definition op_checklocktime :: "('b, 'k, 'g) eval_ctx \<Rightarrow> bytes list \<Rightarrow> bytes list option" where
  "op_checklocktime ctx stack =
     (if ec_flags ctx AND SCRIPT_VERIFY_CHECKLOCKTIMEVERIFY = 0 then Some stack
      else if length stack < 1 then None
      else case CastToBigNum (ec_lib ctx) (stack ! 0) of None \<Rightarrow> None
           | Some nLock \<Rightarrow>
               if CBigNum_lt (ec_lib ctx) nLock (CBigNum_of_int32 (ec_lib ctx) 0) then None
               else if \<not> CheckLockTime (sint (CBigNum_getuint64 (ec_lib ctx) nLock)) (ec_txTo ctx) (ec_nIn ctx)
               then None
               else Some stack)"

definition op_checksequence :: "('b, 'k, 'g) eval_ctx \<Rightarrow> bytes list \<Rightarrow> bytes list option" where
  "op_checksequence ctx stack =
     (if ec_flags ctx AND SCRIPT_VERIFY_CHECKSEQUENCEVERIFY = 0 then Some stack
      else if length stack < 1 then None
      else case CastToBigNum (ec_lib ctx) (stack ! 0) of None \<Rightarrow> None
           | Some nSeq \<Rightarrow>
               if CBigNum_lt (ec_lib ctx) nSeq (CBigNum_of_int32 (ec_lib ctx) 0) then None
               else if (word_of_int (CBigNum_getint32 (ec_lib ctx) nSeq) :: u32) AND 0x80000000 \<noteq> 0
               then Some stack
               else if \<not> CheckSequence (CBigNum_getuint64 (ec_lib ctx) nSeq) (ec_txTo ctx) (ec_nIn ctx)
               then None
               else Some stack)"

section \<open>The interpreter\<close>

text \<open>The \<open>switch\<close> on the opcode, where \<open>fExec\<close> is whether the instruction is in an executed branch.\<close>

definition set_stack :: "eval_state \<Rightarrow> bytes list option \<Rightarrow> eval_state option" where
  "set_stack st r = map_option (\<lambda>stack. st\<lparr> st_stack := stack \<rparr>) r"

definition op_control :: "('b, 'k, 'g) eval_ctx \<Rightarrow> byte \<Rightarrow> bool \<Rightarrow> eval_state \<Rightarrow> eval_state option" where
  "op_control ctx opcode fExec st =
     (if opcode = 0x61 \<or> opcode = 0xb0 \<or> opcode \<ge> 0xb3 \<and> opcode \<le> 0xb9 then Some st
      else if opcode = 0x63 \<or> opcode = 0x64
      then (if fExec
            then (case st_stack st of [] \<Rightarrow> None
                  | vch # s \<Rightarrow>
                      let fValue = (if opcode = 0x64 then \<not> CastToBool vch else CastToBool vch)
                      in Some (st\<lparr> st_stack := s, st_vfExec := fValue # st_vfExec st \<rparr>))
            else Some (st\<lparr> st_vfExec := False # st_vfExec st \<rparr>))
      else if opcode = 0x67
      then (case st_vfExec st of [] \<Rightarrow> None | b # bs \<Rightarrow> Some (st\<lparr> st_vfExec := (\<not> b) # bs \<rparr>))
      else if opcode = 0x68
      then (case st_vfExec st of [] \<Rightarrow> None | b # bs \<Rightarrow> Some (st\<lparr> st_vfExec := bs \<rparr>))
      else if opcode = 0x69
      then (case st_stack st of [] \<Rightarrow> None
            | vch # s \<Rightarrow> if CastToBool vch then Some (st\<lparr> st_stack := s \<rparr>) else None)
      else if opcode = OP_RETURN then None
      else if opcode = 0xb1 then set_stack st (op_checklocktime ctx (st_stack st))
      else if opcode = 0xb2 then set_stack st (op_checksequence ctx (st_stack st))
      else None)"

definition exec_op :: "('b, 'k, 'g) eval_ctx \<Rightarrow> byte \<Rightarrow> bool \<Rightarrow> eval_state \<Rightarrow> eval_state option" where
  "exec_op ctx opcode fExec st =
     (let L = ec_lib ctx; stack = st_stack st
      in if opcode = OP_1NEGATE \<or> opcode \<ge> OP_1 \<and> opcode \<le> OP_16
         then Some (st\<lparr> st_stack := CBigNum_getvch L (CBigNum_of_int32 L (ucast opcode - 0x50)) # stack \<rparr>)
         else if opcode \<ge> 0x61 \<and> opcode \<le> 0x6a \<or> opcode \<ge> 0xb0 then op_control ctx opcode fExec st
         else if opcode = 0x6b
         then (case stack of [] \<Rightarrow> None
               | vch # s \<Rightarrow> Some (st\<lparr> st_stack := s, st_altstack := vch # st_altstack st \<rparr>))
         else if opcode = 0x6c
         then (case st_altstack st of [] \<Rightarrow> None
               | vch # s \<Rightarrow> Some (st\<lparr> st_stack := vch # stack, st_altstack := s \<rparr>))
         else if opcode = OP_EQUAL \<or> opcode = OP_EQUALVERIFY
         then set_stack st (op_equal (opcode = OP_EQUALVERIFY) stack)
         else if opcode \<ge> 0x6d \<and> opcode \<le> 0x82 then set_stack st (op_stack L opcode stack)
         else if opcode \<ge> 0x8b \<and> opcode \<le> 0x92 then set_stack st (op_unary L opcode stack)
         else if opcode \<ge> 0x93 \<and> opcode \<le> 0xa4 then set_stack st (op_binary L opcode stack)
         else if opcode = 0xa5 then set_stack st (op_within L stack)
         else if opcode \<ge> 0xa6 \<and> opcode \<le> 0xaa then set_stack st (op_digest (ec_crypto ctx) opcode stack)
         else if opcode = OP_CODESEPARATOR then Some (st\<lparr> st_pbegincodehash := st_pc st \<rparr>)
         else if opcode = OP_CHECKSIG \<or> opcode = OP_CHECKSIGVERIFY
         then set_stack st (op_checksig ctx (opcode = OP_CHECKSIGVERIFY) (st_pbegincodehash st) stack)
         else if opcode = OP_CHECKMULTISIG \<or> opcode = OP_CHECKMULTISIGVERIFY
         then map_option (\<lambda>(k, stack). st\<lparr> st_nOpCount := k, st_stack := stack \<rparr>)
                (op_checkmultisig ctx (opcode = OP_CHECKMULTISIGVERIFY) (st_pbegincodehash st) (st_nOpCount st) stack)
         else None)"

text \<open>One round of the \<open>while\<close> loop.\<close>

definition eval_step :: "('b, 'k, 'g) eval_ctx \<Rightarrow> eval_state \<Rightarrow> eval_state option" where
  "eval_step ctx st =
     (let fExec = list_all (\<lambda>b. b) (st_vfExec st)
      in case GetOp2 (st_pc st) of None \<Rightarrow> None
         | Some (opcode, vchPushValue, pc) \<Rightarrow>
             let st = st\<lparr> st_pc := pc,
                          st_nOpCount := (if opcode > OP_16 then st_nOpCount st + 1 else st_nOpCount st) \<rparr>
             in if length vchPushValue > MAX_SCRIPT_ELEMENT_SIZE then None
                else if opcode > OP_16 \<and> st_nOpCount st > 201 then None
                else if disabled_opcode opcode then None
                else case (if fExec \<and> opcode \<le> OP_PUSHDATA4
                           then Some (st\<lparr> st_stack := vchPushValue # st_stack st \<rparr>)
                           else if fExec \<or> 0x63 \<le> opcode \<and> opcode \<le> 0x68 then exec_op ctx opcode fExec st
                           else Some st) of
                       None \<Rightarrow> None
                     | Some st \<Rightarrow>
                         if length (st_stack st) + length (st_altstack st) > 1000 then None else Some st)"

lemma op_control_pc: "op_control ctx opcode fExec st = Some st' \<Longrightarrow> st_pc st' = st_pc st"
  by (auto simp: op_control_def set_stack_def Let_def split: if_splits list.splits)

lemma exec_op_pc: "exec_op ctx opcode fExec st = Some st' \<Longrightarrow> st_pc st' = st_pc st"
  by (auto simp: exec_op_def set_stack_def Let_def dest: op_control_pc split: if_splits list.splits)

lemma eval_step_shorter: "eval_step ctx st = Some st' \<Longrightarrow> length (st_pc st') < length (st_pc st)"
  by (auto simp: eval_step_def Let_def dest!: exec_op_pc GetOp2_shorter split: option.splits if_splits)

function eval_loop :: "('b, 'k, 'g) eval_ctx \<Rightarrow> eval_state \<Rightarrow> eval_state option" where
  "eval_loop ctx st =
     (if st_pc st = [] then Some st
      else case eval_step ctx st of None \<Rightarrow> None | Some st \<Rightarrow> eval_loop ctx st)"
  by pat_completeness auto
termination
  by (relation "measure (\<lambda>(ctx, st). length (st_pc st))") (auto dest: eval_step_shorter)

declare eval_loop.simps [simp del]

definition init_state :: "bytes list \<Rightarrow> bytes \<Rightarrow> eval_state" where
  "init_state stack script =
     \<lparr> st_pc = script, st_pbegincodehash = script, st_stack = stack, st_altstack = [], st_vfExec = [],
       st_nOpCount = 0 \<rparr>"

definition EvalScript :: "('b, 'k, 'g) eval_ctx \<Rightarrow> bytes list \<Rightarrow> bytes \<Rightarrow> bytes list option" where
  "EvalScript ctx stack script =
     (if length script > 10000 then None
      else case eval_loop ctx (init_state stack script) of None \<Rightarrow> None
           | Some st \<Rightarrow> if st_vfExec st \<noteq> [] then None else Some (st_stack st))"

text \<open>\<open>None\<close> is the assertion \<open>!stackCopy.empty()\<close> failing.\<close>

definition VerifyScript :: "('b, 'k, 'g) eval_ctx \<Rightarrow> bytes \<Rightarrow> bytes \<Rightarrow> bool option" where
  "VerifyScript ctx script_sig script_pubkey =
     (case EvalScript ctx [] script_sig of None \<Rightarrow> Some False
      | Some stack \<Rightarrow>
          let stackCopy = (if ec_flags ctx AND SCRIPT_VERIFY_P2SH \<noteq> 0 then stack else [])
          in case EvalScript ctx stack script_pubkey of None \<Rightarrow> Some False
             | Some stack \<Rightarrow>
                 if stack = [] then Some False
                 else if \<not> CastToBool (stack ! 0) then Some False
                 else if ec_flags ctx AND SCRIPT_VERIFY_P2SH \<noteq> 0 \<and> IsPayToScriptHash script_pubkey
                 then if \<not> IsPushOnly script_sig then Some False
                      else case stackCopy of [] \<Rightarrow> None
                           | pubKey2 # stackCopy \<Rightarrow>
                               (case EvalScript ctx stackCopy pubKey2 of None \<Rightarrow> Some False
                                | Some stackCopy \<Rightarrow>
                                    if stackCopy = [] then Some False else Some (CastToBool (stackCopy ! 0)))
                 else Some True)"

end
