(* ===== verification/ScriptProps.thy ===== *)
theory ScriptProps
  imports ScriptEval "HOL-Library.Sublist"
begin

text \<open>
  The theorems about the script interpreter of \<open>ScriptEval\<close>: truth values are the non-zero numbers, the
  multisignature loop decides an order-preserving matching, the DER test decides a grammar, every
  reachable state keeps the resource limits, \<open>VerifyScript\<close> fails no assertion, standard outputs have
  the verdict they are meant to have, lock times are enforced, signature hashes commit to the
  transaction, and the signature cache is transparent.
\<close>

unbundle bit_operations_syntax

section \<open>Truth values\<close>

lemma be_val_eq_0: "be_val bs = 0 \<longleftrightarrow> (\<forall>b\<in>set bs. b = 0)"
  by (induction bs) (auto simp: be_val_Cons unat_eq_0)

lemma CastToBool_snoc: "CastToBool (xs @ [b]) \<longleftrightarrow> (\<exists>x\<in>set xs. x \<noteq> 0) \<or> unat b mod 128 \<noteq> 0"
proof (induction xs)
  case Nil
  have "n < 256 \<Longrightarrow> n mod 128 = 0 \<longleftrightarrow> n = 0 \<or> n = 128" for n :: nat by presburger
  from this [of "unat b"] have "unat b mod 128 = 0 \<longleftrightarrow> unat b = 0 \<or> unat b = 128"
    using unat_less_power [of b] by simp
  then show ?case by (simp add: word_unat_eq_iff)
qed simp

lemma CastToBool_num: "CastToBool vch \<longleftrightarrow> mpi_val (rev vch) \<noteq> 0"
proof (cases vch rule: rev_cases)
  case (snoc xs b)
  have "b AND 0x7f = 0 \<longleftrightarrow> unat b mod 128 = 0" by (simp only: word_unat_eq_iff unat_and_7f unat_0)
  then have "be_val ((b AND 0x7f) # rev xs) = 0 \<longleftrightarrow> unat b mod 128 = 0 \<and> (\<forall>x\<in>set xs. x = 0)"
    by (simp only: be_val_eq_0 list.set set_rev ball_simps)
  moreover have "mpi_val (rev vch) = 0 \<longleftrightarrow> be_val ((b AND 0x7f) # rev xs) = 0"
    by (simp only: snoc rev_append rev.simps append_Nil append_Cons mpi_val.simps Let_def
        neg_equal_0_iff_equal of_nat_eq_0_iff split: if_split) blast
  ultimately show ?thesis unfolding snoc CastToBool_snoc by metis
qed simp

section \<open>Matching signatures with keys\<close>

lemma multisig_loop_emb:
  "length sigs \<le> length keys \<Longrightarrow> multisig_loop ok sigs keys = list_emb ok sigs keys"
proof (induction ok sigs keys rule: multisig_loop.induct)
  case (3 ok s sigs k keys)
  let ?sigs = "if ok s k then sigs else s # sigs"
  have emb: "list_emb ok (s # sigs) (k # keys) = list_emb ok ?sigs keys" by (simp add: list_emb_code)
  show ?case
  proof (cases "length ?sigs \<le> length keys")
    case True
    then show ?thesis using 3(1) [OF refl] emb by (simp add: Let_def)
  next
    case False
    then have "\<not> list_emb ok ?sigs keys" using list_emb_length by blast
    then show ?thesis using False emb by (simp add: Let_def)
  qed
qed simp_all

section \<open>DER signatures\<close>

definition der_int :: "bytes \<Rightarrow> bool" where
  "der_int R \<longleftrightarrow> R \<noteq> [] \<and> R ! 0 AND 0x80 = 0 \<and> \<not> (length R > 1 \<and> R ! 0 = 0 \<and> R ! 1 AND 0x80 = 0)"

definition der_sig :: "bytes \<Rightarrow> bytes \<Rightarrow> bytes" where
  "der_sig R S = [0x30, of_nat (length R + length S + 4), 0x02, of_nat (length R)] @ R
                 @ [0x02, of_nat (length S)] @ S"

lemma if_False_else: "(if P then False else Q) = (\<not> P \<and> Q)"
  by simp

lemma IsDERSignature_conj:
  "IsDERSignature v w low \<longleftrightarrow>
     9 \<le> length v \<and> length v \<le> 73 \<and> v ! 0 = 0x30 \<and> unat (v ! 1) = length v - (if w then 3 else 2)
     \<and> (w \<longrightarrow> 1 \<le> v ! (length v - 1) AND 0x7f \<and> v ! (length v - 1) AND 0x7f \<le> 3)
     \<and> (let nR = unat (v ! 3); nS = unat (v ! (5 + nR)) in
         5 + nR < length v \<and> nR + nS + (if w then 7 else 6) = length v
         \<and> v ! 2 = 0x02 \<and> nR \<noteq> 0 \<and> v ! 4 AND 0x80 = 0 \<and> \<not> (nR > 1 \<and> v ! 4 = 0 \<and> v ! 5 AND 0x80 = 0)
         \<and> v ! (4 + nR) = 0x02 \<and> nS \<noteq> 0 \<and> v ! (6 + nR) AND 0x80 = 0
         \<and> \<not> (nS > 1 \<and> v ! (6 + nR) = 0 \<and> v ! (7 + nR) AND 0x80 = 0)
         \<and> (low \<longrightarrow> CheckSignatureElement (take nS (drop (6 + nR) v)) True))"
  unfolding IsDERSignature_def Let_def by (simp only: if_False_else not_less not_le de_Morgan_conj de_Morgan_disj imp_conv_disj not_not simp_thms)

lemma drop_nth: "i < length v \<Longrightarrow> drop i v = v ! i # drop (Suc i) v"
  by (simp add: Cons_nth_drop_Suc)

lemma der_shape:
  assumes "length v = nR + nS + 6 + k"
  shows "v = v ! 0 # v ! 1 # v ! 2 # v ! 3 # take nR (drop 4 v)
    @ v ! (4 + nR) # v ! (5 + nR) # take nS (drop (6 + nR) v) @ drop (6 + nR + nS) v"
proof -
  have "v = v ! 0 # v ! 1 # v ! 2 # v ! 3 # drop 4 v"
    using assms drop_nth [of 0 v] drop_nth [of 1 v] drop_nth [of 2 v] drop_nth [of 3 v] by (simp add: eval_nat_numeral)
  moreover have "drop 4 v = take nR (drop 4 v) @ drop (4 + nR) v"
    by (metis add.commute append_take_drop_id drop_drop)
  moreover have "drop (4 + nR) v = v ! (4 + nR) # v ! (5 + nR) # drop (6 + nR) v"
    using assms drop_nth [of "4 + nR" v] drop_nth [of "5 + nR" v] by simp
  moreover have "drop (6 + nR) v = take nS (drop (6 + nR) v) @ drop (6 + nR + nS) v"
    by (metis add.commute append_take_drop_id drop_drop)
  ultimately show ?thesis by metis
qed

definition der_ok :: "bytes \<Rightarrow> bool \<Rightarrow> bool \<Rightarrow> bytes \<Rightarrow> bytes \<Rightarrow> bytes \<Rightarrow> bool" where
  "der_ok v w low R S t \<longleftrightarrow>
     v = der_sig R S @ t \<and> length t = (if w then 1 else 0) \<and> 9 \<le> length v \<and> length v \<le> 73
     \<and> der_int R \<and> der_int S \<and> (w \<longrightarrow> 1 \<le> t ! 0 AND 0x7f \<and> t ! 0 AND 0x7f \<le> 3)
     \<and> (low \<longrightarrow> CheckSignatureElement S True)"

lemma IsDERSignature_sound:
  assumes "IsDERSignature v w low"
  shows "\<exists>R S t. der_ok v w low R S t"
proof -
  define nR nS k where "nR = unat (v ! 3)" and "nS = unat (v ! (5 + nR))" and "k = (if w then 1 else 0 :: nat)"
  note c = assms [unfolded IsDERSignature_conj Let_def, folded nR_def, folded nS_def]
  have len: "length v = nR + nS + 6 + k" using c by (auto simp: k_def split: if_splits)
  let ?R = "take nR (drop 4 v)" and ?S = "take nS (drop (6 + nR) v)" and ?t = "drop (6 + nR + nS) v"
  have lens: "length ?R = nR" "length ?S = nS" "length ?t = k" using len by simp_all
  have "unat (v ! 1) = nR + nS + 4" using c len by (auto simp: k_def split: if_splits)
  then have v1: "v ! 1 = of_nat (nR + nS + 4)" by (metis of_nat_of_unat)
  have v3: "v ! 3 = of_nat nR" "v ! (5 + nR) = of_nat nS" unfolding nS_def nR_def by (metis of_nat_of_unat)+
  have "v = der_sig ?R ?S @ ?t"
    unfolding der_sig_def lens
    using der_shape [OF len] c v1 v3 by (simp del: of_nat_add)
  moreover have "der_int ?R" using c len by (simp add: der_int_def add.commute flip: length_greater_0_conv)
  moreover have "der_int ?S" using c len by (simp add: der_int_def add.commute flip: length_greater_0_conv)
  moreover have "w \<Longrightarrow> ?t ! 0 = v ! (length v - 1)" using len by (simp add: k_def add.assoc)
  ultimately have "der_ok v w low ?R ?S ?t"
    using c lens unfolding der_ok_def k_def by metis
  then show ?thesis by blast
qed

lemma IsDERSignature_complete:
  assumes "der_ok v w low R S t"
  shows "IsDERSignature v w low"
proof -
  define nR nS where "nR = length R" and "nS = length S"
  have v: "v = 0x30 # of_nat (nR + nS + 4) # 0x02 # of_nat nR # R @ 0x02 # of_nat nS # S @ t"
    using assms by (simp add: der_ok_def der_sig_def nR_def nS_def)
  have t: "length t = (if w then 1 else 0)" and len: "length v \<le> 73" "9 \<le> length v"
    and R: "der_int R" and S: "der_int S"
    using assms unfolding der_ok_def by blast+
  have lv: "length v = nR + nS + 6 + length t" by (simp add: v nR_def nS_def)
  have u: "unat (of_nat nR :: byte) = nR" "unat (of_nat nS :: byte) = nS"
    "unat (of_nat (nR + nS + 4) :: byte) = nR + nS + 4"
    using len lv by (simp_all add: unat_of_nat del: of_nat_add)
  have nth: "v ! 0 = 0x30" "v ! 1 = of_nat (nR + nS + 4)" "v ! 2 = 0x02" "v ! 3 = of_nat nR"
    "v ! (4 + nR) = 0x02" "v ! (5 + nR) = of_nat nS"
    by (simp_all add: v nth_append nR_def del: of_nat_add)
  have R': "nR \<noteq> 0" "v ! 4 = R ! 0" "nR > 1 \<Longrightarrow> v ! 5 = R ! 1"
    using R by (simp_all add: v nth_append nR_def der_int_def)
  have S': "nS \<noteq> 0" "v ! (6 + nR) = S ! 0" "nS > 1 \<Longrightarrow> v ! (7 + nR) = S ! 1"
    using S by (simp_all add: v nth_append nR_def nS_def der_int_def)
  have last: "w \<Longrightarrow> v ! (length v - 1) = t ! 0"
    using t lv by (simp add: v nth_append nR_def nS_def)
  have "v = ([0x30, of_nat (nR + nS + 4), 0x02, of_nat nR] @ R @ [0x02, of_nat nS]) @ S @ t" by (simp add: v)
  moreover have "length ([0x30, of_nat (nR + nS + 4), 0x02, of_nat nR] @ R @ [0x02, of_nat nS]) = 6 + nR"
    by (simp add: nR_def)
  ultimately have "drop (6 + nR) v = S @ t" by (metis append_eq_conv_conj)
  then have elem: "take nS (drop (6 + nR) v) = S" by (simp add: nS_def)
  show ?thesis
    unfolding IsDERSignature_conj Let_def nth u elem
    using len lv t R R' S S' last assms by (auto simp: der_int_def der_ok_def nR_def nS_def)
qed

section \<open>Numbers on the stack\<close>

lemma mpi_val_bound: "length v \<le> k \<Longrightarrow> \<bar>mpi_val v\<bar> < 256 ^ k"
proof (cases v)
  case (Cons b bs)
  assume "length v \<le> k"
  have "be_val ((b AND 0x7f) # bs) < 256 ^ length v" using be_val_bound [of "(b AND 0x7f) # bs"] by (simp add: Cons)
  also have "\<dots> \<le> 256 ^ k" using \<open>length v \<le> k\<close> by (intro power_increasing) auto
  finally have "int (be_val ((b AND 0x7f) # bs)) < 256 ^ k" by (simp flip: of_nat_less_iff)
  then show ?thesis by (simp add: Cons Let_def)
qed simp
text \<open>An element of a stack that fits the limit on pushed data.\<close>

abbreviation small_elem :: "bytes \<Rightarrow> bool" where
  "small_elem v \<equiv> length v \<le> MAX_SCRIPT_ELEMENT_SIZE"

context openssl_bn
begin

lemma getvch_length: "\<bar>num x\<bar> < 256 ^ k \<Longrightarrow> length (CBigNum_getvch L x) \<le> Suc k"
proof -
  assume "\<bar>num x\<bar> < 256 ^ k"
  then have "nat \<bar>num x\<bar> < 256 ^ k" by (simp add: nat_less_iff)
  then have "length (rev (nat_bytes (nat \<bar>num x\<bar>))) \<le> k" using length_nat_bytes by simp
  then show ?thesis
    using length_mpi_sign [of "num x < 0" "rev (nat_bytes (nat \<bar>num x\<bar>))"] by (simp add: getvch mpi_enc_def)
qed

lemma CastToBigNum_num:
  "CastToBigNum L v = (if length v > 4 then None else Some (CBigNum_setvch L (CBigNum_getvch L (CBigNum_setvch L v))))"
  "length v \<le> 4 \<Longrightarrow> num (CBigNum_setvch L (CBigNum_getvch L (CBigNum_setvch L v))) = mpi_val (rev v)"
proof -
  assume v: "length v \<le> 4"
  have n: "num (CBigNum_setvch L v) = mpi_val (rev v)" using v by (intro num_setvch) simp
  have "\<bar>mpi_val (rev v)\<bar> < 256 ^ 4" using mpi_val_bound [of "rev v" 4] v by simp
  then have "length (CBigNum_getvch L (CBigNum_setvch L v)) \<le> Suc 4" unfolding n [symmetric] by (rule getvch_length)
  then show "num (CBigNum_setvch L (CBigNum_getvch L (CBigNum_setvch L v))) = mpi_val (rev v)"
    by (simp add: num_setvch getvch n)
qed (simp add: CastToBigNum_def)

lemma CastToBigNum_bound: "CastToBigNum L v = Some x \<Longrightarrow> \<bar>num x\<bar> < 256 ^ 4"
  using CastToBigNum_num(2) [of v] mpi_val_bound [of "rev v" 4]
  by (auto simp: CastToBigNum_num(1) split: if_splits)

lemma getvch_small: "\<bar>num x\<bar> < 256 ^ 5 \<Longrightarrow> small_elem (CBigNum_getvch L x)"
  using getvch_length [of x 5] by simp

lemma op_pick_roll_small:
  "op_pick_roll L roll s = Some s' \<Longrightarrow> list_all small_elem s \<Longrightarrow> list_all small_elem s'"
  by (cases s)
    (auto simp: op_pick_roll_def Let_def list_all_iff nat_less_iff split: if_splits option.splits,
      (blast dest: in_set_takeD in_set_dropD)+)

lemma push16_small: "small_elem (CBigNum_getvch L (CBigNum_setuint32 L (ucast (w :: u16))))"
proof (rule getvch_small)
  have "unat (ucast w :: u32) \<le> unat w" by (simp only: unsigned_ucast_eq take_bit_nat_less_eq_self)
  then have "unat (ucast w :: u32) < 65536" using unat_less_power [of w] by simp
  then have "int (unat (ucast w :: u32)) < 65536" by linarith
  then show "\<bar>num (CBigNum_setuint32 L (ucast w))\<bar> < 256 ^ 5"
    unfolding num_setuint32 abs_of_nat by (rule order.strict_trans) simp
qed

lemma op_stack_small:
  "op_stack L c s = Some s' \<Longrightarrow> list_all small_elem s \<Longrightarrow> list_all small_elem s'"
  unfolding op_stack_def
  by (auto simp: push16_small dest: op_pick_roll_small split: if_splits list.splits)

lemma unary_num_bound:
  "unary_num L c x = Some y \<Longrightarrow> \<bar>num x\<bar> < 256 ^ 4 \<Longrightarrow> \<bar>num y\<bar> < 256 ^ 5"
  using num_add [of x "CBigNum_of_int32 L 1"] num_sub [of x "CBigNum_of_int32 L 1"]
  by (auto simp: unary_num_def Let_def CBigNum_neg_def num_set_negative num_of_bool num_1 split: if_splits)

lemma op_unary_small:
  "op_unary L c s = Some s' \<Longrightarrow> list_all small_elem s \<Longrightarrow> list_all small_elem s'"
  by (auto simp: op_unary_def intro!: getvch_small dest!: unary_num_bound CastToBigNum_bound
      split: list.splits option.splits)

lemma binary_num_bound:
  "binary_num L c x y = Some z \<Longrightarrow> \<bar>num x\<bar> < 256 ^ 4 \<Longrightarrow> \<bar>num y\<bar> < 256 ^ 4 \<Longrightarrow> \<bar>num z\<bar> < 256 ^ 5"
  using num_add [of x y] num_sub [of x y]
  by (auto simp: binary_num_def Let_def num_of_bool split: if_splits)

lemma op_binary_small:
  assumes "op_binary L c s = Some s'" "list_all small_elem s"
  shows "list_all small_elem s'"
proof -
  obtain x2 x1 r a b z where s: "s = x2 # x1 # r" and ab: "CastToBigNum L x1 = Some a" "CastToBigNum L x2 = Some b"
    and z: "binary_num L c a b = Some z" and s': "s' = r \<or> s' = CBigNum_getvch L z # r"
    using assms(1) by (auto simp: op_binary_def Let_def split: list.splits option.splits if_splits)
  have "small_elem (CBigNum_getvch L z)"
    using binary_num_bound [OF z] CastToBigNum_bound ab by (intro getvch_small) blast
  then show ?thesis using s s' assms(2) by auto
qed

end

lemma push_result_small: "push_result verify b s = Some s' \<Longrightarrow> list_all small_elem s \<Longrightarrow> list_all small_elem s'"
  by (auto simp: push_result_def vchTrue_def vchFalse_def split: if_splits)

lemma op_equal_small: "op_equal verify s = Some s' \<Longrightarrow> list_all small_elem s \<Longrightarrow> list_all small_elem s'"
  by (auto simp: op_equal_def elim!: push_result_small split: list.splits)

lemma op_within_small: "op_within L s = Some s' \<Longrightarrow> list_all small_elem s \<Longrightarrow> list_all small_elem s'"
  by (auto simp: op_within_def elim!: push_result_small split: list.splits option.splits prod.splits)

lemma op_checksig_small:
  "op_checksig ctx verify code s = Some s' \<Longrightarrow> list_all small_elem s \<Longrightarrow> list_all small_elem s'"
  by (auto simp: op_checksig_def Let_def elim!: push_result_small split: list.splits)

lemma op_checkmultisig_small:
  assumes "op_checkmultisig ctx verify code k s = Some (k', s')" "list_all small_elem s"
  shows "list_all small_elem s' \<and> k' \<le> 201"
proof -
  have "list_all small_elem (tl (drop i s))" for i
    using assms(2) in_set_dropD [of _ "Suc i" s] by (auto simp: list_all_iff drop_Suc tl_drop)
  then show ?thesis using assms(1)
    by (auto simp: op_checkmultisig_def Let_def elim!: push_result_small split: if_splits option.splits)
qed

lemma length_limbs: "length bs = 4 * m \<Longrightarrow> length (base_uint_getBytes (limbs_of_bytes bs)) = 4 * m"
  using wval_limbs_of_bytes [of bs m] by (simp add: length_getBytes)

lemma op_digest_small:
  assumes "digest_lengths C" "op_digest C c s = Some s'" "list_all small_elem s"
  shows "list_all small_elem s'"
proof -
  have l: "length (SHA256 C b) = 32" "length (SHA1 C b) = 20" "length (RIPEMD160 C b) = 20" for b
    using assms(1) by (simp_all add: digest_lengths_def)
  have "length (base_uint_getBytes (Hash160 C b)) = 20" "length (base_uint_getBytes (Hash C b)) = 32" for b
    using length_limbs [of _ 5] length_limbs [of _ 8] by (simp_all add: Hash160_def Hash_def l)
  then have "small_elem (op_hash_fn C c b)" for b by (simp add: op_hash_fn_def l)
  then show ?thesis using assms(2,3) by (auto simp: op_digest_def split: list.splits)
qed

lemma op_lock_same:
  "op_checklocktime ctx s = Some s' \<Longrightarrow> s' = s" "op_checksequence ctx s = Some s' \<Longrightarrow> s' = s"
  by (auto simp: op_checklocktime_def op_checksequence_def split: if_splits option.splits)

section \<open>The limits of the interpreter\<close>

definition eval_inv :: "eval_state \<Rightarrow> bool" where
  "eval_inv st \<longleftrightarrow> list_all small_elem (st_stack st) \<and> list_all small_elem (st_altstack st)
     \<and> st_nOpCount st \<le> 201"

lemma op_control_inv: "op_control ctx c f st = Some st' \<Longrightarrow> eval_inv st \<Longrightarrow> eval_inv st'"
  by (auto simp: op_control_def eval_inv_def set_stack_def Let_def dest!: op_lock_same split: if_splits list.splits)

lemma set_stack_inv:
  "set_stack st r = Some st' \<Longrightarrow> eval_inv st \<Longrightarrow>
   (\<And>s'. r = Some s' \<Longrightarrow> list_all small_elem (st_stack st) \<Longrightarrow> list_all small_elem s') \<Longrightarrow> eval_inv st'"
  by (auto simp: set_stack_def eval_inv_def)


text \<open>The branches of a conditional that succeeds.\<close>

lemma if_SomeE:
  "(if b then x else y) = Some z \<Longrightarrow> (x = Some z \<Longrightarrow> P) \<Longrightarrow> (y = Some z \<Longrightarrow> P) \<Longrightarrow> P"
  by (simp split: if_splits)

lemma exec_op_inv:
  assumes bn: "openssl_bn (ec_lib ctx) num" and dl: "digest_lengths (ec_crypto ctx)"
    and e: "exec_op ctx c f st = Some st'" and inv: "eval_inv st"
  shows "eval_inv st'"
proof -
  let ?L = "ec_lib ctx"
  have push: "small_elem (CBigNum_getvch ?L (CBigNum_of_int32 ?L (ucast c - 0x50)))"
    by (rule openssl_bn.getvch_small [OF bn])
      (use sint_lt [of "ucast c - 0x50 :: 32 word"] sint_ge [of "ucast c - 0x50 :: 32 word"] in
        \<open>simp add: openssl_bn.num_of_int32 [OF bn]\<close>)
  note step = set_stack_inv [OF _ inv]
  show ?thesis
    using e unfolding exec_op_def Let_def
    apply (elim if_SomeE)
    subgoal using inv push by (auto simp: eval_inv_def)
    subgoal by (rule op_control_inv [OF _ inv])
    subgoal using inv by (auto simp: eval_inv_def split: list.splits)
    subgoal using inv by (auto simp: eval_inv_def split: list.splits)
    subgoal by (erule step) (rule op_equal_small)
    subgoal by (erule step) (rule openssl_bn.op_stack_small [OF bn])
    subgoal by (erule step) (rule openssl_bn.op_unary_small [OF bn])
    subgoal by (erule step) (rule openssl_bn.op_binary_small [OF bn])
    subgoal by (erule step) (rule op_within_small)
    subgoal by (erule step) (rule op_digest_small [OF dl])
    subgoal using inv by (auto simp: eval_inv_def)
    subgoal by (erule step) (rule op_checksig_small)
    subgoal using inv by (auto simp: eval_inv_def dest: op_checkmultisig_small)
    subgoal by simp
    done
qed

lemma eval_step_inv:
  assumes bn: "openssl_bn (ec_lib ctx) num" and dl: "digest_lengths (ec_crypto ctx)"
    and e: "eval_step ctx st = Some st'" and inv: "eval_inv st"
  shows "eval_inv st' \<and> length (st_stack st') + length (st_altstack st') \<le> 1000"
proof -
  obtain c v pc where g: "GetOp2 (st_pc st) = Some (c, v, pc)"
    using e by (cases "GetOp2 (st_pc st)") (auto simp: eval_step_def Let_def)
  define k where "k = (if OP_16 < c then st_nOpCount st + 1 else st_nOpCount st)"
  define st1 where "st1 = st\<lparr> st_pc := pc, st_nOpCount := k \<rparr>"
  have "small_elem v" and "k \<le> 201"
    using e g inv by (auto simp: eval_step_def k_def Let_def eval_inv_def split: if_splits)
  then have inv1: "eval_inv st1" and push: "eval_inv (st1\<lparr> st_stack := v # st_stack st1 \<rparr>)"
    using inv by (simp_all add: eval_inv_def st1_def)
  obtain st2 where "st2 = st' \<and> length (st_stack st') + length (st_altstack st') \<le> 1000"
    and "Some st2 = Some (st1\<lparr> st_stack := v # st_stack st1 \<rparr>) \<or> (\<exists>f. exec_op ctx c f st1 = Some st2) \<or> st2 = st1"
    using e g unfolding eval_step_def Let_def
    by (auto simp: st1_def k_def split: if_splits option.splits)
  then show ?thesis using inv1 push exec_op_inv [OF bn dl _ inv1] by auto
qed

text \<open>The states the loop goes through.\<close>

inductive eval_reach :: "('b, 'k, 'g) eval_ctx \<Rightarrow> eval_state \<Rightarrow> eval_state \<Rightarrow> bool" for ctx st where
  start: "eval_reach ctx st st"
| step: "eval_reach ctx st st1 \<Longrightarrow> st_pc st1 \<noteq> [] \<Longrightarrow> eval_step ctx st1 = Some st2 \<Longrightarrow> eval_reach ctx st st2"

lemma eval_reach_Cons:
  assumes "eval_reach ctx st1 st2" "st_pc st \<noteq> []" "eval_step ctx st = Some st1"
  shows "eval_reach ctx st st2"
  using assms by (induction) (blast intro: eval_reach.intros)+

lemma eval_loop_reach: "eval_loop ctx st = Some st' \<Longrightarrow> eval_reach ctx st st' \<and> st_pc st' = []"
proof (induction ctx st rule: eval_loop.induct)
  case (1 ctx st)
  show ?case
  proof (cases "st_pc st = []")
    case True
    then have "eval_loop ctx st = Some st" by (subst eval_loop.simps) simp
    then show ?thesis using 1(2) True by (auto intro: eval_reach.start)
  next
    case False
    then obtain st1 where st1: "eval_step ctx st = Some st1" "eval_loop ctx st1 = Some st'"
      using 1(2) by (subst (asm) eval_loop.simps) (auto split: option.splits)
    then have "eval_reach ctx st1 st' \<and> st_pc st' = []" using 1(1) False by blast
    then show ?thesis using eval_reach_Cons [OF _ False st1(1)] by blast
  qed
qed

definition within_limits :: "eval_state \<Rightarrow> bool" where
  "within_limits st \<longleftrightarrow> length (st_stack st) + length (st_altstack st) \<le> 1000 \<and> eval_inv st"

lemma eval_reach_limits:
  assumes bn: "openssl_bn (ec_lib ctx) num" and dl: "digest_lengths (ec_crypto ctx)"
    and r: "eval_reach ctx st st'" and w: "within_limits st"
  shows "within_limits st'"
  using r w
proof induction
  case (step st1 st2)
  then show ?case using eval_step_inv [OF bn dl step(3)] by (simp add: within_limits_def)
qed

section \<open>Evaluation of known instructions\<close>

lemma eval_loop_done [simp]: "st_pc st = [] \<Longrightarrow> eval_loop ctx st = Some st"
  by (subst eval_loop.simps) simp

lemma eval_loop_step:
  "st_pc st \<noteq> [] \<Longrightarrow> eval_loop ctx st = (case eval_step ctx st of None \<Rightarrow> None | Some st \<Rightarrow> eval_loop ctx st)"
  by (subst eval_loop.simps) simp

lemma eval_step_push:
  assumes "st_pc st = push_bytes b @ rest" "length b \<le> 520" "list_all (\<lambda>b. b) (st_vfExec st)"
    and "length (st_stack st) + length (st_altstack st) < 1000"
  shows "eval_step ctx st = Some (st\<lparr> st_pc := rest, st_stack := b # st_stack st \<rparr>)"
proof -
  have b: "length b < 2 ^ 32" using assms(2) by simp
  have "\<not> disabled_opcode (hd (push_bytes b))"
    using GetOp2_push(2) [OF b] by (auto simp: disabled_opcode_def)
  then show ?thesis
    using assms GetOp2_push [OF b] push_opcode [OF b] by (simp add: eval_step_def Let_def)
qed

lemma eval_step_op:
  assumes "st_pc st = c # rest" "OP_16 < c" "\<not> disabled_opcode c" "list_all (\<lambda>b. b) (st_vfExec st)"
    and "st_nOpCount st < 201"
  shows "eval_step ctx st =
    (case exec_op ctx c True (st\<lparr> st_pc := rest, st_nOpCount := st_nOpCount st + 1 \<rparr>) of
       None \<Rightarrow> None
     | Some st \<Rightarrow> if length (st_stack st) + length (st_altstack st) > 1000 then None else Some st)"
proof -
  have "\<not> c \<le> OP_PUSHDATA4" using assms(2) by (auto simp: word_le_nat_alt word_less_nat_alt)
  then show ?thesis using assms by (simp add: eval_step_def GetOp2_plain Let_def)
qed

lemma run_push:
  assumes "length b \<le> 520" "length s + length a < 1000"
  shows "eval_loop ctx \<lparr> st_pc = push_bytes b @ rest, st_pbegincodehash = h, st_stack = s, st_altstack = a,
           st_vfExec = [], st_nOpCount = n \<rparr>
       = eval_loop ctx \<lparr> st_pc = rest, st_pbegincodehash = h, st_stack = b # s, st_altstack = a,
           st_vfExec = [], st_nOpCount = n \<rparr>"
  using assms by (simp add: eval_loop_step eval_step_push)

lemma run_op:
  assumes "OP_16 < c" "\<not> disabled_opcode c" "n < 201"
  shows "eval_loop ctx \<lparr> st_pc = c # rest, st_pbegincodehash = h, st_stack = s, st_altstack = a,
           st_vfExec = [], st_nOpCount = n \<rparr>
       = (case exec_op ctx c True \<lparr> st_pc = rest, st_pbegincodehash = h, st_stack = s, st_altstack = a,
           st_vfExec = [], st_nOpCount = n + 1 \<rparr> of
            None \<Rightarrow> None
          | Some st \<Rightarrow> if length (st_stack st) + length (st_altstack st) > 1000 then None else eval_loop ctx st)"
  using assms by (simp add: eval_loop_step eval_step_op split: option.split)

lemma p2sh_first:
  assumes "IsPayToScriptHash script"
  obtains rest where "script = OP_HASH160 # rest" "length rest = 22"
  using assms by (cases script) (auto simp: IsPayToScriptHash_def)

text \<open>A pay-to-script-hash output fails on the empty stack at its first instruction.\<close>

lemma p2sh_empty_stack:
  assumes "IsPayToScriptHash script"
  shows "EvalScript ctx [] script = None"
proof -
  obtain rest where "script = OP_HASH160 # rest" "length rest = 22" using p2sh_first [OF assms] .
  then show ?thesis
    by (simp add: EvalScript_def init_state_def run_op disabled_opcode_def exec_op_def op_digest_def set_stack_def)
qed

lemma eval_pushes:
  assumes "list_all (\<lambda>b. length b \<le> 520) bs" "length s + length bs \<le> 1000"
  shows "eval_loop ctx \<lparr> st_pc = concat (map push_bytes bs) @ rest, st_pbegincodehash = h, st_stack = s,
           st_altstack = [], st_vfExec = [], st_nOpCount = n \<rparr>
       = eval_loop ctx \<lparr> st_pc = rest, st_pbegincodehash = h, st_stack = rev bs @ s,
           st_altstack = [], st_vfExec = [], st_nOpCount = n \<rparr>"
  using assms by (induction bs arbitrary: s) (simp_all add: run_push)

lemma push_uint160_bytes: "length h = 5 \<Longrightarrow> push_uint160 h = push_bytes (base_uint_getBytes h)"
  by (simp add: push_uint160_def push_bytes_def length_getBytes)

lemma getBytes_inject:
  assumes "length a = length b"
  shows "base_uint_getBytes a = base_uint_getBytes b \<longleftrightarrow> a = b"
  using base_uint_of_vch_getBytes [of a] base_uint_of_vch_getBytes [of b] assms by metis

lemma Hash160_length: "digest_lengths C \<Longrightarrow> length (Hash160 C b) = 5"
  using wval_limbs_of_bytes [of "RIPEMD160 C (SHA256 C b)" 5] by (simp add: Hash160_def digest_lengths_def)

lemma eval_p2pkh:
  assumes "length key \<le> 520" "length h = 5" "digest_lengths (ec_crypto ctx)"
    and script: "script = SetDestination (CKeyID h)"
  shows "EvalScript ctx [key, sig] script =
    (if Hash160 (ec_crypto ctx) key = h
     then Some [if sig_ok ctx (snd (FindAndDelete script (push_bytes sig))) sig key then vchTrue else vchFalse]
     else None)"
proof -
  let ?b = "base_uint_getBytes h"
  have s: "script = OP_DUP # OP_HASH160 # push_bytes ?b @ [OP_EQUALVERIFY, OP_CHECKSIG]"
    using assms(2) by (simp add: script SetDestination_def push_uint160_bytes)
  have b: "length ?b = 20" using assms(2) by (simp add: length_getBytes)
  have len: "length script \<le> 10000" using b by (simp add: s push_bytes_def)
  have eq: "base_uint_getBytes (Hash160 (ec_crypto ctx) key) = ?b \<longleftrightarrow> Hash160 (ec_crypto ctx) key = h"
    using assms(2) Hash160_length [OF assms(3)] by (intro getBytes_inject) simp
  have "eval_loop ctx (init_state [key, sig] script) =
    (if Hash160 (ec_crypto ctx) key = h
     then Some \<lparr> st_pc = [], st_pbegincodehash = script,
       st_stack = [if sig_ok ctx (snd (FindAndDelete script (push_bytes sig))) sig key then vchTrue else vchFalse],
       st_altstack = [], st_vfExec = [], st_nOpCount = 4 \<rparr>
     else None)"
    unfolding init_state_def
    by (subst (1) s)
      (simp add: run_op run_push b disabled_opcode_def exec_op_def set_stack_def op_stack_def op_digest_def op_hash_fn_def
        op_equal_def push_result_def op_checksig_def Let_def eq)
  then show ?thesis using len by (simp add: EvalScript_def)
qed

section \<open>Lock times\<close>

lemma CheckLockTime_final:
  assumes "CheckLockTime v tx i" "i < length (vin tx)" "CTransaction_IsFinal best adj tx h t" "0 < h" "0 < t"
  shows "if v < LOCKTIME_THRESHOLD then v < h else v < t"
proof -
  let ?l = "int (unat (nLockTime tx))"
  have c: "v \<le> ?l" "?l < LOCKTIME_THRESHOLD \<longleftrightarrow> v < LOCKTIME_THRESHOLD" "\<not> CTxIn_IsFinal (vin tx ! i)"
    using assms(1) by (auto simp: CheckLockTime_def CTxIn_IsFinal_def Let_def simp del: of_nat_unat split: if_splits)
  have "\<not> list_all CTxIn_IsFinal (vin tx)" using c(3) assms(2) by (auto simp: list_all_length)
  then consider "nLockTime tx = 0" | "?l < (if ?l < LOCKTIME_THRESHOLD then h else t)"
    using assms(3-5) by (auto simp: CTransaction_IsFinal_def Let_def simp del: of_nat_unat split: if_splits)
  then show ?thesis
  proof cases
    case 1
    then show ?thesis using c(1) assms(4) by simp
  next
    case 2
    then show ?thesis using c(1,2) by (auto simp del: of_nat_unat split: if_splits)
  qed
qed

lemma and_exp_word: "w AND 2 ^ n = (if bit w n then 2 ^ n else 0)" for w :: "'a::len word"
  by (rule bit_eqI) (auto simp: bit_simps)

lemma int32_sign_clear:
  assumes "0 \<le> k" "k < 2 ^ 31"
  shows "(word_of_int k :: u32) AND 0x80000000 = 0"
proof -
  have "k div 2 ^ 31 = 0" using assms by (rule div_pos_pos_trivial)
  then have "\<not> bit k 31" by (simp add: bit_iff_odd)
  then have "\<not> bit (word_of_int k :: u32) 31" by (simp only: bit_word_of_int_iff) simp
  then show ?thesis using and_exp_word [of "word_of_int k :: u32" 31] by simp
qed

lemma checksequence_no_nop:
  assumes bn: "openssl_bn (ec_lib ctx) num" and "ec_flags ctx AND SCRIPT_VERIFY_CHECKSEQUENCEVERIFY \<noteq> 0"
    and "CastToBigNum (ec_lib ctx) v = Some x"
  shows "op_checksequence ctx (v # s) =
    (if 0 \<le> num x \<and> CheckSequence (CBigNum_getuint64 (ec_lib ctx) x) (ec_txTo ctx) (ec_nIn ctx)
     then Some (v # s) else None)"
proof -
  have "CBigNum_lt (ec_lib ctx) x (CBigNum_of_int32 (ec_lib ctx) 0) \<longleftrightarrow> num x < 0"
    by (simp add: CBigNum_lt_def openssl_bn.cmp [OF bn] openssl_bn.num_0 [OF bn] sgn_if)
  moreover have "(word_of_int (CBigNum_getint32 (ec_lib ctx) x) :: u32) AND 0x80000000 = 0" if "0 \<le> num x"
    by (rule int32_sign_clear) (use that in \<open>simp_all add: openssl_bn.getint32_clamp [OF bn]\<close>)
  ultimately show ?thesis using assms(2,3) by (auto simp: op_checksequence_def)
qed

lemma sequence_masked:
  "unat (w AND (0x00400000 OR 0x0000ffff)) = (if bit w 22 then 0x00400000 else 0) + unat w mod 2 ^ 16" for w :: u64
proof -
  have m: "(0x0000ffff :: u64) = mask 16" "(0x00400000 :: u64) = 2 ^ 22" by (simp_all add: mask_eq_exp_minus_1)
  have low: "unat (w AND 0x0000ffff) = unat w mod 2 ^ 16" unfolding m(1) by (rule unat_and_mask)
  have high: "unat (w AND 0x00400000) = (if bit w 22 then 0x00400000 else 0)" unfolding m(2) and_exp_word by simp
  have "unat ((w AND 0x0000ffff) OR (w AND 0x00400000)) = unat (w AND 0x0000ffff) + unat (w AND 0x00400000)"
    by (rule unat_or_disjoint [of _ 16 _ "if bit w 22 then 64 else 0"]) (simp_all only: low high, simp_all)
  moreover have "w AND (0x00400000 OR 0x0000ffff) = (w AND 0x0000ffff) OR (w AND 0x00400000)"
    by (simp only: bit.conj_disj_distrib or.commute)
  ultimately show ?thesis by (simp only: low high add.commute)
qed

lemma sint_small: "unat w < 2 ^ 63 \<Longrightarrow> sint (w :: u64) = int (unat w)"
  by (simp add: sint_unat del: of_nat_unat)

lemma CheckSequence_spec:
  "CheckSequence w tx i \<longleftrightarrow>
     \<not> bit (nSequence (vin tx ! i)) 31 \<and> bit (nSequence (vin tx ! i)) 22 = bit w 22
     \<and> unat w mod 2 ^ 16 \<le> unat (nSequence (vin tx ! i)) mod 2 ^ 16"
proof -
  let ?q = "nSequence (vin tx ! i)" and ?m = "0x00400000 OR 0x0000ffff :: u64"
  let ?Q = "ucast ?q :: u64"
  have q: "unat ?Q = unat ?q" "bit ?Q 22 = bit ?q 22" by (simp_all add: unat_ucast64 bit_ucast_iff)
  have flag: "?Q AND 0x80000000 = 0 \<longleftrightarrow> \<not> bit ?q 31"
    using and_exp_word [of ?Q 31] by (simp add: bit_ucast_iff)
  have bound: "unat (u AND ?m) < 2 ^ 63" for u :: u64
  proof -
    define r where "r = unat u mod 2 ^ 16"
    have "r < 65536" by (simp add: r_def)
    then show ?thesis unfolding sequence_masked r_def [symmetric] by simp
  qed
  have s: "sint (u AND ?m) = int ((if bit u 22 then 0x00400000 else 0) + unat u mod 2 ^ 16)" for u :: u64
    unfolding sint_small [OF bound] sequence_masked ..
  define x y where "x = unat w mod 2 ^ 16" and "y = unat ?q mod 2 ^ 16"
  have "x < 65536" "y < 65536" by (simp_all add: x_def y_def)
  moreover have "sint (0x00400000 :: u64) = 0x00400000" by (simp add: sint_small)
  ultimately show ?thesis
    unfolding CheckSequence_def Let_def flag s q x_def [symmetric] y_def [symmetric]
    by (auto split: if_splits)
qed

section \<open>What a signature commits to\<close>

text \<open>A stream over a plain byte list, which never runs into the size limit of the data stream.\<close>

definition list_read :: "bytes \<Rightarrow> nat \<Rightarrow> (bytes \<times> bytes) option" where
  "list_read bs k = (if k \<le> length bs then Some (take k bs, drop k bs) else None)"

interpretation list_stream: input_stream list_read "\<lambda>bs. bs" "\<lambda>bs. True"
  by unfold_locales (simp_all add: list_read_def)

lemma ser_CTransaction_inject:
  assumes "CTransaction_wf a" "CTransaction_wf b" "ser_CTransaction a @ r = ser_CTransaction b @ r'"
  shows "a = b \<and> r = r'"
proof -
  have p: "unser_CTransaction list_read (ser_CTransaction t @ q) = Some (t, q)" if "CTransaction_wf t" for t q
    by (rule readsE [OF list_stream.reads_CTransaction [OF that], of "ser_CTransaction t @ q" q]) simp_all
  have "Some (a, r) = Some (b, r')"
    by (rule trans [OF p [OF assms(1), of r, unfolded assms(3), symmetric] p [OF assms(2), of r']])
  then show ?thesis by blast
qed

lemma fad_loop_length: "length (snd (fad_loop b pc)) \<le> length pc"
proof (induction b pc rule: fad_loop.induct)
  case (1 b pc)
  obtain k pc1 where e: "erase_at b pc = (k, pc1)" by (cases "erase_at b pc")
  have le: "length pc1 \<le> length pc" using erase_at_length [of b pc] e by simp
  show ?case
  proof (cases "GetOp2 pc1")
    case None
    then show ?thesis using e le by (subst fad_loop.simps) simp
  next
    case (Some x)
    obtain c v pc2 where x: "x = (c, v, pc2)" by (cases x)
    have "length (snd (fad_loop b pc2)) \<le> length pc2" using 1 [OF e [symmetric] refl Some] x by simp
    moreover have "length pc2 < length pc1" using Some x GetOp2_shorter by simp
    ultimately show ?thesis using e le Some x
      by (subst fad_loop.simps) (cases "fad_loop b pc2", simp)
  qed
qed

lemma FindAndDelete_length: "length (snd (FindAndDelete s b)) \<le> length s"
  by (simp add: FindAndDelete_def fad_loop_length)

lemma sighash_tx_all:
  assumes "t AND 0x1f \<noteq> SIGHASH_NONE" "t AND 0x1f \<noteq> SIGHASH_SINGLE" "t AND SIGHASH_ANYONECANPAY = 0"
    "i < length (vin tx)"
  shows "sighash_tx code tx i t = Some (blank_scripts (snd (FindAndDelete code [OP_CODESEPARATOR])) i tx)"
  using assms by (simp add: sighash_tx_def Let_def)

lemma blank_scripts_vin:
  "i < length (vin tx) \<Longrightarrow> j < length (vin tx) \<Longrightarrow>
   vin (blank_scripts code i tx) ! j = (vin tx ! j)\<lparr> scriptSig := if j = i then code else [] \<rparr>"
  by (simp add: blank_scripts_def Let_def)

lemma blank_scripts_fields:
  "tx_nVersion (blank_scripts code i tx) = tx_nVersion tx" "tx_nTime (blank_scripts code i tx) = tx_nTime tx"
  "vout (blank_scripts code i tx) = vout tx" "nLockTime (blank_scripts code i tx) = nLockTime tx"
  "length (vin (blank_scripts code i tx)) = length (vin tx)"
  by (simp_all add: blank_scripts_def Let_def)

lemma blank_scripts_wf:
  assumes "CTransaction_wf tx" "length code \<le> MAX_SIZE" "i < length (vin tx)"
  shows "CTransaction_wf (blank_scripts code i tx)"
proof -
  have "CTxIn_wf (vin (blank_scripts code i tx) ! j)" if "j < length (vin tx)" for j
    using that assms by (simp add: blank_scripts_vin CTransaction_wf_def CTxIn_wf_def list_all_length)
  then show ?thesis using assms(1) by (simp add: CTransaction_wf_def blank_scripts_fields list_all_length)
qed

lemma blank_scripts_inject:
  assumes "blank_scripts c1 i1 a = blank_scripts c2 i2 b" "i1 < length (vin a)" "i2 < length (vin b)"
  shows "tx_nVersion a = tx_nVersion b \<and> tx_nTime a = tx_nTime b \<and> nLockTime a = nLockTime b
    \<and> vout a = vout b \<and> map prevout (vin a) = map prevout (vin b) \<and> map nSequence (vin a) = map nSequence (vin b)
    \<and> c1 = c2 \<and> (c1 = [] \<or> i1 = i2)"
proof -
  have len: "length (vin a) = length (vin b)"
    using arg_cong [OF assms(1), of "\<lambda>t. length (vin t)"] by (simp only: blank_scripts_fields)
  have fields: "tx_nVersion a = tx_nVersion b" "tx_nTime a = tx_nTime b" "nLockTime a = nLockTime b" "vout a = vout b"
    using arg_cong [OF assms(1), of tx_nVersion] arg_cong [OF assms(1), of tx_nTime]
      arg_cong [OF assms(1), of nLockTime] arg_cong [OF assms(1), of vout] by (simp_all only: blank_scripts_fields)
  have eq: "(vin a ! j)\<lparr> scriptSig := if j = i1 then c1 else [] \<rparr> = (vin b ! j)\<lparr> scriptSig := if j = i2 then c2 else [] \<rparr>"
    if "j < length (vin a)" for j
    using blank_scripts_vin [of i1 a j c1] blank_scripts_vin [of i2 b j c2] assms that len by simp
  have sc: "(if j = i1 then c1 else []) = (if j = i2 then c2 else [])" if "j < length (vin a)" for j
    using arg_cong [OF eq [OF that], of scriptSig] by simp
  have "map prevout (vin a) = map prevout (vin b)" "map nSequence (vin a) = map nSequence (vin b)"
  proof -
    show "map prevout (vin a) = map prevout (vin b)"
      using len arg_cong [OF eq, of _ prevout] by (intro nth_equalityI) simp_all
    show "map nSequence (vin a) = map nSequence (vin b)"
      using len arg_cong [OF eq, of _ nSequence] by (intro nth_equalityI) simp_all
  qed
  moreover have "c1 = c2 \<and> (c1 = [] \<or> i1 = i2)" using sc [of i1] sc [of i2] assms(2,3) len by (auto split: if_splits)
  ultimately show ?thesis using fields by blast
qed

lemma sighash_none_free:
  assumes "t AND 0x1f = SIGHASH_NONE"
  shows "sighash_tx code (tx\<lparr> vout := outs \<rparr>) i t = sighash_tx code tx i t"
  using assms by (cases tx) (simp add: sighash_tx_def blank_scripts_def free_sequences_def Let_def cong: if_cong)

lemma sighash_anyonecanpay_free:
  assumes "t AND SIGHASH_ANYONECANPAY \<noteq> 0" "i < length (vin tx)" "ins ! i = vin tx ! i" "i < length ins"
  shows "sighash_tx code (tx\<lparr> vin := ins \<rparr>) i t = sighash_tx code tx i t"
  using assms
  by (cases tx) (simp add: sighash_tx_def blank_scripts_def free_sequences_def only_input_def single_output_def Let_def cong: if_cong)

lemma sighash_single_other:
  assumes "t AND 0x1f = SIGHASH_SINGLE" "i < length (vout tx)" "i < length outs" "outs ! i = vout tx ! i"
  shows "sighash_tx code (tx\<lparr> vout := outs \<rparr>) i t = sighash_tx code tx i t"
  using assms
  by (cases tx) (simp add: sighash_tx_def blank_scripts_def free_sequences_def only_input_def single_output_def Let_def cong: if_cong)

section \<open>The signature cache\<close>

definition sigdata_wf :: "sigdata_type \<Rightarrow> bool" where
  "sigdata_wf e \<longleftrightarrow> (case e of (h, s, k) \<Rightarrow> length h = 8 \<and> CPubKey_wf k)"

definition sigdata_valid :: "('k, 'g) crypto \<Rightarrow> sigdata_type \<Rightarrow> bool" where
  "sigdata_valid C e \<longleftrightarrow> (case e of (h, s, k) \<Rightarrow> sigdata_wf e \<and> CPubKey_Verify C k h s)"

lemma CPubKey_lt_eq:
  assumes "CPubKey_wf a" "CPubKey_wf b" "\<not> CPubKey_lt a b" "\<not> CPubKey_lt b a"
  shows "a = b"
proof -
  have h: "a ! 0 = b ! 0" using assms(3,4) by (auto simp: CPubKey_lt_def not_less)
  then have "CPubKey_size a = CPubKey_size b" by (simp add: CPubKey_size_def)
  then have "take (CPubKey_size a) a = a" "take (CPubKey_size b) b = b" "take (CPubKey_size a) b = b" "take (CPubKey_size b) a = a"
    using assms(1,2) by (simp_all add: CPubKey_wf_def)
  then show ?thesis using assms(3,4) h bytes_lt_eq [of a b] by (simp add: CPubKey_lt_def)
qed

lemma sigdata_equiv:
  assumes "sigdata_wf e" "sigdata_wf k" "\<not> sigdata_lt e k" "\<not> sigdata_lt k e"
  shows "e = k"
proof -
  obtain h s q h' s' q' where e: "e = (h, s, q)" and k: "k = (h', s', q')" by (cases e, cases k)
  have w: "length h = 8" "length h' = 8" "CPubKey_wf q" "CPubKey_wf q'" using assms(1,2) by (simp_all add: e k sigdata_wf_def)
  have "\<not> base_uint_lt h h'" "\<not> base_uint_lt h' h" using assms(3,4) by (auto simp: e k sigdata_lt_def split: if_splits)
  then have "wval h = wval h'" using w base_uint_lt [of h h'] base_uint_lt [of h' h] by simp
  then have h: "h = h'" using wval_inject [of h h'] w by simp
  have irr: "\<not> base_uint_lt h h" by (simp add: base_uint_lt)
  then have "\<not> bytes_lt s s'" "\<not> bytes_lt s' s" using assms(3,4) h by (auto simp: e k sigdata_lt_def split: if_splits)
  then have s: "s = s'" by (rule bytes_lt_eq)
  then have "\<not> CPubKey_lt q q'" "\<not> CPubKey_lt q' q"
    using assms(3,4) h irr \<open>\<not> bytes_lt s s'\<close> by (auto simp: e k sigdata_lt_def split: if_splits)
  then show ?thesis using CPubKey_lt_eq [OF w(3,4)] h s by (simp add: e k)
qed

lemma evict_loop_subset: "set (evict_loop m rnd c) \<subseteq> set c"
proof (induction m rnd c rule: evict_loop.induct)
  case (1 m rnd c)
  have "set (take i c @ drop (Suc i) c) \<subseteq> set c" for i using set_take_subset [of i c] set_drop_subset [of "Suc i" c] by simp
  then show ?case using 1 by (subst evict_loop.simps) (simp add: Let_def, blast)
qed

lemma evict_loop_length: "0 \<le> m \<Longrightarrow> int (length (evict_loop m rnd c)) \<le> m"
proof (induction m rnd c rule: evict_loop.induct)
  case (1 m rnd c)
  then show ?case by (subst evict_loop.simps) (auto simp: Let_def not_less)
qed

lemma cache_insert_set: "set (cache_insert k c) \<subseteq> insert k (set c)"
  by (induction c) auto

lemma cache_insert_length: "length (cache_insert k c) \<le> Suc (length c)"
  by (induction c) auto

lemma CPubKey_Set_wf: "CPubKey_IsValid (CPubKey_Set v) \<Longrightarrow> CPubKey_wf (CPubKey_Set v)"
  by (auto simp: CPubKey_wf_def CPubKey_Set_def CPubKey_IsValid_def CPubKey_size_def CPubKey_GetLen_def Let_def
      split: if_splits)

lemma SignatureHash_length:
  assumes "digest_lengths C"
  shows "length (SignatureHash C code tx i t) = 8"
proof -
  have "length (Hash C b) = 8" for b
    using assms wval_limbs_of_bytes [of "SHA256 C (SHA256 C b)" 8] by (simp add: Hash_def digest_lengths_def)
  then show ?thesis by (simp add: SignatureHash_def base_uint_assign64_def split: option.split)
qed

lemma sig_query_wf:
  "digest_lengths C \<Longrightarrow> sig_query C sg key code tx i t = Some q \<Longrightarrow> sigdata_wf q"
  by (auto simp: sig_query_def sigdata_wf_def SignatureHash_length CPubKey_Set_wf Let_def split: if_splits)

lemma CheckSig_cached_transparent:
  assumes "digest_lengths C" "list_all (sigdata_valid C) cache"
    and "CheckSig_cached C m rnd cache sg key code tx i t flags = (b, cache')"
  shows "b = CheckSig C sg key code tx i t \<and> list_all (sigdata_valid C) cache'
    \<and> length cache' \<le> max (length cache) (nat m + 1)"
proof (cases "sig_query C sg key code tx i t")
  case None
  then show ?thesis using assms by (auto simp: CheckSig_cached_def CheckSig_def)
next
  case (Some q)
  obtain h s k where q: "q = (h, s, k)" by (cases q)
  have wf: "sigdata_wf q" using sig_query_wf [OF assms(1) Some] .
  have hit: "CPubKey_Verify C k h s" if get: "CSignatureCache_Get cache q"
  proof -
    obtain e where e: "e \<in> set cache" "\<not> sigdata_lt e q" "\<not> sigdata_lt q e"
      using get unfolding CSignatureCache_Get_def list_ex_iff by blast
    then have v: "sigdata_valid C e" using assms(2) by (auto simp: list_all_iff)
    then have "sigdata_wf e" by (cases e) (simp add: sigdata_valid_def)
    then have "e = q" using sigdata_equiv [OF _ wf e(2,3)] by simp
    then show ?thesis using v by (simp add: q sigdata_valid_def)
  qed
  have set: "list_all (sigdata_valid C) (CSignatureCache_Set m rnd q cache)
      \<and> length (CSignatureCache_Set m rnd q cache) \<le> max (length cache) (nat m + 1)" if "CPubKey_Verify C k h s"
  proof (cases "m \<le> 0")
    case False
    have "sigdata_valid C q" using that wf by (simp add: q sigdata_valid_def)
    then have "list_all (sigdata_valid C) (cache_insert q (evict_loop m rnd cache))"
      using assms(2) cache_insert_set [of q "evict_loop m rnd cache"] evict_loop_subset [of m rnd cache]
      unfolding list_all_iff by blast
    moreover have "length (evict_loop m rnd cache) \<le> nat m" using evict_loop_length [of m rnd cache] False by simp
    ultimately show ?thesis
      using False cache_insert_length [of q "evict_loop m rnd cache"] by (simp add: CSignatureCache_Set_def)
  qed (use assms(2) in \<open>simp add: CSignatureCache_Set_def\<close>)
  show ?thesis
    using assms(2,3) hit set Some by (auto simp: CheckSig_cached_def CheckSig_def q split: if_splits)
qed

section \<open>Disabled opcodes\<close>

lemma disabled_plain: "disabled_opcode c \<Longrightarrow> GetOp2 (c # rest) = Some (c, [], rest)"
  by (rule GetOp2_plain) (auto simp: disabled_opcode_def)

lemma eval_step_pc:
  "eval_step ctx st = Some st' \<Longrightarrow> GetOp2 (st_pc st) = Some (c, v, pc) \<Longrightarrow> st_pc st' = pc"
  by (auto simp: eval_step_def Let_def dest!: exec_op_pc split: option.splits if_splits)

lemma eval_loop_disabled:
  assumes "list_all is_instr xs" "disabled_opcode c" "st_pc st = concat xs @ c # rest"
  shows "eval_loop ctx st = None"
  using assms(1,3)
proof (induction xs arbitrary: st)
  case Nil
  then have "eval_step ctx st = None"
    using disabled_plain [OF assms(2)] assms(2) by (simp add: eval_step_def Let_def)
  then show ?case using Nil by (simp add: eval_loop_step)
next
  case (Cons x xs)
  have "is_instr x" using Cons.prems(1) by simp
  then obtain c' v' where "GetOp2 (x @ concat xs @ c # rest) = Some (c', v', concat xs @ c # rest)"
    using is_instrE by metis
  then have g: "GetOp2 (st_pc st) = Some (c', v', concat xs @ c # rest)" using Cons.prems(2) by simp
  have "st_pc st \<noteq> []" using g by auto
  moreover have "eval_loop ctx st' = None" if "eval_step ctx st = Some st'" for st'
    using Cons.IH Cons.prems(1) eval_step_pc [OF that g] by simp
  ultimately show ?case by (simp add: eval_loop_step [of st] split: option.split)
qed

text \<open>A copy of the sample transaction whose input carries other signature data.\<close>

definition sample_tx_signed :: CTransaction where
  "sample_tx_signed = sample_tx\<lparr> vin := [\<lparr> prevout = \<lparr> op_hash = replicate 8 0x1234, op_n = 1 \<rparr>,
     scriptSig = [0x02, 0x30, 0x06], nSequence = 0xffffffff \<rparr>] \<rparr>"

section \<open>Properties\<close>

definition sample_ctx :: "u32 \<Rightarrow> (int, bytes, bytes) eval_ctx" where
  "sample_ctx flags = \<lparr> ec_lib = int_bn, ec_crypto = sample_crypto, ec_txTo = sample_tx, ec_nIn = 0,
     ec_flags = flags, ec_nHashType = 0 \<rparr>"

text \<open>C20: whatever the script, every state \<open>EvalScript\<close> goes through keeps the limits: at most 1000
  elements on the two stacks together, no element above 520 bytes, and at most 201 counted
  operations, provided the initial stack keeps them.\<close>

theorem EvalScript_limits:
  assumes "openssl_bn (ec_lib ctx) num" "digest_lengths (ec_crypto ctx)"
    and "length stack \<le> 1000" "list_all (\<lambda>v. length v \<le> 520) stack"
    and "eval_reach ctx (init_state stack script) st"
  shows "length (st_stack st) + length (st_altstack st) \<le> 1000
    \<and> list_all (\<lambda>v. length v \<le> 520) (st_stack st @ st_altstack st) \<and> st_nOpCount st \<le> 201"
proof -
  have "within_limits (init_state stack script)"
    using assms(3,4) by (simp add: within_limits_def eval_inv_def init_state_def)
  from eval_reach_limits [OF assms(1,2,5) this] show ?thesis by (simp add: within_limits_def eval_inv_def)
qed

theorem EvalScript_limits_witness:
  "eval_reach (sample_ctx 0) (init_state [] [0x01, 0x07]) (init_state [[7]] [0x01, 0x07]\<lparr> st_pc := [] \<rparr>)
   \<and> length (st_stack (init_state [[7]] [0x01, 0x07]\<lparr> st_pc := [] \<rparr>)) \<le> 1000"
proof -
  have s: "eval_step (sample_ctx 0) (init_state [] [0x01, 0x07]) = Some (init_state [[7]] [0x01, 0x07]\<lparr> st_pc := [] \<rparr>)"
    by (simp add: eval_step_def init_state_def GetOp2_def disabled_opcode_def)
  have r: "eval_reach (sample_ctx 0) (init_state [] [0x01, 0x07]) (init_state [[7]] [0x01, 0x07]\<lparr> st_pc := [] \<rparr>)"
    by (rule eval_reach.step [OF eval_reach.start _ s]) (simp add: init_state_def)
  show ?thesis
    using EvalScript_limits [of "sample_ctx 0" "\<lambda>x. x" "[]" "[0x01, 0x07]", OF _ _ _ _ r]
      int_bn.openssl_bn_axioms sample_digest_lengths r by (simp add: sample_ctx_def)
qed

text \<open>C21: \<open>VerifyScript\<close> returns a verdict for every pair of scripts: the assertion that the saved
  stack is not empty cannot fail, because a pay-to-script-hash output fails on an empty stack.\<close>

theorem VerifyScript_no_assertion: "\<exists>b. VerifyScript ctx script_sig script_pubkey = Some b"
proof (cases "VerifyScript ctx script_sig script_pubkey")
  case None
  then have "EvalScript ctx [] script_pubkey \<noteq> None" "IsPayToScriptHash script_pubkey"
    by (auto simp: VerifyScript_def Let_def split: option.splits if_splits list.splits)
  then show ?thesis using p2sh_empty_stack [of script_pubkey ctx] by simp
qed blast

text \<open>C22: spending a pay-to-public-key-hash output with a signature and a key succeeds exactly when
  the key has the hash in the output and the signature passes the signature check for the output
  script; on a wrong key or signature the verdict is false.\<close>

theorem p2pkh_verdict:
  assumes "digest_lengths (ec_crypto ctx)" "length h = 5" "length sig \<le> 520" "length key \<le> 520"
    and "script = SetDestination (CKeyID h)"
  shows "VerifyScript ctx (push_bytes sig @ push_bytes key) script =
    Some (Hash160 (ec_crypto ctx) key = h \<and> sig_ok ctx (snd (FindAndDelete script (push_bytes sig))) sig key)"
proof -
  have len: "length (push_bytes b) \<le> length b + 5" for b by (simp add: push_bytes_def)
  have "length (push_bytes sig @ push_bytes key) \<le> 10000" using len [of sig] len [of key] assms(3,4) by simp
  moreover have "eval_loop ctx (init_state [] (push_bytes sig @ push_bytes key)) =
      Some \<lparr> st_pc = [], st_pbegincodehash = push_bytes sig @ push_bytes key, st_stack = [key, sig],
             st_altstack = [], st_vfExec = [], st_nOpCount = 0 \<rparr>"
    using eval_pushes [of "[sig, key]" "[]" ctx "[]"] assms(3,4) by (simp add: init_state_def)
  ultimately have first: "EvalScript ctx [] (push_bytes sig @ push_bytes key) = Some [key, sig]"
    by (simp add: EvalScript_def)
  have "\<not> IsPayToScriptHash script" by (rule not_p2sh_first) (simp add: assms(5) SetDestination_def)
  then show ?thesis
    using first eval_p2pkh [OF assms(4,2,1,5), of sig]
    by (simp add: VerifyScript_def Let_def vchTrue_def vchFalse_def)
qed

theorem p2pkh_verdict_witness:
  "VerifyScript (sample_ctx 0) (push_bytes [7, 1] @ push_bytes (2 # replicate 32 7))
     (SetDestination (CKeyID (Hash160 sample_crypto (2 # replicate 32 7)))) = Some True"
proof -
  let ?key = "2 # replicate 32 7 :: bytes" and ?C = sample_crypto
  let ?s = "SetDestination (CKeyID (Hash160 ?C ?key))"
  have "CPubKey_wf ?key" by (simp add: CPubKey_wf_def CPubKey_IsValid_def CPubKey_size_def CPubKey_GetLen_def)
  then have "CPubKey_Set ?key = ?key" "CPubKey_bytes ?key = ?key" "CPubKey_IsValid ?key"
    by (auto simp: CPubKey_wf_Set CPubKey_wf_bytes CPubKey_wf_def)
  then have "sig_ok (sample_ctx 0) c [7, 1] ?key" for c
    by (simp add: sig_ok_def sample_ctx_def IsCanonicalSignature_def IsCanonicalPubKey_def CheckSig_def sig_query_def
        CPubKey_Verify_def sample_crypto_def)
  then show ?thesis
    using p2pkh_verdict [of "sample_ctx 0" "Hash160 ?C ?key" "[7, 1]" ?key ?s] sample_digest_lengths
      Hash160_length [OF sample_digest_lengths, of ?key]
    by (simp add: sample_ctx_def)
qed

text \<open>C23: \<open>OP_CHECKMULTISIG\<close> accepts exactly when the signatures can be matched, in order, with
  distinct keys of the list: its single pass with the early exit misses no such matching.\<close>

theorem multisig_order:
  assumes "length sigs \<le> length keys"
  shows "multisig_loop ok sigs keys \<longleftrightarrow> list_emb ok sigs keys"
  using assms by (rule multisig_loop_emb)

theorem multisig_order_witness:
  "multisig_loop (\<lambda>s k. s = k) [[1], [3]] [[1], [2], [3]] \<and> \<not> multisig_loop (\<lambda>s k. s = k) [[3], [1]] [[1], [2], [3]]"
  using multisig_order [of "[[1], [3]]" "[[1], [2], [3]]" "\<lambda>s k. s = k"]
    multisig_order [of "[[3], [1]]" "[[1], [2], [3]]" "\<lambda>s k. s = k"] by (simp add: list_emb_code)

text \<open>C24: \<open>IsDERSignature\<close> accepts exactly the byte strings of 9 to 73 bytes that are the DER
  encoding of two positive integers without superfluous padding, followed by a defined hash type
  when one is asked for; with \<open>fCheckLow\<close> the second integer has to be between 1 and half the order
  of the group.\<close>

theorem IsDERSignature_grammar:
  "IsDERSignature vchSig fWithHashType fCheckLow \<longleftrightarrow>
     (\<exists>R S t. vchSig = der_sig R S @ t \<and> length t = (if fWithHashType then 1 else 0)
        \<and> 9 \<le> length vchSig \<and> length vchSig \<le> 73 \<and> der_int R \<and> der_int S
        \<and> (fWithHashType \<longrightarrow> 1 \<le> t ! 0 AND 0x7f \<and> t ! 0 AND 0x7f \<le> 3)
        \<and> (fCheckLow \<longrightarrow> CheckSignatureElement S True))"
proof -
  have "IsDERSignature vchSig fWithHashType fCheckLow \<longleftrightarrow> (\<exists>R S t. der_ok vchSig fWithHashType fCheckLow R S t)"
    using IsDERSignature_sound IsDERSignature_complete by blast
  then show ?thesis by (simp only: der_ok_def)
qed

theorem IsDERSignature_grammar_witness:
  "IsDERSignature (der_sig [5] [0, 0x90] @ [1]) True True"
proof -
  have "CheckSignatureElement [0, 0x90] True"
    by (simp add: CheckSignatureElement_def CompareBigEndian_def vchMaxModHalfOrder_def)
  moreover have "der_int [5]" "der_int [0, 0x90]" by (simp_all add: der_int_def)
  ultimately show ?thesis
    unfolding IsDERSignature_grammar
    by (intro exI [of _ "[5]"] exI [of _ "[0, 0x90]"] exI [of _ "[1]"]) (simp add: der_sig_def)
qed

text \<open>C25: a signature with the default type commits to the whole transaction: if two signature
  hashes are taken over the same bytes, the transactions agree in version, time, lock time,
  outputs, the outpoints and sequence numbers of their inputs, and in the script code and its
  position.\<close>

theorem sighash_commitment:
  assumes "CTransaction_wf a" "CTransaction_wf b" "length c1 \<le> MAX_SIZE" "length c2 \<le> MAX_SIZE"
    and "i < length (vin a)" "j < length (vin b)"
    and "t AND 0x1f \<noteq> SIGHASH_NONE" "t AND 0x1f \<noteq> SIGHASH_SINGLE" "t AND SIGHASH_ANYONECANPAY = 0"
    and "ser_CTransaction (the (sighash_tx c1 a i t)) @ ser_uint 4 t = ser_CTransaction (the (sighash_tx c2 b j t)) @ ser_uint 4 t"
  shows "tx_nVersion a = tx_nVersion b \<and> tx_nTime a = tx_nTime b \<and> nLockTime a = nLockTime b
    \<and> vout a = vout b \<and> map prevout (vin a) = map prevout (vin b) \<and> map nSequence (vin a) = map nSequence (vin b)
    \<and> snd (FindAndDelete c1 [OP_CODESEPARATOR]) = snd (FindAndDelete c2 [OP_CODESEPARATOR])
    \<and> (snd (FindAndDelete c1 [OP_CODESEPARATOR]) = [] \<or> i = j)"
proof -
  let ?c1 = "snd (FindAndDelete c1 [OP_CODESEPARATOR])" and ?c2 = "snd (FindAndDelete c2 [OP_CODESEPARATOR])"
  have "length ?c1 \<le> MAX_SIZE" "length ?c2 \<le> MAX_SIZE"
    using assms(3,4) FindAndDelete_length order_trans by blast+
  then have "CTransaction_wf (blank_scripts ?c1 i a)" "CTransaction_wf (blank_scripts ?c2 j b)"
    using blank_scripts_wf assms(1,2,5,6) by blast+
  then have "blank_scripts ?c1 i a = blank_scripts ?c2 j b"
    using ser_CTransaction_inject assms(10)
    unfolding sighash_tx_all [OF assms(7-9,5)] sighash_tx_all [OF assms(7-9,6)] option.sel by blast
  then show ?thesis by (rule blank_scripts_inject [OF _ assms(5,6)])
qed

theorem sighash_commitment_witness:
  "CTransaction_wf sample_tx \<and> CTransaction_wf sample_tx_signed \<and> sample_tx \<noteq> sample_tx_signed
   \<and> ser_CTransaction (the (sighash_tx [0xab, 0x51] sample_tx 0 1)) @ ser_uint 4 (1 :: u32)
     = ser_CTransaction (the (sighash_tx [0x51] sample_tx_signed 0 1)) @ ser_uint 4 (1 :: u32)
   \<and> vout sample_tx = vout sample_tx_signed \<and> map prevout (vin sample_tx) = map prevout (vin sample_tx_signed)
   \<and> map nSequence (vin sample_tx) = map nSequence (vin sample_tx_signed)
   \<and> snd (FindAndDelete [0xab, 0x51] [OP_CODESEPARATOR]) = snd (FindAndDelete [0x51] [OP_CODESEPARATOR])"
proof -
  have wf: "CTransaction_wf sample_tx" "CTransaction_wf sample_tx_signed"
    by (simp_all add: sample_tx_def sample_tx_signed_def CTransaction_wf_def CTxIn_wf_def CTxOut_wf_def COutPoint_wf_def)
  have ne: "sample_tx \<noteq> sample_tx_signed" by (simp add: sample_tx_def sample_tx_signed_def)
  have len: "0 < length (vin sample_tx)" "0 < length (vin sample_tx_signed)" by (simp_all add: sample_tx_def sample_tx_signed_def)
  have t: "(1 :: u32) AND 0x1f \<noteq> SIGHASH_NONE" "(1 :: u32) AND 0x1f \<noteq> SIGHASH_SINGLE" "(1 :: u32) AND SIGHASH_ANYONECANPAY = 0"
    by simp_all
  have code: "snd (FindAndDelete [0xab, 0x51] [OP_CODESEPARATOR]) = [0x51]" "snd (FindAndDelete [0x51] [OP_CODESEPARATOR]) = [0x51]"
    by code_simp+
  have "blank_scripts [0x51] 0 sample_tx = blank_scripts [0x51] 0 sample_tx_signed"
    by (simp add: blank_scripts_def sample_tx_def sample_tx_signed_def)
  then have eq: "ser_CTransaction (the (sighash_tx [0xab, 0x51] sample_tx 0 1)) @ ser_uint 4 (1 :: u32)
     = ser_CTransaction (the (sighash_tx [0x51] sample_tx_signed 0 1)) @ ser_uint 4 (1 :: u32)"
    unfolding sighash_tx_all [OF t len(1)] sighash_tx_all [OF t len(2)] code by simp
  show ?thesis
    using sighash_commitment [OF wf _ _ len t eq] wf ne eq by simp
qed

text \<open>C26: the hash of a signature that leaves outputs or inputs open does not depend on them.\<close>

theorem sighash_freedom:
  assumes "i < length (vin tx)" "i < length (vout tx)" "i < length ins" "i < length outs"
    and "ins ! i = vin tx ! i" "outs ! i = vout tx ! i"
  shows "(t AND 0x1f = SIGHASH_NONE \<longrightarrow> SignatureHash C code (tx\<lparr> vout := outs' \<rparr>) i t = SignatureHash C code tx i t)
    \<and> (t AND 0x1f = SIGHASH_SINGLE \<longrightarrow> SignatureHash C code (tx\<lparr> vout := outs \<rparr>) i t = SignatureHash C code tx i t)
    \<and> (t AND SIGHASH_ANYONECANPAY \<noteq> 0 \<longrightarrow> SignatureHash C code (tx\<lparr> vin := ins \<rparr>) i t = SignatureHash C code tx i t)"
  unfolding SignatureHash_def
  using sighash_none_free sighash_single_other [OF _ assms(2,4,6)] sighash_anyonecanpay_free [OF _ assms(1,5,3)]
  by metis

theorem sighash_freedom_witness:
  "SignatureHash sample_crypto [] (sample_tx\<lparr> vout := [] \<rparr>) 0 2 = SignatureHash sample_crypto [] sample_tx 0 2"
  using sighash_freedom [of 0 sample_tx "vin sample_tx" "vout sample_tx" 2 sample_crypto "[]" "[]"]
  by (simp add: sample_tx_def)

text \<open>C27: the signature cache changes no verdict: whatever valid entries it holds, \<open>CheckSig\<close> returns
  what it returns without the cache, only valid entries are added, random eviction included, and
  the cache never grows beyond one entry more than the configured limit: \<open>Set\<close> evicts only while the
  limit is exceeded, and then inserts.\<close>

theorem signature_cache_transparent:
  assumes "digest_lengths C" "list_all (sigdata_valid C) cache"
  shows "case CheckSig_cached C nMax rnd cache vchSig vchPubKey code tx i t flags of (b, cache') \<Rightarrow>
    b = CheckSig C vchSig vchPubKey code tx i t \<and> list_all (sigdata_valid C) cache'
    \<and> length cache' \<le> max (length cache) (nat nMax + 1)"
  using CheckSig_cached_transparent [OF assms] by (simp split: prod.split)

theorem signature_cache_transparent_witness:
  "fst (CheckSig_cached sample_crypto 5 (\<lambda>k. []) [] [7, 1] (2 # replicate 32 7) [] sample_tx 0 0 0) = True"
proof -
  let ?key = "2 # replicate 32 7 :: bytes"
  have "CPubKey_wf ?key" by (simp add: CPubKey_wf_def CPubKey_IsValid_def CPubKey_size_def CPubKey_GetLen_def)
  then have "CPubKey_Set ?key = ?key" "CPubKey_bytes ?key = ?key" "CPubKey_IsValid ?key"
    by (auto simp: CPubKey_wf_Set CPubKey_wf_bytes CPubKey_wf_def)
  then have "CheckSig sample_crypto [7, 1] ?key [] sample_tx 0 0"
    by (simp add: CheckSig_def sig_query_def CPubKey_Verify_def sample_crypto_def)
  then show ?thesis
    using signature_cache_transparent [OF sample_digest_lengths, where cache = "[]" and nMax = 5 and rnd = "\<lambda>k. []"
        and vchSig = "[7, 1]" and vchPubKey = ?key and code = "[]" and tx = sample_tx and i = 0 and t = 0 and flags = 0]
    by (simp split: prod.splits)
qed

text \<open>C28: with \<open>OP_CHECKSEQUENCEVERIFY\<close> enabled, a readable operand passes exactly when it is not
  negative and \<open>CheckSequence\<close> holds, that is, when the input's sequence number has its disable bit
  clear, agrees in the unit bit and is at least as large in the low sixteen bits. The disable flag
  in the operand, for which the opcode is documented to behave as a NOP, can never be seen.\<close>

theorem checksequence_semantics:
  assumes "openssl_bn (ec_lib ctx) num" "ec_flags ctx AND SCRIPT_VERIFY_CHECKSEQUENCEVERIFY \<noteq> 0"
    and "CastToBigNum (ec_lib ctx) v = Some x" "w = CBigNum_getuint64 (ec_lib ctx) x"
    and "q = nSequence (vin (ec_txTo ctx) ! ec_nIn ctx)"
  shows "op_checksequence ctx (v # s) =
    (if 0 \<le> num x \<and> \<not> bit q 31 \<and> bit q 22 = bit w 22 \<and> unat w mod 2 ^ 16 \<le> unat q mod 2 ^ 16
     then Some (v # s) else None)"
  unfolding checksequence_no_nop [OF assms(1-3)] CheckSequence_spec assms(4,5) ..

theorem checksequence_semantics_witness:
  "op_checksequence (sample_ctx 0x400\<lparr> ec_txTo := sample_tx\<lparr> vin := [hd (vin sample_tx)\<lparr> nSequence := 9 \<rparr>] \<rparr> \<rparr>) [[7]] = Some [[7]]"
proof -
  let ?c = "sample_ctx 0x400\<lparr> ec_txTo := sample_tx\<lparr> vin := [hd (vin sample_tx)\<lparr> nSequence := 9 \<rparr>] \<rparr> \<rparr>"
  have b: "openssl_bn (ec_lib ?c) (\<lambda>x. x)" using int_bn.openssl_bn_axioms by (simp add: sample_ctx_def)
  have n: "CastToBigNum (ec_lib ?c) [7] = Some 7"
    using int_bn.CastToBigNum_num [of "[7]"] by (simp add: sample_ctx_def be_val_def)
  have w: "unat (CBigNum_getuint64 int_bn 7) = 7" by (simp only: int_bn.getuint64) simp
  then have w: "CBigNum_getuint64 int_bn 7 = 7" by (simp add: word_unat_eq_iff)
  show ?thesis
    using checksequence_semantics [OF b _ n refl refl, of "[]"] w by (simp add: sample_ctx_def bit_iff_odd)
qed

text \<open>C29: an output locked with \<open>OP_CHECKLOCKTIMEVERIFY\<close> cannot be spent before its time: a transaction
  whose input passes \<open>CheckLockTime\<close> for an operand is final only in blocks above that height, or
  after that time, whichever the operand means.\<close>

theorem locktime_enforced:
  assumes "CheckLockTime v tx i" "i < length (vin tx)"
    and "CTransaction_IsFinal nBestHeight adjustedTime tx h t" "0 < h" "0 < t"
  shows "if v < LOCKTIME_THRESHOLD then v < h else v < t"
  using assms by (rule CheckLockTime_final)

theorem locktime_enforced_witness:
  "let tx = sample_tx\<lparr> vin := [hd (vin sample_tx)\<lparr> nSequence := 0 \<rparr>], nLockTime := 100 \<rparr>
   in CheckLockTime 90 tx 0 \<and> CTransaction_IsFinal 0 0 tx 101 1 \<and> (90 :: int) < 101"
  using locktime_enforced [of 90 "sample_tx\<lparr> vin := [hd (vin sample_tx)\<lparr> nSequence := 0 \<rparr>], nLockTime := 100 \<rparr>" 0 0 0 101 1]
  by (simp add: CheckLockTime_def CTransaction_IsFinal_def Let_def)

text \<open>C30: a script that contains a disabled opcode as an instruction fails, whatever comes before or
  behind it, and even in a branch that would not be executed.\<close>

theorem disabled_opcode_fails:
  assumes "list_all is_instr xs" "disabled_opcode c"
  shows "EvalScript ctx stack (concat xs @ c # rest) = None"
  using eval_loop_disabled [OF assms, of "init_state stack (concat xs @ c # rest)" rest ctx]
  by (simp add: EvalScript_def init_state_def)

theorem disabled_opcode_fails_witness:
  "EvalScript (sample_ctx 0) [] [0x00, 0x63, 0x95, 0x68, 0x51] = None"
  using disabled_opcode_fails [of "[[0x00], [0x63]]" "0x95" "sample_ctx 0" "[]" "[0x68, 0x51]"]
  by (simp add: is_instr_def GetOp2_def disabled_opcode_def)

end
