(* ===== verification/Base58.thy ===== *)
theory Base58
  imports Solver
begin

text \<open>
  Base 58 and the texts made of it: \<open>src/src/base58.cpp\<close>, \<open>src/src/base58.h\<close>, and the pairs of
  public keys (\<open>CMalleablePubKey\<close> of \<open>src/src/key.h\<close> and \<open>src/src/key.cpp\<close>) an address can hold.
  A C string is the list of its characters before the terminating null. \<open>None\<close> is a failed
  assertion or an exception, as the definitions say; \<open>fTestNet\<close> is the global flag.

  The lemmas read the two in-place conversion loops as arithmetic on the number the buffer holds,
  show that the estimated buffer sizes are enough, and give the round trips.
\<close>

unbundle bit_operations_syntax

section \<open>The conversion loops\<close>

definition digits :: string where
  "digits = ''123456789ABCDEFGHJKLMNPQRSTUVWXYZabcdefghijkmnopqrstuvwxyz''"

definition characterMap :: "int list" where
  "characterMap =
     [-1,-1,-1,-1,-1,-1,-1,-1,-1,-1,-1,-1,-1,-1,-1,-1,
      -1,-1,-1,-1,-1,-1,-1,-1,-1,-1,-1,-1,-1,-1,-1,-1,
      -1,-1,-1,-1,-1,-1,-1,-1,-1,-1,-1,-1,-1,-1,-1,-1,
      -1, 0, 1, 2, 3, 4, 5, 6, 7, 8,-1,-1,-1,-1,-1,-1,
      -1, 9,10,11,12,13,14,15,16,-1,17,18,19,20,21,-1,
      22,23,24,25,26,27,28,29,30,31,32,-1,-1,-1,-1,-1,
      -1,33,34,35,36,37,38,39,40,41,42,43,-1,44,45,46,
      47,48,49,50,51,52,53,54,55,56,57,-1,-1,-1,-1,-1]"

text \<open>The inner loop of both directions, "buffer = buffer * \<open>mul\<close> + carry" in base \<open>radix\<close>: it walks
  the buffer from its end, so the model keeps the buffer reversed. It returns the carry left, the
  number of places visited and the buffer.\<close>

fun carry_loop :: "nat \<Rightarrow> nat \<Rightarrow> nat \<Rightarrow> nat \<Rightarrow> nat \<Rightarrow> bytes \<Rightarrow> nat \<times> nat \<times> bytes" where
  "carry_loop mul radix carry i len [] = (carry, i, [])"
| "carry_loop mul radix carry i len (d # ds) =
     (if carry \<noteq> 0 \<or> i < len
      then let carry = carry + mul * unat d;
               (c, j, ds') = carry_loop mul radix (carry div radix) (i + 1) len ds
           in (c, j, of_nat (carry mod radix) # ds')
      else (carry, i, d # ds))"

text \<open>The outer loops; \<open>None\<close> is the assertion that no carry is left.\<close>

fun encode_loop :: "bytes \<Rightarrow> nat \<Rightarrow> bytes \<Rightarrow> (nat \<times> bytes) option" where
  "encode_loop [] len b58 = Some (len, b58)"
| "encode_loop (ch # rest) len b58 =
     (case carry_loop 256 58 (unat ch) 0 len b58 of
        (carry, i, b58) \<Rightarrow> if carry \<noteq> 0 then None else encode_loop rest i b58)"

definition EncodeBase58 :: "bytes \<Rightarrow> string option" where
  "EncodeBase58 vch =
     (let zeroes = length (takeWhile (\<lambda>c. c = 0) vch);
          rest = dropWhile (\<lambda>c. c = 0) vch;
          base58Size = length rest * 138 div 100 + 1
      in case encode_loop rest 0 (replicate base58Size 0) of None \<Rightarrow> None
         | Some (len, b58) \<Rightarrow>
             let it = dropWhile (\<lambda>d. d = 0) (drop (base58Size - len) (rev b58))
             in Some (replicate zeroes (digits ! 0) @ map (\<lambda>d. digits ! unat d) it))"

text \<open>\<open>Inl\<close> is the early return at an invalid character; \<open>Inr\<close> has the characters from the first
  space on, the length and the buffer.\<close>

fun decode_loop :: "string \<Rightarrow> nat \<Rightarrow> bytes \<Rightarrow> (unit + string \<times> nat \<times> bytes) option" where
  "decode_loop [] len b256 = Some (Inr ([], len, b256))"
| "decode_loop (ch # rest) len b256 =
     (if c_isspace ch then Some (Inr (ch # rest, len, b256))
      else if (of_char ch :: nat) \<ge> 128 then Some (Inl ())
      else let carry = characterMap ! of_char ch
           in if carry = - 1 then Some (Inl ())
              else case carry_loop 58 256 (nat carry) 0 len b256 of
                     (carry, i, b256) \<Rightarrow> if carry \<noteq> 0 then None else decode_loop rest i b256)"

text \<open>The result has the returned flag and \<open>vchRet\<close>, which starts empty at every call.\<close>

definition DecodeBase58 :: "string \<Rightarrow> (bool \<times> bytes) option" where
  "DecodeBase58 psz =
     (let it = dropWhile c_isspace psz;
          zeroes = length (takeWhile (\<lambda>c. c = digits ! 0) it);
          it = dropWhile (\<lambda>c. c = digits ! 0) it;
          base256Size = length it * 733 div 1000 + 1
      in case decode_loop it 0 (replicate base256Size 0) of None \<Rightarrow> None
         | Some (Inl _) \<Rightarrow> Some (False, [])
         | Some (Inr (it, len, b256)) \<Rightarrow>
             if dropWhile c_isspace it \<noteq> [] then Some (False, [])
             else Some (True, replicate zeroes 0
                              @ dropWhile (\<lambda>d. d = 0) (drop (base256Size - len) (rev b256))))"

section \<open>Checksums\<close>

definition EncodeBase58Check :: "('k, 'g) crypto \<Rightarrow> bytes \<Rightarrow> string option" where
  "EncodeBase58Check C vchIn = EncodeBase58 (vchIn @ take 4 (base_uint_getBytes (Hash C vchIn)))"

definition DecodeBase58Check :: "('k, 'g) crypto \<Rightarrow> string \<Rightarrow> (bool \<times> bytes) option" where
  "DecodeBase58Check C psz =
     (case DecodeBase58 psz of None \<Rightarrow> None
      | Some (False, vchRet) \<Rightarrow> Some (False, vchRet)
      | Some (True, vchRet) \<Rightarrow>
          if length vchRet < 4 then Some (False, [])
          else let n = length vchRet - 4
               in if take 4 (base_uint_getBytes (Hash C (take n vchRet))) \<noteq> drop n vchRet then Some (False, [])
                  else Some (True, take n vchRet))"

section \<open>Versioned data\<close>

record CBase58Data =
  b58_nVersion :: byte
  b58_vchData :: bytes

definition CBase58Data_init :: CBase58Data where
  "CBase58Data_init = \<lparr> b58_nVersion = 0, b58_vchData = [] \<rparr>"

definition CBase58Data_SetData :: "byte \<Rightarrow> bytes \<Rightarrow> CBase58Data" where
  "CBase58Data_SetData nVersionIn pdata = \<lparr> b58_nVersion = nVersionIn, b58_vchData = pdata \<rparr>"

definition CBase58Data_SetString :: "('k, 'g) crypto \<Rightarrow> string \<Rightarrow> (bool \<times> CBase58Data) option" where
  "CBase58Data_SetString C psz =
     (case DecodeBase58Check C psz of None \<Rightarrow> None
      | Some (_, vchTemp) \<Rightarrow>
          if vchTemp = [] then Some (False, \<lparr> b58_nVersion = 0, b58_vchData = [] \<rparr>)
          else Some (True, \<lparr> b58_nVersion = vchTemp ! 0, b58_vchData = drop 1 vchTemp \<rparr>))"

definition CBase58Data_ToString :: "('k, 'g) crypto \<Rightarrow> CBase58Data \<Rightarrow> string option" where
  "CBase58Data_ToString C d = EncodeBase58Check C (b58_nVersion d # b58_vchData d)"

definition CBase58Data_CompareTo :: "CBase58Data \<Rightarrow> CBase58Data \<Rightarrow> int" where
  "CBase58Data_CompareTo a b58 =
     (if b58_nVersion a < b58_nVersion b58 then - 1
      else if b58_nVersion b58 < b58_nVersion a then 1
      else if bytes_lt (b58_vchData a) (b58_vchData b58) then - 1
      else if bytes_lt (b58_vchData b58) (b58_vchData a) then 1 else 0)"

section \<open>Pairs of public keys\<close>

text \<open>\<open>CPubKey::Unserialize\<close> overwrites the front of the buffer it is called on; a length above 65
  skips the data byte by byte and invalidates the key.\<close>

primrec skip_bytes :: "'s rd \<Rightarrow> nat \<Rightarrow> 's \<Rightarrow> 's option" where
  "skip_bytes rd 0 s = Some s"
| "skip_bytes rd (Suc len) s = (case rd s 1 of None \<Rightarrow> None | Some (_, s) \<Rightarrow> skip_bytes rd len s)"

definition unser_CPubKey :: "'s rd \<Rightarrow> bytes \<Rightarrow> 's \<Rightarrow> (bytes \<times> 's) option" where
  "unser_CPubKey rd vbytes s =
     (case ReadCompactSize rd s of None \<Rightarrow> None
      | Some (len, s) \<Rightarrow>
          if unat len \<le> 65
          then case rd s (unat len) of None \<Rightarrow> None | Some (b, s) \<Rightarrow> Some (b @ drop (length b) vbytes, s)
          else case skip_bytes rd (unat len) s of None \<Rightarrow> None | Some s \<Rightarrow> Some (0xff # drop 1 vbytes, s))"

record CMalleablePubKey =
  pubKeyL :: bytes
  pubKeyH :: bytes

definition CMalleablePubKey_init :: CMalleablePubKey where
  "CMalleablePubKey_init = \<lparr> pubKeyL = [0xff], pubKeyH = [0xff] \<rparr>"

definition CMalleablePubKey_IsValid :: "CMalleablePubKey \<Rightarrow> bool" where
  "CMalleablePubKey_IsValid mpk = (CPubKey_IsValid (pubKeyL mpk) \<and> CPubKey_IsValid (pubKeyH mpk))"

definition CMalleablePubKey_GetID :: "('k, 'g) crypto \<Rightarrow> CMalleablePubKey \<Rightarrow> base_uint" where
  "CMalleablePubKey_GetID C mpk = CPubKey_GetID C (pubKeyL mpk)"

definition CMalleablePubKey_Raw :: "CMalleablePubKey \<Rightarrow> bytes" where
  "CMalleablePubKey_Raw mpk = ser_CPubKey (pubKeyL mpk) @ ser_CPubKey (pubKeyH mpk)"

definition CMalleablePubKey_setvch :: "CMalleablePubKey \<Rightarrow> bytes \<Rightarrow> (bool \<times> CMalleablePubKey) option" where
  "CMalleablePubKey_setvch mpk vchPubKeyPair =
     (case unser_CPubKey CDataStream_read (pubKeyL mpk) (CDataStream_Init vchPubKeyPair) of None \<Rightarrow> None
      | Some (l, ssKey) \<Rightarrow>
          (case unser_CPubKey CDataStream_read (pubKeyH mpk) ssKey of None \<Rightarrow> None
           | Some (h, ssKey) \<Rightarrow>
               let mpk = \<lparr> pubKeyL = l, pubKeyH = h \<rparr> in Some (CMalleablePubKey_IsValid mpk, mpk)))"

definition CMalleablePubKey_ToString :: "('k, 'g) crypto \<Rightarrow> CMalleablePubKey \<Rightarrow> string option" where
  "CMalleablePubKey_ToString C mpk = EncodeBase58Check C (CMalleablePubKey_Raw mpk)"

text \<open>\<open>None\<close> covers the exceptions of the stream and the \<open>key_error\<close> for a bad checksum.\<close>

definition CMalleablePubKey_SetString ::
  "('k, 'g) crypto \<Rightarrow> CMalleablePubKey \<Rightarrow> string \<Rightarrow> (bool \<times> CMalleablePubKey) option" where
  "CMalleablePubKey_SetString C mpk str =
     (case DecodeBase58Check C str of None \<Rightarrow> None
      | Some (False, _) \<Rightarrow> None
      | Some (True, vchTemp) \<Rightarrow>
          if length vchTemp \<noteq> 68 then Some (False, mpk) else CMalleablePubKey_setvch mpk vchTemp)"

section \<open>Addresses\<close>

abbreviation (input) PUBKEY_PAIR_ADDRESS :: byte where "PUBKEY_PAIR_ADDRESS \<equiv> 1"
abbreviation (input) PUBKEY_ADDRESS :: byte where "PUBKEY_ADDRESS \<equiv> 8"
abbreviation (input) SCRIPT_ADDRESS :: byte where "SCRIPT_ADDRESS \<equiv> 20"
abbreviation (input) PUBKEY_PAIR_ADDRESS_TEST :: byte where "PUBKEY_PAIR_ADDRESS_TEST \<equiv> 6"
abbreviation (input) PUBKEY_ADDRESS_TEST :: byte where "PUBKEY_ADDRESS_TEST \<equiv> 111"
abbreviation (input) SCRIPT_ADDRESS_TEST :: byte where "SCRIPT_ADDRESS_TEST \<equiv> 196"

definition CBitcoinAddress_Set :: "bool \<Rightarrow> CBase58Data \<Rightarrow> CTxDestination \<Rightarrow> bool \<times> CBase58Data" where
  "CBitcoinAddress_Set fTestNet addr dest =
     (case dest of
        CKeyID keyID \<Rightarrow>
          (True, CBase58Data_SetData (if fTestNet then PUBKEY_ADDRESS_TEST else PUBKEY_ADDRESS)
                   (take 20 (base_uint_getBytes keyID)))
      | CScriptID scriptID \<Rightarrow>
          (True, CBase58Data_SetData (if fTestNet then SCRIPT_ADDRESS_TEST else SCRIPT_ADDRESS)
                   (take 20 (base_uint_getBytes scriptID)))
      | CNoDestination \<Rightarrow> (False, addr))"

text \<open>\<open>None\<close> is reading past the end of a pair that takes less than 68 bytes.\<close>

definition CBitcoinAddress_Set_pair :: "bool \<Rightarrow> CMalleablePubKey \<Rightarrow> CBase58Data option" where
  "CBitcoinAddress_Set_pair fTestNet mpk =
     (let vchPubkeyPair = CMalleablePubKey_Raw mpk
      in if length vchPubkeyPair < 68 then None
         else Some (CBase58Data_SetData (if fTestNet then PUBKEY_PAIR_ADDRESS_TEST else PUBKEY_PAIR_ADDRESS)
                      (take 68 vchPubkeyPair)))"

definition CBitcoinAddress_IsValid :: "bool \<Rightarrow> CBase58Data \<Rightarrow> bool option" where
  "CBitcoinAddress_IsValid fTestNet addr =
     (let nVersion = b58_nVersion addr;
          check = (\<lambda>nExpectedSize fExpectTestNet fSimple.
            let fSeemsSane = (fExpectTestNet = fTestNet \<and> length (b58_vchData addr) = (nExpectedSize :: nat))
            in if fSeemsSane \<and> \<not> fSimple
               then map_option (\<lambda>(_, mpk). CMalleablePubKey_IsValid mpk)
                      (CMalleablePubKey_setvch CMalleablePubKey_init (b58_vchData addr))
               else Some fSeemsSane)
      in if nVersion = PUBKEY_PAIR_ADDRESS then check 68 False False
         else if nVersion = PUBKEY_ADDRESS then check 20 False True
         else if nVersion = SCRIPT_ADDRESS then check 20 False True
         else if nVersion = PUBKEY_PAIR_ADDRESS_TEST then check 68 True False
         else if nVersion = PUBKEY_ADDRESS_TEST then check 20 True True
         else if nVersion = SCRIPT_ADDRESS_TEST then check 20 True True
         else Some False)"

definition CBitcoinAddress_Get :: "bool \<Rightarrow> CBase58Data \<Rightarrow> CTxDestination option" where
  "CBitcoinAddress_Get fTestNet addr =
     (case CBitcoinAddress_IsValid fTestNet addr of None \<Rightarrow> None
      | Some False \<Rightarrow> Some CNoDestination
      | Some True \<Rightarrow>
          let nVersion = b58_nVersion addr; hash = limbs_of_bytes (take 20 (b58_vchData addr))
          in if nVersion = PUBKEY_ADDRESS \<or> nVersion = PUBKEY_ADDRESS_TEST then Some (CKeyID hash)
             else if nVersion = SCRIPT_ADDRESS \<or> nVersion = SCRIPT_ADDRESS_TEST then Some (CScriptID hash)
             else Some CNoDestination)"

text \<open>The inner option is the returned flag with its output parameter.\<close>

definition CBitcoinAddress_GetKeyID ::
  "('k, 'g) crypto \<Rightarrow> bool \<Rightarrow> CBase58Data \<Rightarrow> base_uint option option" where
  "CBitcoinAddress_GetKeyID C fTestNet addr =
     (case CBitcoinAddress_IsValid fTestNet addr of None \<Rightarrow> None
      | Some False \<Rightarrow> Some None
      | Some True \<Rightarrow>
          let nVersion = b58_nVersion addr
          in if nVersion = PUBKEY_ADDRESS \<or> nVersion = PUBKEY_ADDRESS_TEST
             then Some (Some (limbs_of_bytes (take 20 (b58_vchData addr))))
             else if nVersion = PUBKEY_PAIR_ADDRESS \<or> nVersion = PUBKEY_PAIR_ADDRESS_TEST
             then map_option (\<lambda>(_, mPubKey). Some (CMalleablePubKey_GetID C mPubKey))
                    (CMalleablePubKey_setvch CMalleablePubKey_init (b58_vchData addr))
             else Some None)"

definition CBitcoinAddress_IsScript :: "bool \<Rightarrow> CBase58Data \<Rightarrow> bool option" where
  "CBitcoinAddress_IsScript fTestNet addr =
     map_option (\<lambda>v. v \<and> (b58_nVersion addr = SCRIPT_ADDRESS \<or> b58_nVersion addr = SCRIPT_ADDRESS_TEST))
       (CBitcoinAddress_IsValid fTestNet addr)"

definition CBitcoinAddress_IsPubKey :: "bool \<Rightarrow> CBase58Data \<Rightarrow> bool option" where
  "CBitcoinAddress_IsPubKey fTestNet addr =
     map_option (\<lambda>v. v \<and> (b58_nVersion addr = PUBKEY_ADDRESS \<or> b58_nVersion addr = PUBKEY_ADDRESS_TEST))
       (CBitcoinAddress_IsValid fTestNet addr)"

definition CBitcoinAddress_IsPair :: "bool \<Rightarrow> CBase58Data \<Rightarrow> bool option" where
  "CBitcoinAddress_IsPair fTestNet addr =
     map_option (\<lambda>v. v \<and> (b58_nVersion addr = PUBKEY_PAIR_ADDRESS \<or> b58_nVersion addr = PUBKEY_PAIR_ADDRESS_TEST))
       (CBitcoinAddress_IsValid fTestNet addr)"

section \<open>Secrets\<close>

definition CBitcoinSecret_SetSecret :: "bool \<Rightarrow> bytes \<Rightarrow> bool \<Rightarrow> CBase58Data option" where
  "CBitcoinSecret_SetSecret fTestNet vchSecret fCompressed =
     (if length vchSecret \<noteq> 32 then None
      else let d = CBase58Data_SetData (128 + (if fTestNet then PUBKEY_ADDRESS_TEST else PUBKEY_ADDRESS)) vchSecret
           in Some (if fCompressed then d\<lparr> b58_vchData := b58_vchData d @ [1] \<rparr> else d))"

text \<open>\<open>None\<close> is reading past the end of the data.\<close>

definition CBitcoinSecret_GetSecret :: "CBase58Data \<Rightarrow> (bytes \<times> bool) option" where
  "CBitcoinSecret_GetSecret d =
     (if length (b58_vchData d) < 32 then None
      else Some (take 32 (b58_vchData d), length (b58_vchData d) = 33))"

definition CBitcoinSecret_IsValid :: "bool \<Rightarrow> CBase58Data \<Rightarrow> bool" where
  "CBitcoinSecret_IsValid fTestNet d =
     (let nVersion = b58_nVersion d; vchData = b58_vchData d;
          check = (\<lambda>fExpectTestNet. fExpectTestNet = fTestNet
                     \<and> (length vchData = 32 \<or> length vchData = 33 \<and> vchData ! 32 = 1))
      in if nVersion = 128 + PUBKEY_ADDRESS then check False
         else if nVersion = 128 + PUBKEY_ADDRESS_TEST then check True
         else False)"

definition CBitcoinSecret_SetString :: "('k, 'g) crypto \<Rightarrow> bool \<Rightarrow> string \<Rightarrow> (bool \<times> CBase58Data) option" where
  "CBitcoinSecret_SetString C fTestNet pszSecret =
     map_option (\<lambda>(ok, d). (ok \<and> CBitcoinSecret_IsValid fTestNet d, d)) (CBase58Data_SetString C pszSecret)"

section \<open>Numbers in a radix\<close>

primrec rval :: "nat \<Rightarrow> bytes \<Rightarrow> nat" where
  "rval r [] = 0"
| "rval r (d # ds) = unat d + r * rval r ds"

abbreviation zeros :: "bytes \<Rightarrow> bool" where
  "zeros ds \<equiv> list_all (\<lambda>d. d = 0) ds"

abbreviation in_radix :: "nat \<Rightarrow> bytes \<Rightarrow> bool" where
  "in_radix r ds \<equiv> list_all (\<lambda>d. unat d < r) ds"

abbreviation strip0 :: "bytes \<Rightarrow> bytes" where
  "strip0 ds \<equiv> dropWhile (\<lambda>d. d = 0) ds"

lemma rval_zeros: "zeros ds \<Longrightarrow> rval r ds = 0"
  by (induction ds) auto

lemma rval_append: "rval r (xs @ ys) = rval r xs + r ^ length xs * rval r ys"
  by (induction xs) (simp_all add: algebra_simps)

lemma rval_256: "rval 256 ds = le_val ds"
  by (induction ds) simp_all

lemma in_radix_256 [simp]: "in_radix 256 ds"
  using unat_less_power [where 'a = 8] by (simp add: list_all_iff)

lemma rval_inject:
  "length xs = length ys \<Longrightarrow> in_radix r xs \<Longrightarrow> in_radix r ys \<Longrightarrow> rval r xs = rval r ys \<Longrightarrow> xs = ys"
proof (induction xs ys rule: list_induct2)
  case (Cons x xs y ys)
  have eq: "unat x + r * rval r xs = unat y + r * rval r ys" using Cons.prems by simp
  have "(unat x + r * rval r xs) mod r = unat x" "(unat y + r * rval r ys) mod r = unat y"
    using Cons.prems(1,2) by simp_all
  with eq have xy: "unat x = unat y" by simp
  then have "rval r xs = rval r ys" using eq Cons.prems(1) by (cases "r = 0") auto
  then show ?case using xy Cons by (simp add: word_unat_eq_iff)
qed simp

lemma dropWhile_zeros: "zeros xs \<Longrightarrow> strip0 (xs @ ys) = strip0 ys"
  by (induction xs) auto

lemma zeros_replicate [simp]: "zeros (replicate n 0)"
  by (induction n) auto

lemma strip0_unique:
  assumes "in_radix r xs" "in_radix r ys" "rval r xs = rval r ys" "0 < r"
  shows "strip0 (rev xs) = strip0 (rev ys)"
proof -
  define xs' where "xs' = xs @ replicate (length ys - length xs) 0"
  define ys' where "ys' = ys @ replicate (length xs - length ys) 0"
  have "xs' = ys'"
  proof (rule rval_inject [of _ _ r])
    show "rval r xs' = rval r ys'" using assms(3) by (simp add: xs'_def ys'_def rval_append rval_zeros)
  qed (use assms in \<open>auto simp: xs'_def ys'_def list_all_iff\<close>)
  moreover have "strip0 (rev xs') = strip0 (rev xs)" "strip0 (rev ys') = strip0 (rev ys)"
    by (simp_all add: xs'_def ys'_def dropWhile_zeros)
  ultimately show ?thesis by simp
qed

lemma strip0_drop:
  assumes "zeros (drop len b)" "len \<le> length b"
  shows "strip0 (drop (length b - len) (rev b)) = strip0 (rev b)"
proof -
  have "rev b = rev (drop len b) @ rev (take len b)" by (metis append_take_drop_id rev_append)
  then have "strip0 (rev b) = strip0 (rev (take len b))" using assms(1) by (metis dropWhile_zeros list_all_rev)
  then show ?thesis using assms(2) by (simp add: drop_rev)
qed

section \<open>The loops compute\<close>

lemma carry_loop_value:
  assumes "1 < radix" "radix \<le> 256"
  shows "carry_loop mul radix carry i len ds = (c, j, ds') \<Longrightarrow> zeros (drop (len - i) ds) \<Longrightarrow> in_radix radix ds \<Longrightarrow>
     length ds' = length ds \<and> rval radix ds' + radix ^ length ds * c = carry + mul * rval radix ds
     \<and> i \<le> j \<and> j \<le> i + length ds \<and> zeros (drop (j - i) ds') \<and> in_radix radix ds'"
proof (induction ds arbitrary: carry i c j ds')
  case (Cons d ds)
  show ?case
  proof (cases "carry \<noteq> 0 \<or> i < len")
    case False
    then show ?thesis using Cons.prems rval_zeros [of "d # ds" radix] by auto
  next
    case True
    define k where "k = carry + mul * unat d"
    obtain ds'' where r: "carry_loop mul radix (k div radix) (i + 1) len ds = (c, j, ds'')" and
      ds': "ds' = of_nat (k mod radix) # ds''"
      using Cons.prems(1) True by (auto simp: k_def Let_def split: prod.splits)
    have "zeros (drop (len - (i + 1)) ds)"
      using Cons.prems(2) by (cases "len - i") (auto simp: list_all_iff Suc_diff_Suc diff_Suc dest: in_set_dropD)
    then have IH: "length ds'' = length ds" "rval radix ds'' + radix ^ length ds * c = k div radix + mul * rval radix ds"
      "i + 1 \<le> j" "j \<le> i + 1 + length ds" "zeros (drop (j - (i + 1)) ds'')" "in_radix radix ds''"
      using Cons.IH [OF r] Cons.prems(3) by auto
    have "k mod radix < 256" using assms by (meson le_less_trans less_imp_le_nat less_le_trans mod_less_divisor zero_less_one less_trans)
    then have u: "unat (of_nat (k mod radix) :: byte) = k mod radix" by (simp add: unat_of_nat)
    have "rval radix ds' + radix ^ length (d # ds) * c
        = k mod radix + radix * (rval radix ds'' + radix ^ length ds * c)" by (simp add: ds' u algebra_simps)
    also have "\<dots> = k + radix * (mul * rval radix ds)" unfolding IH(2) by (simp add: algebra_simps)
    also have "\<dots> = carry + mul * rval radix (d # ds)" by (simp add: k_def algebra_simps)
    finally have v: "rval radix ds' + radix ^ length (d # ds) * c = carry + mul * rval radix (d # ds)" .
    have "j - i = Suc (j - (i + 1))" using IH(3) by simp
    then have "zeros (drop (j - i) ds')" using IH(5) by (simp add: ds')
    then show ?thesis using v IH assms(1) by (simp add: ds' u)
  qed
qed auto

lemma carry_loop_fits:
  assumes "1 < radix" "radix \<le> 256" "zeros (drop len ds)" "in_radix radix ds"
    and "carry + mul * rval radix ds < radix ^ length ds"
  obtains i ds' where "carry_loop mul radix carry 0 len ds = (0, i, ds')"
    "length ds' = length ds" "rval radix ds' = carry + mul * rval radix ds"
    "i \<le> length ds" "zeros (drop i ds')" "in_radix radix ds'"
proof -
  obtain c j ds' where r: "carry_loop mul radix carry 0 len ds = (c, j, ds')" by (cases "carry_loop mul radix carry 0 len ds") auto
  have v: "length ds' = length ds" "rval radix ds' + radix ^ length ds * c = carry + mul * rval radix ds"
    "j \<le> length ds" "zeros (drop j ds')" "in_radix radix ds'"
    using carry_loop_value [OF assms(1,2) r] assms(3,4) by auto
  have "c = 0"
  proof (rule ccontr)
    assume "c \<noteq> 0"
    then have "radix ^ length ds \<le> radix ^ length ds * c" by simp
    then show False using v(2) assms(5) by linarith
  qed
  then show thesis using that r v by simp
qed

lemma encode_loop_value:
  "be_val vs + 256 ^ length vs * rval 58 b < 58 ^ length b \<Longrightarrow> zeros (drop len b) \<Longrightarrow> in_radix 58 b \<Longrightarrow>
   len \<le> length b \<Longrightarrow>
   \<exists>len' b'. encode_loop vs len b = Some (len', b') \<and> length b' = length b
     \<and> rval 58 b' = be_val vs + 256 ^ length vs * rval 58 b \<and> len' \<le> length b \<and> zeros (drop len' b') \<and> in_radix 58 b'"
proof (induction vs arbitrary: len b)
  case (Cons v vs)
  have sum: "be_val (v # vs) + 256 ^ length (v # vs) * rval 58 b
      = be_val vs + 256 ^ length vs * (unat v + 256 * rval 58 b)" by (simp add: be_val_Cons algebra_simps)
  have "unat v + 256 * rval 58 b \<le> 256 ^ length vs * (unat v + 256 * rval 58 b)" by simp
  then have fits: "unat v + 256 * rval 58 b < 58 ^ length b" using Cons.prems(1) unfolding sum by linarith
  obtain i b' where r: "carry_loop 256 58 (unat v) 0 len b = (0, i, b')" "length b' = length b"
    "rval 58 b' = unat v + 256 * rval 58 b" "i \<le> length b" "zeros (drop i b')" "in_radix 58 b'"
    using carry_loop_fits [of 58 len b "unat v" 256] Cons.prems(2,3) fits by auto
  have "be_val vs + 256 ^ length vs * rval 58 b' < 58 ^ length b'" using Cons.prems(1) unfolding sum r(2,3) .
  then obtain len' c where "encode_loop vs i b' = Some (len', c)" "length c = length b"
    "rval 58 c = be_val (v # vs) + 256 ^ length (v # vs) * rval 58 b"
    "len' \<le> length b" "zeros (drop len' c)" "in_radix 58 c"
    using Cons.IH [of b' i] r(2-6) unfolding sum by auto
  moreover from this(1) have "encode_loop (v # vs) len b = Some (len', c)" by (simp add: r(1))
  ultimately show ?case by blast
qed simp

lemma root_bound:
  assumes "(a :: nat) ^ m \<le> b ^ k" "k * M \<le> K * m" "1 < b" "0 < m" "0 < M"
  shows "a ^ n < b ^ (n * K div M + 1)"
proof -
  have "(a ^ n) ^ (m * M) = (a ^ m) ^ (n * M)" by (simp add: ac_simps flip: power_mult)
  also have "\<dots> \<le> (b ^ k) ^ (n * M)" using assms(1) by (rule power_mono) simp
  also have "\<dots> = b ^ (n * (k * M))" by (simp add: ac_simps flip: power_mult)
  also have "\<dots> \<le> b ^ (n * (K * m))" using assms(2,3) by (intro power_increasing mult_le_mono2) simp_all
  also have "\<dots> < b ^ ((n * K div M + 1) * (m * M))"
  proof (rule power_strict_increasing)
    have "n * K = n * K div M * M + n * K mod M" "n * K mod M < M" using assms(5) by simp_all
    then have "n * K < (n * K div M + 1) * M" by (simp only: add_mult_distrib nat_mult_1)
    then have "n * K * m < (n * K div M + 1) * M * m" using assms(4) by simp
    then show "n * (K * m) < (n * K div M + 1) * (m * M)" by (simp only: ac_simps)
  qed (rule assms(3))
  finally have "(a ^ n) ^ (m * M) < (b ^ (n * K div M + 1)) ^ (m * M)" by (simp only: power_mult)
  then show ?thesis by (rule power_less_imp_less_base) simp
qed

lemma base58_room: "(256 :: nat) ^ n < 58 ^ (n * 138 div 100 + 1)"
  by (rule root_bound [of 256 8 58 11]) simp_all

lemma base256_room: "(58 :: nat) ^ n < 256 ^ (n * 733 div 1000 + 1)"
  by (rule root_bound [of 58 86 256 63]) simp_all

lemma EncodeBase58_digits:
  "\<exists>b. EncodeBase58 v = Some (replicate (length (takeWhile (\<lambda>c. c = 0) v)) (digits ! 0)
         @ map (\<lambda>d. digits ! unat d) (strip0 (rev b)))
     \<and> in_radix 58 b \<and> rval 58 b = be_val v"
proof -
  define w where "w = strip0 v"
  define n where "n = length w * 138 div 100 + 1"
  have "be_val w < 58 ^ n" unfolding n_def by (rule less_trans [OF be_val_bound base58_room])
  then obtain len b where r: "encode_loop w 0 (replicate n 0) = Some (len, b)" "length b = n"
    "rval 58 b = be_val w" "len \<le> n" "zeros (drop len b)" "in_radix 58 b"
    using encode_loop_value [of w "replicate n 0" 0] by (auto simp: rval_zeros list_all_iff)
  have "strip0 (drop (n - len) (rev b)) = strip0 (rev b)" using strip0_drop [OF r(5)] r(2,4) by simp
  then have "EncodeBase58 v = Some (replicate (length (takeWhile (\<lambda>c. c = 0) v)) (digits ! 0)
         @ map (\<lambda>d. digits ! unat d) (strip0 (rev b)))"
    unfolding EncodeBase58_def Let_def w_def [symmetric] n_def [symmetric] r(1) by simp
  moreover have "be_val w = be_val v" by (simp add: w_def be_val_dropWhile)
  ultimately show ?thesis using r by auto
qed

section \<open>The alphabet\<close>

definition b58_char :: "char \<Rightarrow> bool" where
  "b58_char c = ((of_char c :: nat) < 128 \<and> characterMap ! of_char c \<noteq> - 1)"

definition b58_digit :: "char \<Rightarrow> byte" where
  "b58_digit c = word_of_int (characterMap ! of_char c)"

lemma digits_table: "map (\<lambda>c. characterMap ! of_char c) digits = map int [0..<58]"
  by code_simp

lemma characters_table: "map char_of (filter (\<lambda>n. characterMap ! n \<noteq> - 1) [0..<128]) = digits"
  by code_simp

lemma digits_ascii: "list_all (\<lambda>c. (of_char c :: nat) < 128 \<and> \<not> c_isspace c) digits"
  by code_simp

lemma digits_nth:
  assumes "n < 58"
  shows "characterMap ! of_char (digits ! n) = int n" "(of_char (digits ! n) :: nat) < 128" "\<not> c_isspace (digits ! n)"
proof -
  have len: "length digits = 58" using arg_cong [OF digits_table, of length] by simp
  show "characterMap ! of_char (digits ! n) = int n"
    using arg_cong [OF digits_table, of "\<lambda>xs. xs ! n"] assms by (simp add: len)
  show "(of_char (digits ! n) :: nat) < 128" "\<not> c_isspace (digits ! n)"
    using digits_ascii assms by (simp_all add: list_all_length len)
qed

lemma digit_char:
  assumes "unat d < 58"
  shows "b58_char (digits ! unat d)" "b58_digit (digits ! unat d) = d" "\<not> c_isspace (digits ! unat d)"
proof -
  note n = digits_nth [OF assms]
  have "characterMap ! of_char (digits ! unat d) \<noteq> - 1" unfolding n(1) by linarith
  then show "b58_char (digits ! unat d)" using n(2) by (simp add: b58_char_def)
  show "b58_digit (digits ! unat d) = d" by (simp add: b58_digit_def n(1))
qed (rule digits_nth(3) [OF assms])

lemma char_digit:
  assumes "b58_char c"
  shows "characterMap ! of_char c = int (unat (b58_digit c))" "unat (b58_digit c) < 58"
    "digits ! unat (b58_digit c) = c" "\<not> c_isspace c"
proof -
  have "c = char_of (of_char c :: nat)" by simp
  then have "c \<in> set (map char_of (filter (\<lambda>n. characterMap ! n \<noteq> - 1) [0..<128]))"
    using assms by (auto simp: b58_char_def intro!: image_eqI [of c char_of "of_char c"])
  then have "c \<in> set digits" unfolding characters_table .
  moreover have len: "length digits = 58" using arg_cong [OF digits_table, of length] by simp
  ultimately obtain n where n: "n < 58" "c = digits ! n" by (auto simp: in_set_conv_nth)
  then have u: "unat (b58_digit c) = n" using digits_nth(1) [OF n(1)] by (simp add: b58_digit_def unat_of_nat)
  show "characterMap ! of_char c = int (unat (b58_digit c))" "unat (b58_digit c) < 58"
    "digits ! unat (b58_digit c) = c" "\<not> c_isspace c"
    unfolding u using n digits_nth [OF n(1)] by simp_all
qed

section \<open>Decoding\<close>

lemma decode_loop_value:
  "58 ^ length s * (rval 256 b + 1) \<le> 256 ^ length b \<Longrightarrow> zeros (drop len b) \<Longrightarrow> len \<le> length b \<Longrightarrow>
   \<exists>r. decode_loop s len b = Some r
     \<and> (case r of Inl _ \<Rightarrow> \<not> list_all b58_char s
        | Inr (s', len', b') \<Rightarrow>
            \<exists>p. s = p @ s' \<and> list_all b58_char p \<and> (s' = [] \<or> c_isspace (hd s')) \<and> length b' = length b
              \<and> rval 256 b' = rval 58 (rev (map b58_digit p)) + 58 ^ length p * rval 256 b
              \<and> len' \<le> length b \<and> zeros (drop len' b'))"
proof (induction s arbitrary: len b)
  case (Cons c s)
  show ?case
  proof (cases "b58_char c")
    case False
    then show ?thesis using Cons.prems by (auto simp: b58_char_def Let_def)
  next
    case True
    note c = char_digit [OF True]
    let ?d = "b58_digit c"
    have "1 * (58 * (rval 256 b + 1)) \<le> 58 ^ length s * (58 * (rval 256 b + 1))" by (rule mult_le_mono1) simp
    moreover have total: "58 ^ length s * (58 * (rval 256 b + 1)) \<le> 256 ^ length b"
      using Cons.prems(1) by (simp only: list.size power_add power_one_right add_Suc_right add_0_right power_Suc power_0 mult_1 ac_simps)
    ultimately have room: "58 * (rval 256 b + 1) \<le> 256 ^ length b" by linarith
    have "unat ?d + 58 * rval 256 b < 58 * (rval 256 b + 1)" using c(2) by simp
    then have "unat ?d + 58 * rval 256 b < 256 ^ length b" using room by (rule less_le_trans)
    then obtain i b' where r: "carry_loop 58 256 (unat ?d) 0 len b = (0, i, b')" "length b' = length b"
      "rval 256 b' = unat ?d + 58 * rval 256 b" "i \<le> length b" "zeros (drop i b')"
      using carry_loop_fits [of 256 len b "unat ?d" 58] Cons.prems(2) by auto
    have step: "decode_loop (c # s) len b = decode_loop s i b'"
      using True c(4) by (simp add: b58_char_def Let_def c(1) r(1) del: of_nat_unat)
    have "58 ^ length s * (rval 256 b' + 1) \<le> 58 ^ length s * (58 * (rval 256 b + 1))"
      using c(2) r(3) by (intro mult_le_mono2) simp
    then have "58 ^ length s * (rval 256 b' + 1) \<le> 256 ^ length b'"
      using total unfolding r(2) by (rule order_trans)
    then obtain res where IH: "decode_loop s i b' = Some res"
      "case res of Inl _ \<Rightarrow> \<not> list_all b58_char s
        | Inr (s', len', b'') \<Rightarrow>
            \<exists>p. s = p @ s' \<and> list_all b58_char p \<and> (s' = [] \<or> c_isspace (hd s')) \<and> length b'' = length b'
              \<and> rval 256 b'' = rval 58 (rev (map b58_digit p)) + 58 ^ length p * rval 256 b'
              \<and> len' \<le> length b' \<and> zeros (drop len' b'')"
      using Cons.IH [of b' i] r by auto
    show ?thesis
    proof (cases res)
      case (Inl u)
      then show ?thesis using IH step by simp
    next
      case (Inr t)
      obtain s' len' b'' where t: "t = (s', len', b'')" by (cases t) auto
      obtain p where p: "s = p @ s'" "list_all b58_char p" "s' = [] \<or> c_isspace (hd s')" "length b'' = length b'"
          "rval 256 b'' = rval 58 (rev (map b58_digit p)) + 58 ^ length p * rval 256 b'"
          "len' \<le> length b'" "zeros (drop len' b'')" using IH(2) Inr t by auto
      have "rval 256 b'' = rval 58 (rev (map b58_digit (c # p))) + 58 ^ length (c # p) * rval 256 b"
        by (simp add: p(5) r(3) rval_append algebra_simps)
      then show ?thesis using p r True unfolding step IH(1) Inr t
        by (intro exI [of _ "Inr (s', len', b'')"]) (auto intro!: exI [of _ "c # p"])
    qed
  qed
qed auto

lemma DecodeBase58_cases:
  obtains "DecodeBase58 s = Some (False, [])" "\<not> list_all b58_char s"
  | p b where "DecodeBase58 s = Some (True, replicate (length (takeWhile (\<lambda>c. c = digits ! 0) (dropWhile c_isspace s))) 0
                                             @ strip0 (rev b))"
      "rval 256 b = rval 58 (rev (map b58_digit p))" "list_all b58_char p"
      "\<exists>s'. dropWhile (\<lambda>c. c = digits ! 0) (dropWhile c_isspace s) = p @ s' \<and> list_all c_isspace s'"
proof -
  define it where "it = dropWhile (\<lambda>c. c = digits ! 0) (dropWhile c_isspace s)"
  define n where "n = length it * 733 div 1000 + 1"
  have room: "58 ^ length it * (rval 256 (replicate n 0) + 1) \<le> 256 ^ length (replicate n 0)"
    using base256_room [of "length it"] by (simp add: rval_zeros n_def)
  obtain r where r: "decode_loop it 0 (replicate n 0) = Some r"
    "case r of Inl _ \<Rightarrow> \<not> list_all b58_char it
        | Inr (s', len', b') \<Rightarrow>
            \<exists>p. it = p @ s' \<and> list_all b58_char p \<and> (s' = [] \<or> c_isspace (hd s')) \<and> length b' = n
              \<and> rval 256 b' = rval 58 (rev (map b58_digit p))
              \<and> len' \<le> n \<and> zeros (drop len' b')"
    using decode_loop_value [OF room, of 0, unfolded rval_zeros [OF zeros_replicate] length_replicate mult_0_right
        add_0_right drop_0, OF zeros_replicate le0] by blast
  have sub: "set it \<subseteq> set s" unfolding it_def by (meson set_dropWhileD subsetI)
  show thesis
  proof (cases r)
    case (Inl u)
    then have "\<not> list_all b58_char s" using r(2) sub by (auto simp: list_all_iff)
    moreover have "DecodeBase58 s = Some (False, [])"
      unfolding DecodeBase58_def Let_def it_def [symmetric] n_def [symmetric] r(1) using Inl by simp
    ultimately show thesis using that(1) by blast
  next
    case (Inr t)
    obtain s' len b where t: "t = (s', len, b)" by (cases t) auto
    obtain p where p: "it = p @ s'" "list_all b58_char p" "s' = [] \<or> c_isspace (hd s')" "length b = n"
       "rval 256 b = rval 58 (rev (map b58_digit p))" "len \<le> n" "zeros (drop len b)" using r(2) Inr t by auto
    have strip: "strip0 (drop (n - len) (rev b)) = strip0 (rev b)" using strip0_drop [OF p(7)] p(4,6) by simp
    show thesis
    proof (cases "dropWhile c_isspace s' = []")
      case True
      then have "DecodeBase58 s = Some (True, replicate (length (takeWhile (\<lambda>c. c = digits ! 0) (dropWhile c_isspace s))) 0
                                             @ strip0 (rev b))"
        unfolding DecodeBase58_def Let_def it_def [symmetric] n_def [symmetric] r(1) Inr t using strip by simp
      moreover have "list_all c_isspace s'" using True by (simp add: dropWhile_eq_Nil_conv list_all_iff)
      ultimately show thesis using that(2) p(1,2,5) unfolding it_def by blast
    next
      case False
      then have "s' \<noteq> []" by auto
      then have "\<not> b58_char (hd s')" using p(3) char_digit(4) by blast
      moreover have "hd s' \<in> set s" using sub p(1) \<open>s' \<noteq> []\<close> by auto
      ultimately have "\<not> list_all b58_char s" by (auto simp: list_all_iff)
      moreover have "DecodeBase58 s = Some (False, [])"
        unfolding DecodeBase58_def Let_def it_def [symmetric] n_def [symmetric] r(1) Inr t using False by simp
      ultimately show thesis using that(1) by blast
    qed
  qed
qed


section \<open>Round trips\<close>

lemma strip0_hd: "strip0 ds = d # ds' \<Longrightarrow> d \<noteq> 0"
  using hd_dropWhile [of "\<lambda>d. d = 0" ds] by simp

lemma takeWhile_replicate: "P x \<Longrightarrow> takeWhile P (replicate n x @ ys) = replicate n x @ takeWhile P ys"
  by (induction n) auto

lemma dropWhile_replicate: "P x \<Longrightarrow> dropWhile P (replicate n x @ ys) = dropWhile P ys"
  by (induction n) auto

lemma takeWhile_dropWhile: "takeWhile P (dropWhile P xs) = []"
  by (induction xs) auto

lemma lead_split: "v = replicate (length (takeWhile (\<lambda>c. c = x) v)) x @ dropWhile (\<lambda>c. c = x) v"
  by (induction v) auto

lemma be_val_rval: "be_val v = rval 256 (rev v)"
  by (simp add: be_val_def rval_256)

lemma encoded_lead:
  assumes "in_radix 58 b"
  shows "takeWhile (\<lambda>c. c = digits ! 0) (map (\<lambda>d. digits ! unat d) (strip0 (rev b))) = []"
proof (cases "strip0 (rev b)")
  case (Cons d ds)
  then have "d \<noteq> 0" by (rule strip0_hd)
  moreover have "unat d < 58" using assms Cons by (metis (no_types, lifting) list.set_intros(1) list_all_iff set_dropWhileD set_rev)
  ultimately have "digits ! unat d \<noteq> digits ! 0" using digit_char(2) [of d] digit_char(2) [of 0] by auto
  then show ?thesis unfolding Cons by simp
qed (simp only: list.map takeWhile.simps)

lemma DecodeBase58_EncodeBase58: "\<exists>s. EncodeBase58 v = Some s \<and> list_all b58_char s \<and> DecodeBase58 s = Some (True, v)"
proof -
  define z where "z = length (takeWhile (\<lambda>c. c = 0) v)"
  obtain b where enc: "EncodeBase58 v = Some (replicate z (digits ! 0) @ map (\<lambda>d. digits ! unat d) (strip0 (rev b)))"
    and b: "in_radix 58 b" "rval 58 b = be_val v" using EncodeBase58_digits [of v] z_def by blast
  define ds where "ds = strip0 (rev b)"
  define s where "s = replicate z (digits ! 0) @ map (\<lambda>d. digits ! unat d) ds"
  have ds: "unat d < 58" if "d \<in> set ds" for d using that b(1) unfolding ds_def by (metis list_all_iff set_dropWhileD set_rev)
  have valid: "list_all b58_char s"
    using digit_char(1) [of 0] digit_char(1) ds by (auto simp: s_def list_all_iff)
  have nosp: "dropWhile c_isspace s = s"
    using valid char_digit(4) by (cases s) auto
  have lead: "takeWhile (\<lambda>c. c = digits ! 0) (map (\<lambda>d. digits ! unat d) ds) = []"
    unfolding ds_def by (rule encoded_lead [OF b(1)])
  have tw: "takeWhile (\<lambda>c. c = digits ! 0) s = replicate z (digits ! 0)" by (simp add: s_def takeWhile_replicate lead)
  have dw: "dropWhile (\<lambda>c. c = digits ! 0) s = map (\<lambda>d. digits ! unat d) ds"
    using lead by (simp add: s_def dropWhile_replicate) (metis append_Nil takeWhile_dropWhile_id)
  have inv: "map b58_digit (map (\<lambda>d. digits ! unat d) ds) = ds"
    using ds digit_char(2) by (induction ds) auto
  show ?thesis
  proof (rule DecodeBase58_cases [of s])
    fix p c
    assume dec: "DecodeBase58 s = Some (True, replicate (length (takeWhile (\<lambda>c. c = digits ! 0) (dropWhile c_isspace s))) 0
                                             @ strip0 (rev c))"
      and val: "rval 256 c = rval 58 (rev (map b58_digit p))"
      and "\<exists>s'. dropWhile (\<lambda>c. c = digits ! 0) (dropWhile c_isspace s) = p @ s' \<and> list_all c_isspace s'"
    then obtain s' where s': "map (\<lambda>d. digits ! unat d) ds = p @ s'" "list_all c_isspace s'"
      unfolding nosp dw by blast
    have "s' = []"
    proof (cases s')
      case (Cons x xs)
      have "x \<in> set (map (\<lambda>d. digits ! unat d) ds)" unfolding s'(1) by (simp add: Cons)
      then have "\<not> c_isspace x" using digit_char(3) ds by auto
      then show ?thesis using s'(2) Cons by simp
    qed
    then have p: "map b58_digit p = ds" using s'(1) inv by simp
    have "rval 58 (rev ds) = be_val v"
    proof -
      obtain k where k: "rev b = replicate k 0 @ ds" unfolding ds_def using lead_split by metis
      have "rev (rev b) = rev ds @ replicate k 0" unfolding k by simp
      then have "b = rev ds @ replicate k 0" by simp
      then show ?thesis using b(2) by (simp add: rval_append rval_zeros)
    qed
    then have "rval 256 c = rval 256 (rev (strip0 v))"
      by (simp add: val p be_val_dropWhile flip: be_val_rval)
    then have "strip0 (rev c) = strip0 (rev (rev (strip0 v)))" by (rule strip0_unique [of 256, rotated 2]) simp_all
    also have "\<dots> = strip0 v" by simp
    finally have "DecodeBase58 s = Some (True, v)"
      using dec lead_split [of v 0] unfolding nosp tw by (simp add: z_def)
    then show ?thesis using enc valid by (simp add: s_def ds_def)
  qed (use valid in simp)
qed

lemma EncodeBase58_DecodeBase58:
  assumes "DecodeBase58 s = Some (True, v)" "list_all (\<lambda>c. \<not> c_isspace c) s"
  shows "EncodeBase58 v = Some s"
proof (rule DecodeBase58_cases [of s])
  fix p c
  assume dec: "DecodeBase58 s = Some (True, replicate (length (takeWhile (\<lambda>c. c = digits ! 0) (dropWhile c_isspace s))) 0
                                             @ strip0 (rev c))"
    and val: "rval 256 c = rval 58 (rev (map b58_digit p))" and chars: "list_all b58_char p"
    and ex: "\<exists>s'. dropWhile (\<lambda>c. c = digits ! 0) (dropWhile c_isspace s) = p @ s' \<and> list_all c_isspace s'"
  have nosp: "dropWhile c_isspace s = s" using assms(2) by (cases s) auto
  define z where "z = length (takeWhile (\<lambda>c. c = digits ! 0) s)"
  obtain s' where s': "dropWhile (\<lambda>c. c = digits ! 0) s = p @ s'" "list_all c_isspace s'" using ex unfolding nosp by blast
  have "set (p @ s') \<subseteq> set s" unfolding s'(1) [symmetric] by (auto dest: set_dropWhileD)
  then have "set s' \<subseteq> set s" by simp
  then have "s' = []" using s'(2) assms(2) by (cases s') (auto simp: list_all_iff)
  then have s: "s = replicate z (digits ! 0) @ p" and p: "dropWhile (\<lambda>c. c = digits ! 0) s = p"
    using lead_split [of s "digits ! 0"] s'(1) by (simp_all add: z_def)
  have v: "v = replicate z 0 @ strip0 (rev c)" using dec assms(1) unfolding nosp by (simp add: z_def)
  have lead: "takeWhile (\<lambda>d. d = 0) (strip0 (rev c)) = []"
    by (rule takeWhile_dropWhile)
  have tw: "length (takeWhile (\<lambda>d. d = 0) v) = z" by (simp add: v takeWhile_replicate lead)
  obtain b where enc: "EncodeBase58 v = Some (replicate z (digits ! 0) @ map (\<lambda>d. digits ! unat d) (strip0 (rev b)))"
    and b: "in_radix 58 b" "rval 58 b = be_val v" using EncodeBase58_digits [of v] unfolding tw by blast
  have "be_val v = be_val (strip0 (rev c))" unfolding v by (simp only: be_val_append) (simp add: be_val_rval rval_zeros)
  also have "\<dots> = rval 58 (rev (map b58_digit p))" by (simp add: be_val_dropWhile val flip: rval_256)
  finally have "rval 58 b = rval 58 (rev (map b58_digit p))" by (simp add: b(2))
  moreover have "in_radix 58 (rev (map b58_digit p))" using chars char_digit(2) by (auto simp: list_all_iff)
  ultimately have "strip0 (rev b) = strip0 (rev (rev (map b58_digit p)))" using b(1) by (intro strip0_unique [of 58]) simp_all
  also have "\<dots> = map b58_digit p"
  proof (cases p)
    case (Cons x xs)
    then have "x \<noteq> digits ! 0" using hd_dropWhile [of "\<lambda>c. c = digits ! 0" s] p by simp
    then have "b58_digit x \<noteq> 0" using char_digit(3) [of x] chars Cons by auto
    then show ?thesis by (simp add: Cons)
  qed simp
  finally have "map (\<lambda>d. digits ! unat d) (strip0 (rev b)) = p"
    using chars char_digit(3) by (simp add: list_all_iff map_idI)
  then show ?thesis using enc s by simp
qed (use assms in simp)


section \<open>Checksummed data and addresses\<close>

lemma Hash_checksum: "digest_lengths C \<Longrightarrow> length (take 4 (base_uint_getBytes (Hash C b))) = 4"
  using wval_limbs_of_bytes [of "SHA256 C (SHA256 C b)" 8] by (simp add: Hash_def length_getBytes digest_lengths_def)

lemma DecodeBase58Check_EncodeBase58Check:
  assumes "digest_lengths C"
  shows "\<exists>s. EncodeBase58Check C v = Some s \<and> DecodeBase58Check C s = Some (True, v)"
proof -
  let ?w = "v @ take 4 (base_uint_getBytes (Hash C v))"
  obtain s where "EncodeBase58 ?w = Some s" "DecodeBase58 s = Some (True, ?w)" using DecodeBase58_EncodeBase58 by blast
  then show ?thesis using Hash_checksum [OF assms, of v]
    by (simp add: EncodeBase58Check_def DecodeBase58Check_def Let_def del: length_take)
qed

lemma CBase58Data_roundtrip:
  assumes "digest_lengths C"
  shows "\<exists>s. CBase58Data_ToString C d = Some s \<and> CBase58Data_SetString C s = Some (True, d)"
  using DecodeBase58Check_EncodeBase58Check [OF assms, of "b58_nVersion d # b58_vchData d"]
  by (auto simp: CBase58Data_ToString_def CBase58Data_SetString_def)

lemma reads_CPubKey:
  assumes "length k = CPubKey_size k" "0 < CPubKey_size k"
  shows "reads CDataStream_content CDataStream_ok (unser_CPubKey CDataStream_read [0xff]) (ser_CPubKey k) k"
proof -
  have len: "CPubKey_size k \<le> 65" by (simp add: CPubKey_size_def CPubKey_GetLen_def)
  then have u: "unat (of_nat (CPubKey_size k) :: u64) = CPubKey_size k" by (simp add: unat_of_nat)
  have k: "CPubKey_bytes k = k" using assms by (simp add: CPubKey_bytes_def)
  have d: "drop (length k) [0xff :: byte] = []" using assms by simp
  have "reads CDataStream_content CDataStream_ok
      (\<lambda>s. case CDataStream_read s (length k) of None \<Rightarrow> None | Some (b, s) \<Rightarrow> Some (b @ drop (length b) [0xff], s))
      k (k @ drop (length k) [0xff])"
    by (rule reads_bind_last [OF data_stream.reads_raw])
  then have body: "reads CDataStream_content CDataStream_ok
      (\<lambda>s. case CDataStream_read s (length k) of None \<Rightarrow> None | Some (b, s) \<Rightarrow> Some (b @ drop (length b) [0xff], s)) k k"
    unfolding d by simp
  have "reads CDataStream_content CDataStream_ok (unser_CPubKey CDataStream_read [0xff])
      (WriteCompactSize (of_nat (CPubKey_size k)) @ k) k"
    unfolding unser_CPubKey_def [abs_def]
    by (rule reads_bind [OF data_stream.reads_compact]) (use len body assms(1) in \<open>simp_all add: u\<close>)
  then show ?thesis by (simp add: ser_CPubKey_def k)
qed

lemma length_ser_CPubKey:
  "length k = CPubKey_size k \<Longrightarrow> CPubKey_IsCompressed k \<Longrightarrow> length (ser_CPubKey k) = 34"
  by (simp add: ser_CPubKey_def CPubKey_bytes_def CPubKey_IsCompressed_def WriteCompactSize_def ser_uint_def)


lemma CMalleablePubKey_setvch_Raw:
  assumes "length (pubKeyL mpk) = CPubKey_size (pubKeyL mpk)" "CPubKey_IsCompressed (pubKeyL mpk)"
    and "length (pubKeyH mpk) = CPubKey_size (pubKeyH mpk)" "CPubKey_IsCompressed (pubKeyH mpk)"
  shows "CMalleablePubKey_setvch CMalleablePubKey_init (CMalleablePubKey_Raw mpk) = Some (True, mpk)"
    and "length (CMalleablePubKey_Raw mpk) = 68"
proof -
  show len: "length (CMalleablePubKey_Raw mpk) = 68"
    using assms by (simp add: CMalleablePubKey_Raw_def length_ser_CPubKey)
  let ?s = "CDataStream_Init (CMalleablePubKey_Raw mpk)"
  have pos: "0 < CPubKey_size (pubKeyL mpk)" "0 < CPubKey_size (pubKeyH mpk)"
    using assms by (simp_all add: CPubKey_IsCompressed_def)
  have ok: "CDataStream_ok ?s" and c: "CDataStream_content ?s = ser_CPubKey (pubKeyL mpk) @ ser_CPubKey (pubKeyH mpk)"
    using len by (simp_all add: CDataStream_ok_def CDataStream_Init_def CDataStream_content_def CMalleablePubKey_Raw_def)
  obtain s1 where 1: "unser_CPubKey CDataStream_read [0xff] ?s = Some (pubKeyL mpk, s1)" "CDataStream_ok s1"
    "CDataStream_content s1 = ser_CPubKey (pubKeyH mpk) @ []"
    using readsE [OF reads_CPubKey [OF assms(1) pos(1)] ok c] by auto
  obtain s2 where 2: "unser_CPubKey CDataStream_read [0xff] s1 = Some (pubKeyH mpk, s2)"
    using readsE [OF reads_CPubKey [OF assms(3) pos(2)] 1(2,3)] by blast
  have "CMalleablePubKey_IsValid mpk" using pos by (simp add: CMalleablePubKey_IsValid_def CPubKey_IsValid_def)
  then show "CMalleablePubKey_setvch CMalleablePubKey_init (CMalleablePubKey_Raw mpk) = Some (True, mpk)"
    by (simp add: CMalleablePubKey_setvch_def CMalleablePubKey_init_def 1(1) 2 Let_def CMalleablePubKey_IsValid_def)
qed

lemma secret_text:
  assumes "digest_lengths C" "length vchSecret = 32"
  shows "\<exists>d str. CBitcoinSecret_SetSecret fTestNet vchSecret fCompressed = Some d \<and> CBase58Data_ToString C d = Some str
      \<and> CBitcoinSecret_SetString C fTestNet str = Some (True, d)
      \<and> CBitcoinSecret_SetString C (\<not> fTestNet) str = Some (False, d)
      \<and> CBitcoinSecret_GetSecret d = Some (vchSecret, fCompressed)"
proof -
  obtain d where d: "CBitcoinSecret_SetSecret fTestNet vchSecret fCompressed = Some d"
    using assms(2) by (simp add: CBitcoinSecret_SetSecret_def Let_def)
  obtain str where str: "CBase58Data_ToString C d = Some str" "CBase58Data_SetString C str = Some (True, d)"
    using CBase58Data_roundtrip [OF assms(1)] by blast
  have "CBitcoinSecret_IsValid fTestNet d \<and> \<not> CBitcoinSecret_IsValid (\<not> fTestNet) d
      \<and> CBitcoinSecret_GetSecret d = Some (vchSecret, fCompressed)"
    using d assms(2) by (cases fTestNet; cases fCompressed)
      (auto simp: CBitcoinSecret_SetSecret_def CBitcoinSecret_IsValid_def CBitcoinSecret_GetSecret_def
        CBase58Data_SetData_def Let_def nth_append)
  then show ?thesis using d str by (auto simp: CBitcoinSecret_SetString_def)
qed

lemma pair_text:
  assumes "digest_lengths C"
    and keys: "length (pubKeyL mpk) = CPubKey_size (pubKeyL mpk)" "CPubKey_IsCompressed (pubKeyL mpk)"
      "length (pubKeyH mpk) = CPubKey_size (pubKeyH mpk)" "CPubKey_IsCompressed (pubKeyH mpk)"
  shows "\<exists>a str. CBitcoinAddress_Set_pair fTestNet mpk = Some a \<and> CBase58Data_ToString C a = Some str
      \<and> CBase58Data_SetString C str = Some (True, a)
      \<and> CMalleablePubKey_setvch CMalleablePubKey_init (b58_vchData a) = Some (True, mpk)
      \<and> CBitcoinAddress_IsPair fTestNet a = Some True
      \<and> CBitcoinAddress_GetKeyID C fTestNet a = Some (Some (CMalleablePubKey_GetID C mpk))"
proof -
  note raw = CMalleablePubKey_setvch_Raw [OF keys]
  define a where "a = CBase58Data_SetData (if fTestNet then PUBKEY_PAIR_ADDRESS_TEST else PUBKEY_PAIR_ADDRESS)
                      (CMalleablePubKey_Raw mpk)"
  have a: "CBitcoinAddress_Set_pair fTestNet mpk = Some a"
    using raw(2) by (simp add: CBitcoinAddress_Set_pair_def Let_def a_def)
  obtain str where str: "CBase58Data_ToString C a = Some str" "CBase58Data_SetString C str = Some (True, a)"
    using CBase58Data_roundtrip [OF assms(1)] by blast
  have "CMalleablePubKey_IsValid mpk"
    using keys by (simp add: CMalleablePubKey_IsValid_def CPubKey_IsValid_def CPubKey_IsCompressed_def)
  then have "CMalleablePubKey_setvch CMalleablePubKey_init (b58_vchData a) = Some (True, mpk)
      \<and> CBitcoinAddress_IsPair fTestNet a = Some True
      \<and> CBitcoinAddress_GetKeyID C fTestNet a = Some (Some (CMalleablePubKey_GetID C mpk))"
    using raw by (cases fTestNet) (simp_all add: a_def CBase58Data_SetData_def CBitcoinAddress_IsPair_def
      CBitcoinAddress_GetKeyID_def CBitcoinAddress_IsValid_def)
  then show ?thesis using a str by blast
qed

lemma pair_own_text:
  assumes "digest_lengths C"
    and keys: "length (pubKeyL mpk) = CPubKey_size (pubKeyL mpk)" "CPubKey_IsCompressed (pubKeyL mpk)"
      "length (pubKeyH mpk) = CPubKey_size (pubKeyH mpk)" "CPubKey_IsCompressed (pubKeyH mpk)"
  shows "\<exists>str. CMalleablePubKey_ToString C mpk = Some str
      \<and> CMalleablePubKey_SetString C CMalleablePubKey_init str = Some (True, mpk)"
  using DecodeBase58Check_EncodeBase58Check [OF assms(1), of "CMalleablePubKey_Raw mpk"] CMalleablePubKey_setvch_Raw [OF keys]
  by (auto simp: CMalleablePubKey_ToString_def CMalleablePubKey_SetString_def)

section \<open>Properties\<close>

text \<open>C31: base 58 is a bijection between byte strings and the strings of the alphabet: every byte
  string is decoded from its encoding, a string without white space that decodes is the encoding of
  what it decodes to, and neither direction can fail its assertion that the estimated buffer size
  was enough.\<close>

theorem Base58_bijection:
  assumes "list_all (\<lambda>c. \<not> c_isspace c) s"
  shows "(\<exists>t. EncodeBase58 v = Some t \<and> DecodeBase58 t = Some (True, v))
    \<and> (\<exists>ok w. DecodeBase58 s = Some (ok, w)) \<and> (DecodeBase58 s = Some (True, v) \<longleftrightarrow> EncodeBase58 v = Some s)"
proof -
  obtain t where t: "EncodeBase58 v = Some t" "DecodeBase58 t = Some (True, v)" using DecodeBase58_EncodeBase58 by blast
  moreover have "\<exists>ok w. DecodeBase58 s = Some (ok, w)" by (rule DecodeBase58_cases [of s]) blast+
  ultimately show ?thesis using EncodeBase58_DecodeBase58 [OF _ assms, of v] by auto
qed

theorem Base58_bijection_witness:
  "(\<exists>t. EncodeBase58 [0, 57, 58] = Some t \<and> DecodeBase58 t = Some (True, [0, 57, 58]))
   \<and> (\<exists>ok w. DecodeBase58 ''1A0'' = Some (ok, w))
   \<and> (DecodeBase58 ''1A0'' = Some (True, [0, 57, 58]) \<longleftrightarrow> EncodeBase58 [0, 57, 58] = Some ''1A0'')"
  by (rule Base58_bijection) code_simp

text \<open>C32: an address text gives back the destination it was made from, key hash or script hash, on the
  network it was made for, and no destination on the other network.\<close>

theorem address_roundtrip:
  assumes "digest_lengths C" "dest = CKeyID h \<or> dest = CScriptID h" "length h = 5"
  shows "\<exists>str a. CBase58Data_ToString C (snd (CBitcoinAddress_Set fTestNet addr dest)) = Some str
    \<and> CBase58Data_SetString C str = Some (True, a)
    \<and> CBitcoinAddress_Get fTestNet a = Some dest \<and> CBitcoinAddress_Get (\<not> fTestNet) a = Some CNoDestination"
proof -
  let ?a = "snd (CBitcoinAddress_Set fTestNet addr dest)"
  obtain str where str: "CBase58Data_ToString C ?a = Some str" "CBase58Data_SetString C str = Some (True, ?a)"
    using CBase58Data_roundtrip [OF assms(1)] by blast
  have h: "take 20 (base_uint_getBytes h) = base_uint_getBytes h" "length (base_uint_getBytes h) = 20"
    using assms(3) by (simp_all add: length_getBytes)
  have "CBitcoinAddress_Get fTestNet ?a = Some dest \<and> CBitcoinAddress_Get (\<not> fTestNet) ?a = Some CNoDestination"
    using assms(2) h by (cases fTestNet; elim disjE)
      (simp_all add: CBitcoinAddress_Set_def CBitcoinAddress_Get_def CBitcoinAddress_IsValid_def CBase58Data_SetData_def
        limbs_of_getBytes)
  with str show ?thesis by blast
qed

theorem address_roundtrip_witness:
  "\<exists>str a. CBase58Data_ToString sample_crypto (snd (CBitcoinAddress_Set False CBase58Data_init (CKeyID [1, 2, 3, 4, 5]))) = Some str
    \<and> CBase58Data_SetString sample_crypto str = Some (True, a)
    \<and> CBitcoinAddress_Get False a = Some (CKeyID [1, 2, 3, 4, 5]) \<and> CBitcoinAddress_Get (\<not> False) a = Some CNoDestination"
  by (rule address_roundtrip [OF sample_digest_lengths, of _ "[1, 2, 3, 4, 5]"]) simp_all

text \<open>C33: the text of a secret gives back the secret and its compression flag on its own network and is
  invalid on the other one. A pair of compressed public keys is read back, both keys of it, from its
  address and from its own text.\<close>

theorem secret_and_pair_roundtrip:
  assumes "digest_lengths C" "length vchSecret = 32"
    and "length (pubKeyL mpk) = CPubKey_size (pubKeyL mpk)" "CPubKey_IsCompressed (pubKeyL mpk)"
    and "length (pubKeyH mpk) = CPubKey_size (pubKeyH mpk)" "CPubKey_IsCompressed (pubKeyH mpk)"
  shows "(\<exists>d str. CBitcoinSecret_SetSecret fTestNet vchSecret fCompressed = Some d \<and> CBase58Data_ToString C d = Some str
      \<and> CBitcoinSecret_SetString C fTestNet str = Some (True, d)
      \<and> CBitcoinSecret_SetString C (\<not> fTestNet) str = Some (False, d)
      \<and> CBitcoinSecret_GetSecret d = Some (vchSecret, fCompressed))
    \<and> (\<exists>a str. CBitcoinAddress_Set_pair fTestNet mpk = Some a \<and> CBase58Data_ToString C a = Some str
      \<and> CBase58Data_SetString C str = Some (True, a)
      \<and> CMalleablePubKey_setvch CMalleablePubKey_init (b58_vchData a) = Some (True, mpk)
      \<and> CBitcoinAddress_IsPair fTestNet a = Some True
      \<and> CBitcoinAddress_GetKeyID C fTestNet a = Some (Some (CMalleablePubKey_GetID C mpk)))
    \<and> (\<exists>str. CMalleablePubKey_ToString C mpk = Some str
      \<and> CMalleablePubKey_SetString C CMalleablePubKey_init str = Some (True, mpk))"
  using secret_text [OF assms(1,2)] pair_text [OF assms(1,3-6)] pair_own_text [OF assms(1,3-6)] by blast

theorem secret_and_pair_roundtrip_witness:
  "(\<exists>d str. CBitcoinSecret_SetSecret False (replicate 32 1) True = Some d \<and> CBase58Data_ToString sample_crypto d = Some str
      \<and> CBitcoinSecret_SetString sample_crypto False str = Some (True, d)
      \<and> CBitcoinSecret_SetString sample_crypto True str = Some (False, d)
      \<and> CBitcoinSecret_GetSecret d = Some (replicate 32 1, True))
    \<and> (\<exists>str. CMalleablePubKey_ToString sample_crypto \<lparr> pubKeyL = 2 # replicate 32 7, pubKeyH = 3 # replicate 32 9 \<rparr> = Some str
      \<and> CMalleablePubKey_SetString sample_crypto CMalleablePubKey_init str
          = Some (True, \<lparr> pubKeyL = 2 # replicate 32 7, pubKeyH = 3 # replicate 32 9 \<rparr>))"
proof -
  let ?mpk = "\<lparr> pubKeyL = 2 # replicate 32 7, pubKeyH = 3 # replicate 32 9 \<rparr>"
  have k: "length (pubKeyL ?mpk) = CPubKey_size (pubKeyL ?mpk)" "CPubKey_IsCompressed (pubKeyL ?mpk)"
     "length (pubKeyH ?mpk) = CPubKey_size (pubKeyH ?mpk)" "CPubKey_IsCompressed (pubKeyH ?mpk)"
    by (simp_all add: CPubKey_size_def CPubKey_GetLen_def CPubKey_IsCompressed_def)
  have "length (replicate 32 (1 :: byte)) = 32" by simp
  from secret_and_pair_roundtrip [OF sample_digest_lengths this k, of False True]
  show ?thesis unfolding not_False_eq_True by blast
qed

end
