(* ===== verification/Encoding.thy ===== *)
theory Encoding
  imports Uint256
begin

text \<open>
  The text encodings of \<open>src/src/util.cpp\<close> and \<open>src/src/util.h\<close>: splitting, amounts, hexadecimal
  text, base 64, base 32, the escaped strings of wallet dumps and wildcard masks. A C string is the
  list of its characters before the terminating null; a C++ \<open>int\<close> that only holds bits of a byte is a
  natural number with the same bit operations. The decoders return the flag \<open>*pfInvalid\<close> with the bytes.

  The lemmas show that each decoder undoes its encoder, bound what \<open>ParseMoney\<close> returns, and compare
  \<open>WildcardMatch\<close> with the set of strings a mask stands for.
\<close>

unbundle bit_operations_syntax

section \<open>C strings\<close>

text \<open>The character at an offset of a C string, whose last character is the terminating null.\<close>

definition c_at :: "string \<Rightarrow> nat \<Rightarrow> char" where
  "c_at p i = (if i < length p then p ! i else CHR 0x00)"

definition c_isdigit :: "char \<Rightarrow> bool" where
  "c_isdigit c = (let n = of_char c :: nat in 48 \<le> n \<and> n \<le> 57)"

section \<open>Splitting\<close>

text \<open>\<open>find\<close> from \<open>i1\<close> on: the characters before the first separator, and those after it.\<close>

function parse_string_loop :: "string \<Rightarrow> char \<Rightarrow> string list" where
  "parse_string_loop str c =
     (let w = takeWhile (\<lambda>x. x \<noteq> c) str
      in if length w = length str then [str] else w # parse_string_loop (drop (length w + 1) str) c)"
  by pat_completeness auto
termination
proof (relation "measure (\<lambda>(str, c). length str)")
  fix str c w
  assume "w = takeWhile (\<lambda>x. x \<noteq> c) str" "length w \<noteq> length str"
  then have "length w < length str" using length_takeWhile_le [of "\<lambda>x. x \<noteq> c" str] by simp
  then show "((drop (length w + 1) str, c), (str, c)) \<in> measure (\<lambda>(str, c). length str)" by simp
qed simp

definition ParseString :: "string \<Rightarrow> char \<Rightarrow> string list" where
  "ParseString str c = (if str = [] then [] else parse_string_loop str c)"

section \<open>Amounts\<close>

abbreviation (input) COIN :: nat where "COIN \<equiv> 1000000"
abbreviation (input) CENT :: nat where "CENT \<equiv> 10000"

text \<open>\<open>%d\<close> of a non-negative number, and \<open>%06d\<close> of one below a million.\<close>

fun dec_string :: "nat \<Rightarrow> string" where
  "dec_string n = (if n < 10 then [hexdigit n] else dec_string (n div 10) @ [hexdigit (n mod 10)])"

definition dec6 :: "nat \<Rightarrow> string" where
  "dec6 n = map (\<lambda>i. hexdigit (n div 10 ^ i mod 10)) (rev [0..<6])"

text \<open>The loop over the reversed text: it drops a zero while the character two places before it is a
  digit.\<close>

fun trim_zeros :: "string \<Rightarrow> string" where
  "trim_zeros (c # d # e # r) = (if c = CHR ''0'' \<and> c_isdigit e then trim_zeros (d # e # r) else c # d # e # r)"
| "trim_zeros r = r"

text \<open>\<open>None\<close> is the negation of the least 64-bit number, which has no value.\<close>

definition FormatMoney :: "64 word \<Rightarrow> bool \<Rightarrow> string option" where
  "FormatMoney n fPlus =
     (if sint n = - (2 ^ 63) then None
      else let n_abs = nat (if sint n > 0 then sint n else - sint n);
               str = dec_string (n_abs div COIN) @ ''.'' @ dec6 (n_abs mod COIN);
               str = rev (trim_zeros (rev str))
           in Some (if sint n < 0 then CHR ''-'' # str
                    else if fPlus \<and> sint n > 0 then CHR ''+'' # str else str))"

definition digit_val :: "char \<Rightarrow> nat" where
  "digit_val c = of_char c - 48"

text \<open>The fraction: each digit counts \<open>nMult\<close>, which is divided by ten until it is zero.\<close>

fun units_loop :: "string \<Rightarrow> nat \<Rightarrow> nat \<Rightarrow> nat \<times> string" where
  "units_loop [] nMult nUnits = (nUnits, [])"
| "units_loop (c # p) nMult nUnits =
     (if c_isdigit c \<and> nMult > 0 then units_loop p (nMult div 10) (nUnits + nMult * digit_val c)
      else (nUnits, c # p))"

text \<open>The whole part: \<open>None\<close> is the early return, otherwise the digits, the units and the rest.\<close>

fun whole_loop :: "string \<Rightarrow> string \<Rightarrow> (string \<times> nat \<times> string) option" where
  "whole_loop [] strWhole = Some (strWhole, 0, [])"
| "whole_loop (c # p) strWhole =
     (if c = CHR ''.'' then (case units_loop p (CENT * 10) 0 of (nUnits, p) \<Rightarrow> Some (strWhole, nUnits, p))
      else if c_isspace c then Some (strWhole, 0, c # p)
      else if \<not> c_isdigit c then None
      else whole_loop p (strWhole @ [c]))"

text \<open>\<open>strtoll\<close> in base ten on at most ten digits, which is what \<open>ParseMoney\<close> calls it on.\<close>

definition atoi64 :: "string \<Rightarrow> nat" where
  "atoi64 s = foldl (\<lambda>n c. 10 * n + digit_val c) 0 s"

definition ParseMoney :: "string \<Rightarrow> 64 word option" where
  "ParseMoney pszIn =
     (case whole_loop (dropWhile c_isspace pszIn) [] of None \<Rightarrow> None
      | Some (strWhole, nUnits, p) \<Rightarrow>
          if \<not> list_all c_isspace p then None
          else if length strWhole > 10 then None
          else if nUnits > COIN then None
          else Some (of_nat (atoi64 strWhole) * of_nat COIN + of_nat nUnits))"

section \<open>Hexadecimal text\<close>

definition phexdigit_table :: "int list" where
  "phexdigit_table =
     replicate 48 (- 1) @ [0, 1, 2, 3, 4, 5, 6, 7, 8, 9] @ replicate 7 (- 1) @ [10, 11, 12, 13, 14, 15]
     @ replicate 26 (- 1) @ [10, 11, 12, 13, 14, 15] @ replicate 153 (- 1)"

definition IsHex :: "string \<Rightarrow> bool" where
  "IsHex str =
     (list_all (\<lambda>c. \<not> phexdigit_table ! of_char c < 0) str \<and> length str > 0 \<and> length str mod 2 = 0)"

text \<open>Reading the terminating null gives \<open>-1\<close> and ends the loop.\<close>

function ParseHex :: "string \<Rightarrow> bytes" where
  "ParseHex psz =
     (case dropWhile c_isspace psz of [] \<Rightarrow> []
      | a # psz \<Rightarrow>
          let c = phexdigit_table ! of_char a
          in if c = - 1 then []
             else case psz of [] \<Rightarrow> []
                  | b # psz \<Rightarrow>
                      let d = phexdigit_table ! of_char b
                      in if d = - 1 then []
                         else (push_bit 4 (word_of_int c) OR word_of_int d) # ParseHex psz)"
  by pat_completeness auto
termination
proof (relation "measure length")
  fix psz a p b and p' :: string
  assume "dropWhile c_isspace psz = a # p" "p = b # p'"
  then have "length (a # b # p') \<le> length psz" using length_dropWhile_le [of c_isspace psz] by simp
  then show "(p', psz) \<in> measure length" by simp
qed simp

fun hexstr_loop :: "bool \<Rightarrow> bool \<Rightarrow> bytes \<Rightarrow> string" where
  "hexstr_loop fSpaces first [] = []"
| "hexstr_loop fSpaces first (val # it) =
     (if fSpaces \<and> \<not> first then '' '' else [])
     @ [hexdigit (unat (drop_bit 4 val)), hexdigit (unat (val AND 15))] @ hexstr_loop fSpaces False it"

definition HexStr :: "bytes \<Rightarrow> bool \<Rightarrow> string" where
  "HexStr vch fSpaces = hexstr_loop fSpaces True vch"

definition EncodeDumpString :: "bytes \<Rightarrow> string" where
  "EncodeDumpString str =
     concat (map (\<lambda>c. if c \<le> 32 \<or> c \<ge> 128 \<or> c = 37 then CHR ''%'' # HexStr [c] False else [char_of (unat c)]) str)"

text \<open>Characters are signed and shifted arithmetically; the result is cut to a byte.\<close>

definition schar :: "char \<Rightarrow> int" where
  "schar c = (let n = of_char c :: int in if n < 128 then n else n - 256)"

definition dump_nibble :: "char \<Rightarrow> int" where
  "dump_nibble c = drop_bit 6 (schar c) * 9 + ((schar c - 48) AND 15)"

fun DecodeDumpString :: "string \<Rightarrow> bytes" where
  "DecodeDumpString (c # d # e # r) =
     (if c = CHR ''%'' then word_of_int (push_bit 4 (dump_nibble d) OR dump_nibble e) # DecodeDumpString r
      else of_nat (of_char c) # DecodeDumpString (d # e # r))"
| "DecodeDumpString (c # r) = of_nat (of_char c) # DecodeDumpString r"
| "DecodeDumpString [] = []"

section \<open>Base 64\<close>

definition pbase64 :: string where
  "pbase64 = ''ABCDEFGHIJKLMNOPQRSTUVWXYZabcdefghijklmnopqrstuvwxyz0123456789+/''"

text \<open>The loop over the input with the number \<open>mode\<close> of pending bit pairs and the bits left, and
  the padding after it.\<close>

fun encode64_loop :: "bytes \<Rightarrow> nat \<Rightarrow> nat \<Rightarrow> string" where
  "encode64_loop [] mode left =
     (if mode \<noteq> 0 then [pbase64 ! left] @ ''='' @ (if mode = 1 then ''='' else []) else [])"
| "encode64_loop (ch # rest) mode left =
     (let enc = unat ch
      in if mode = 0 then [pbase64 ! drop_bit 2 enc] @ encode64_loop rest 1 (push_bit 4 (enc AND 3))
         else if mode = 1 then [pbase64 ! (left OR drop_bit 4 enc)] @ encode64_loop rest 2 (push_bit 2 (enc AND 15))
         else [pbase64 ! (left OR drop_bit 6 enc), pbase64 ! (enc AND 63)] @ encode64_loop rest 0 left)"

definition EncodeBase64 :: "bytes \<Rightarrow> string" where
  "EncodeBase64 pch = encode64_loop pch 0 0"

definition decode64_table :: "int list" where
  "decode64_table =
     replicate 43 (- 1) @ [62] @ replicate 3 (- 1) @ [63] @ [52, 53, 54, 55, 56, 57, 58, 59, 60, 61]
     @ replicate 7 (- 1)
     @ [0, 1, 2, 3, 4, 5, 6, 7, 8, 9, 10, 11, 12, 13, 14, 15, 16, 17, 18, 19, 20, 21, 22, 23, 24, 25]
     @ replicate 6 (- 1)
     @ [26, 27, 28, 29, 30, 31, 32, 33, 34, 35, 36, 37, 38, 39, 40, 41, 42, 43, 44, 45, 46, 47, 48, 49, 50, 51]
     @ replicate 133 (- 1)"

text \<open>The loop returns the bytes, the mode, the bits left and the rest of the string.\<close>

fun decode64_loop :: "string \<Rightarrow> nat \<Rightarrow> nat \<Rightarrow> bytes \<times> nat \<times> nat \<times> string" where
  "decode64_loop [] mode left = ([], mode, left, [])"
| "decode64_loop (c # p) mode left =
     (let dec = decode64_table ! of_char c
      in if dec = - 1 then ([], mode, left, c # p)
         else let dec = nat dec
              in if mode = 0 then decode64_loop p 1 dec
                 else if mode = 1
                 then apfst (\<lambda>v. of_nat (push_bit 2 left OR drop_bit 4 dec) # v) (decode64_loop p 2 (dec AND 15))
                 else if mode = 2
                 then apfst (\<lambda>v. of_nat (push_bit 4 left OR drop_bit 2 dec) # v) (decode64_loop p 3 (dec AND 3))
                 else apfst (\<lambda>v. of_nat (push_bit 6 left OR dec) # v) (decode64_loop p 0 left))"

definition decode64_invalid :: "nat \<Rightarrow> nat \<Rightarrow> string \<Rightarrow> bool" where
  "decode64_invalid mode left p =
     (if mode = 0 then False
      else if mode = 1 then True
      else if mode = 2
      then left \<noteq> 0 \<or> c_at p 0 \<noteq> CHR ''='' \<or> c_at p 1 \<noteq> CHR ''='' \<or> decode64_table ! of_char (c_at p 2) \<noteq> - 1
      else left \<noteq> 0 \<or> c_at p 0 \<noteq> CHR ''='' \<or> decode64_table ! of_char (c_at p 1) \<noteq> - 1)"

text \<open>The decoded bytes and the flag \<open>*pfInvalid\<close>.\<close>

definition DecodeBase64 :: "string \<Rightarrow> bytes \<times> bool" where
  "DecodeBase64 p =
     (case decode64_loop p 0 0 of (vchRet, mode, left, p) \<Rightarrow> (vchRet, decode64_invalid mode left p))"

section \<open>Base 32\<close>

definition pbase32 :: string where
  "pbase32 = ''abcdefghijklmnopqrstuvwxyz234567''"

definition nPadding :: "nat list" where
  "nPadding = [0, 6, 4, 3, 1]"

fun encode32_loop :: "bytes \<Rightarrow> nat \<Rightarrow> nat \<Rightarrow> string" where
  "encode32_loop [] mode left =
     (if mode \<noteq> 0 then [pbase32 ! left] @ replicate (nPadding ! mode) (CHR ''='') else [])"
| "encode32_loop (ch # rest) mode left =
     (let enc = unat ch
      in if mode = 0 then [pbase32 ! drop_bit 3 enc] @ encode32_loop rest 1 (push_bit 2 (enc AND 7))
         else if mode = 1
         then [pbase32 ! (left OR drop_bit 6 enc), pbase32 ! (drop_bit 1 enc AND 31)]
              @ encode32_loop rest 2 (push_bit 4 (enc AND 1))
         else if mode = 2 then [pbase32 ! (left OR drop_bit 4 enc)] @ encode32_loop rest 3 (push_bit 1 (enc AND 15))
         else if mode = 3
         then [pbase32 ! (left OR drop_bit 7 enc), pbase32 ! (drop_bit 2 enc AND 31)]
              @ encode32_loop rest 4 (push_bit 3 (enc AND 3))
         else [pbase32 ! (left OR drop_bit 5 enc), pbase32 ! (enc AND 31)] @ encode32_loop rest 0 left)"

definition EncodeBase32 :: "bytes \<Rightarrow> string" where
  "EncodeBase32 pch = encode32_loop pch 0 0"

definition decode32_table :: "int list" where
  "decode32_table =
     replicate 50 (- 1) @ [26, 27, 28, 29, 30, 31] @ replicate 9 (- 1)
     @ [0, 1, 2, 3, 4, 5, 6, 7, 8, 9, 10, 11, 12, 13, 14, 15, 16, 17, 18, 19, 20, 21, 22, 23, 24, 25]
     @ replicate 6 (- 1)
     @ [0, 1, 2, 3, 4, 5, 6, 7, 8, 9, 10, 11, 12, 13, 14, 15, 16, 17, 18, 19, 20, 21, 22, 23, 24, 25]
     @ replicate 133 (- 1)"

fun decode32_loop :: "string \<Rightarrow> nat \<Rightarrow> nat \<Rightarrow> bytes \<times> nat \<times> nat \<times> string" where
  "decode32_loop [] mode left = ([], mode, left, [])"
| "decode32_loop (c # p) mode left =
     (let dec = decode32_table ! of_char c
      in if dec = - 1 then ([], mode, left, c # p)
         else let dec = nat dec
              in if mode = 0 then decode32_loop p 1 dec
                 else if mode = 1
                 then apfst (\<lambda>v. of_nat (push_bit 3 left OR drop_bit 2 dec) # v) (decode32_loop p 2 (dec AND 3))
                 else if mode = 2 then decode32_loop p 3 (push_bit 5 left OR dec)
                 else if mode = 3
                 then apfst (\<lambda>v. of_nat (push_bit 1 left OR drop_bit 4 dec) # v) (decode32_loop p 4 (dec AND 15))
                 else if mode = 4
                 then apfst (\<lambda>v. of_nat (push_bit 4 left OR drop_bit 1 dec) # v) (decode32_loop p 5 (dec AND 1))
                 else if mode = 5 then decode32_loop p 6 (push_bit 5 left OR dec)
                 else if mode = 6
                 then apfst (\<lambda>v. of_nat (push_bit 2 left OR drop_bit 3 dec) # v) (decode32_loop p 7 (dec AND 7))
                 else apfst (\<lambda>v. of_nat (push_bit 5 left OR dec) # v) (decode32_loop p 0 left))"

text \<open>\<open>padded\<close> is the chain of comparisons with the padding characters and the look behind them.\<close>

definition padded32 :: "nat \<Rightarrow> string \<Rightarrow> bool" where
  "padded32 n p = (list_all (\<lambda>i. c_at p i = CHR ''='') [0..<n] \<and> decode32_table ! of_char (c_at p n) = - 1)"

definition decode32_invalid :: "nat \<Rightarrow> nat \<Rightarrow> string \<Rightarrow> bool" where
  "decode32_invalid mode left p =
     (if mode = 0 then False
      else if mode = 1 \<or> mode = 3 \<or> mode = 6 then True
      else if mode = 2 then left \<noteq> 0 \<or> \<not> padded32 6 p
      else if mode = 4 then left \<noteq> 0 \<or> \<not> padded32 4 p
      else if mode = 5 then left \<noteq> 0 \<or> \<not> padded32 3 p
      else left \<noteq> 0 \<or> \<not> padded32 1 p)"

definition DecodeBase32 :: "string \<Rightarrow> bytes \<times> bool" where
  "DecodeBase32 p =
     (case decode32_loop p 0 0 of (vchRet, mode, left, p) \<Rightarrow> (vchRet, decode32_invalid mode left p))"

section \<open>Wildcards\<close>

function WildcardMatch :: "string \<Rightarrow> string \<Rightarrow> bool" where
  "WildcardMatch psz [] = (psz = [])"
| "WildcardMatch psz (m # mk) =
     (if m = CHR ''*''
      then if WildcardMatch psz mk then True else if psz = [] then False else WildcardMatch (tl psz) (m # mk)
      else if m = CHR ''?'' then if psz = [] then False else WildcardMatch (tl psz) mk
      else if psz = [] \<or> hd psz \<noteq> m then False else WildcardMatch (tl psz) mk)"
  by pat_completeness auto
termination
  by (relation "measures [\<lambda>(psz, mk). length psz + length mk]") auto

section \<open>The alphabets\<close>

lemma base64_table: "map (\<lambda>c. decode64_table ! of_char c) pbase64 = map int [0..<64]"
  by code_simp

lemma base32_table: "map (\<lambda>c. decode32_table ! of_char c) pbase32 = map int [0..<32]"
  by code_simp

lemma no_padding: "decode64_table ! of_char (CHR ''='') = - 1" "decode32_table ! of_char (CHR ''='') = - 1"
  "decode64_table ! of_char (CHR 0x00) = - 1" "decode32_table ! of_char (CHR 0x00) = - 1"
  by code_simp+

lemma decode64_char: "n < 64 \<Longrightarrow> decode64_table ! of_char (pbase64 ! n) = int n"
  using arg_cong [OF base64_table, of "\<lambda>xs. xs ! n"] arg_cong [OF base64_table, of length] by simp

lemma decode32_char: "n < 32 \<Longrightarrow> decode32_table ! of_char (pbase32 ! n) = int n"
  using arg_cong [OF base32_table, of "\<lambda>xs. xs ! n"] arg_cong [OF base32_table, of length] by simp

section \<open>Bits of bytes\<close>

lemma small_masks: "(1 :: nat) = mask 1" "(3 :: nat) = mask 2" "(7 :: nat) = mask 3" "(15 :: nat) = mask 4"
  "(31 :: nat) = mask 5" "(63 :: nat) = mask 6"
  by (simp_all add: mask_eq_exp_minus_1)

lemma or_shifted: "y < 2 ^ k \<Longrightarrow> push_bit k x OR y = x * 2 ^ k + (y :: nat)"
proof -
  assume y: "y < 2 ^ k"
  have "push_bit k x OR y = push_bit k x + y"
  proof (rule disjunctive_add [symmetric])
    fix n
    show "\<not> bit (push_bit k x) n \<or> \<not> bit y n"
      using bit_add_shifted [OF y, of 0 n] by (auto simp: bit_push_bit_iff)
  qed
  then show ?thesis by (simp add: push_bit_eq_mult)
qed

lemma and_mask_mod: "x AND mask k = x mod 2 ^ k" for x :: nat
  by (simp only: take_bit_eq_mask [symmetric] take_bit_eq_mod)

lemma and_small: "x AND 1 = x mod 2" "x AND 3 = x mod 4" "x AND 7 = x mod 8" "x AND 15 = x mod 16"
    "x AND 31 = x mod 32" "x AND 63 = x mod 64" for x :: nat
  using and_mask_mod [of x 1] and_mask_mod [of x 2] and_mask_mod [of x 3] and_mask_mod [of x 4]
    and_mask_mod [of x 5] and_mask_mod [of x 6] by (simp_all add: mask_eq_exp_minus_1)

lemma byte_less: "unat (a :: byte) < 256"
  using unat_less_power [of a] by simp

lemma sextets:
  fixes A B C :: nat
  assumes "A < 256" "B < 256" "C < 256"
  shows "push_bit 4 (A AND 3) OR drop_bit 4 B = A mod 4 * 16 + B div 16"
    "push_bit 2 (B AND 15) OR drop_bit 6 C = B mod 16 * 4 + C div 64"
    "push_bit 2 (A div 4) OR drop_bit 4 (A mod 4 * 16 + B div 16) = A"
    "push_bit 4 ((A mod 4 * 16 + B div 16) AND 15) OR drop_bit 2 (B mod 16 * 4 + C div 64) = B"
    "push_bit 6 ((B mod 16 * 4 + C div 64) AND 3) OR C mod 64 = C"
proof -
  have d: "B div 16 < 16" "C div 64 < 4" using assms by simp_all
  have e: "(A mod 4 * 16 + B div 16) div 16 = A mod 4" "(A mod 4 * 16 + B div 16) mod 16 = B div 16"
    "(B mod 16 * 4 + C div 64) div 4 = B mod 16" "(B mod 16 * 4 + C div 64) mod 4 = C div 64" using d by simp_all
  show "push_bit 4 (A AND 3) OR drop_bit 4 B = A mod 4 * 16 + B div 16"
    "push_bit 2 (B AND 15) OR drop_bit 6 C = B mod 16 * 4 + C div 64"
    using d or_shifted [of "B div 16" 4 "A mod 4"] or_shifted [of "C div 64" 2 "B mod 16"]
    by (simp_all add: and_small drop_bit_eq_div)
  show "push_bit 2 (A div 4) OR drop_bit 4 (A mod 4 * 16 + B div 16) = A"
    using or_shifted [of "A mod 4" 2 "A div 4"] e by (simp add: drop_bit_eq_div)
  show "push_bit 4 ((A mod 4 * 16 + B div 16) AND 15) OR drop_bit 2 (B mod 16 * 4 + C div 64) = B"
    using or_shifted [of "B mod 16" 4 "B div 16"] e by (simp add: drop_bit_eq_div and_small)
  show "push_bit 6 ((B mod 16 * 4 + C div 64) AND 3) OR C mod 64 = C"
    using or_shifted [of "C mod 64" 6 "C div 64"] e by (simp add: and_small)
qed

lemma sextet_bounds:
  fixes A B C :: nat
  assumes "A < 256" "B < 256" "C < 256"
  shows "A div 4 < 64" "A mod 4 * 16 + B div 16 < 64" "B mod 16 * 4 + C div 64 < 64" "C mod 64 < 64"
proof -
  have "A mod 4 < 4" "B mod 16 < 16" "B div 16 < 16" "C div 64 < 4" using assms by simp_all
  then show "A mod 4 * 16 + B div 16 < 64" "B mod 16 * 4 + C div 64 < 64" by linarith+
qed (use assms in simp_all)

fun triples :: "bytes \<Rightarrow> nat" where
  "triples (a # b # c # r) = Suc (triples r)"
| "triples r = 0"

lemma triples_induct [case_names group none one two]:
  fixes v :: bytes
  assumes "\<And>a b c r. P r \<Longrightarrow> P (a # b # c # r)" "P []" "\<And>a. P [a]" "\<And>a b. P [a, b]"
  shows "P v"
  by (induction v rule: triples.induct) (use assms in simp_all)

lemma decode64_step:
  assumes "n < 64"
  shows "decode64_loop (pbase64 ! n # p) 0 left = decode64_loop p 1 n"
    "decode64_loop (pbase64 ! n # p) 1 left
       = apfst ((#) (of_nat (push_bit 2 left OR drop_bit 4 n))) (decode64_loop p 2 (n AND 15))"
    "decode64_loop (pbase64 ! n # p) 2 left
       = apfst ((#) (of_nat (push_bit 4 left OR drop_bit 2 n))) (decode64_loop p 3 (n AND 3))"
    "decode64_loop (pbase64 ! n # p) 3 left = apfst ((#) (of_nat (push_bit 6 left OR n))) (decode64_loop p 0 left)"
  using decode64_char [OF assms] by (simp_all add: Let_def)

lemma decode64_group:
  assumes "A < 256" "B < 256" "C < 256"
  shows "decode64_loop (pbase64 ! (A div 4) # pbase64 ! (A mod 4 * 16 + B div 16) # pbase64 ! (B mod 16 * 4 + C div 64)
          # pbase64 ! (C mod 64) # p) 0 left
      = apfst (\<lambda>v. of_nat A # of_nat B # of_nat C # v) (decode64_loop p 0 ((B mod 16 * 4 + C div 64) AND 3))"
  by (simp only: decode64_step sextet_bounds [OF assms] sextets [OF assms] apfst_compose) (simp add: o_def)

lemma decode64_two:
  assumes "A < 256"
  shows "decode64_loop (pbase64 ! (A div 4) # pbase64 ! (A mod 4 * 16) # ''=='') 0 left = ([of_nat A], 2, 0, ''=='')"
proof -
  have "push_bit 2 (A div 4) OR drop_bit 4 (A mod 4 * 16) = A" "A mod 4 * 16 < 64"
    using sextets(3) [OF assms, of 0 0] sextet_bounds(2) [OF assms, of 0 0] by simp_all
  moreover have "(A mod 4 * 16) AND 15 = 0" by (simp add: and_small)
  ultimately show ?thesis using no_padding(1) sextet_bounds(1) [OF assms, of 0 0]
    by (simp only: decode64_step) (simp add: Let_def)
qed

lemma decode64_three:
  assumes "A < 256" "B < 256"
  shows "decode64_loop (pbase64 ! (A div 4) # pbase64 ! (A mod 4 * 16 + B div 16) # pbase64 ! (B mod 16 * 4) # ''='') 0 left
      = ([of_nat A, of_nat B], 3, 0, ''='')"
proof -
  have "push_bit 2 (A div 4) OR drop_bit 4 (A mod 4 * 16 + B div 16) = A" "B mod 16 * 4 < 64"
    "push_bit 4 ((A mod 4 * 16 + B div 16) AND 15) OR drop_bit 2 (B mod 16 * 4) = B"
    using sextets(3,4) [OF assms, of 0] sextet_bounds(3) [OF assms, of 0] by simp_all
  moreover have "(B mod 16 * 4) AND 3 = 0" by (simp add: and_small)
  ultimately show ?thesis using no_padding(1) sextet_bounds(1,2) [OF assms, of 0]
    by (simp only: decode64_step) (simp add: Let_def)
qed

lemma decode64_encode64:
  "(case decode64_loop (encode64_loop v 0 l) 0 l' of (w, mode, left, p) \<Rightarrow> w = v \<and> \<not> decode64_invalid mode left p)"
proof (induction v arbitrary: l l' rule: triples_induct)
  case (group a b c r)
  note A = byte_less [of a] byte_less [of b] byte_less [of c]
  have enc: "encode64_loop (a # b # c # r) 0 l
      = pbase64 ! (unat a div 4) # pbase64 ! (unat a mod 4 * 16 + unat b div 16) # pbase64 ! (unat b mod 16 * 4 + unat c div 64)
        # pbase64 ! (unat c mod 64) # encode64_loop r 0 (push_bit 2 (unat b AND 15))"
    using sextets(1,2) [OF A] by (simp add: Let_def drop_bit_eq_div and_small)
  show ?case
    using group [of "push_bit 2 (unat b AND 15)" "(unat b mod 16 * 4 + unat c div 64) AND 3"]
    unfolding enc decode64_group [OF A] by (auto split: prod.splits)
next
  case none
  then show ?case by (simp add: decode64_invalid_def)
next
  case (one a)
  have "encode64_loop [a] 0 l = pbase64 ! (unat a div 4) # pbase64 ! (unat a mod 4 * 16) # ''==''"
    by (simp add: Let_def drop_bit_eq_div and_small push_bit_eq_mult)
  then show ?case using decode64_two [OF byte_less [of a]] no_padding(3) by (simp add: decode64_invalid_def c_at_def)
next
  case (two a b)
  have "encode64_loop [a, b] 0 l
      = pbase64 ! (unat a div 4) # pbase64 ! (unat a mod 4 * 16 + unat b div 16) # pbase64 ! (unat b mod 16 * 4) # ''=''"
    using sextets(1) [OF byte_less [of a] byte_less [of b], of 0]
    by (simp add: Let_def drop_bit_eq_div and_small push_bit_eq_mult)
  then show ?case using decode64_three [OF byte_less [of a] byte_less [of b]] no_padding(3)
    by (simp add: decode64_invalid_def c_at_def)
qed

lemma DecodeBase64_EncodeBase64: "DecodeBase64 (EncodeBase64 v) = (v, False)"
  using decode64_encode64 [of v 0 0] by (simp add: DecodeBase64_def EncodeBase64_def split: prod.splits)


section \<open>Base 32\<close>

lemma decode32_step:
  assumes "n < 32"
  shows "decode32_loop (pbase32 ! n # p) 0 left = decode32_loop p 1 n"
    "decode32_loop (pbase32 ! n # p) 1 left
       = apfst ((#) (of_nat (push_bit 3 left OR drop_bit 2 n))) (decode32_loop p 2 (n AND 3))"
    "decode32_loop (pbase32 ! n # p) 2 left = decode32_loop p 3 (push_bit 5 left OR n)"
    "decode32_loop (pbase32 ! n # p) 3 left
       = apfst ((#) (of_nat (push_bit 1 left OR drop_bit 4 n))) (decode32_loop p 4 (n AND 15))"
    "decode32_loop (pbase32 ! n # p) 4 left
       = apfst ((#) (of_nat (push_bit 4 left OR drop_bit 1 n))) (decode32_loop p 5 (n AND 1))"
    "decode32_loop (pbase32 ! n # p) 5 left = decode32_loop p 6 (push_bit 5 left OR n)"
    "decode32_loop (pbase32 ! n # p) 6 left
       = apfst ((#) (of_nat (push_bit 2 left OR drop_bit 3 n))) (decode32_loop p 7 (n AND 7))"
    "decode32_loop (pbase32 ! n # p) 7 left = apfst ((#) (of_nat (push_bit 5 left OR n))) (decode32_loop p 0 left)"
  using decode32_char [OF assms] by (simp_all add: Let_def)

text \<open>Two numbers packed in one digit, and unpacked.\<close>

lemma packed:
  fixes x y :: nat
  assumes "y < 2 ^ k"
  shows "drop_bit k (x * 2 ^ k + y) = x" "(x * 2 ^ k + y) mod 2 ^ k = y"
  using assms by (simp_all add: drop_bit_eq_div)

lemma decode32_1:
  assumes "A < 256" "B < 256"
  shows "decode32_loop (pbase32 ! (A div 8) # pbase32 ! (A mod 8 * 4 + B div 64) # p) 0 left
      = apfst ((#) (of_nat A)) (decode32_loop p 2 (B div 64))"
proof -
  have "A div 8 < 32" "A mod 8 * 4 + B div 64 < 32" using assms mod_less_divisor [of 8 A] div_less_dividend [of 64 B]
    less_mult_imp_div_less [of B 4 64] by linarith+
  moreover have "B div 64 < 2 ^ 2" using assms by simp
  moreover have "push_bit 3 (A div 8) OR A mod 8 = A" using or_shifted [of "A mod 8" 3 "A div 8"] by simp
  ultimately show ?thesis using packed [of "B div 64" 2 "A mod 8"] by (simp only: decode32_step) (simp add: and_small)
qed

lemma decode32_2:
  assumes "B < 256" "C < 256"
  shows "decode32_loop (pbase32 ! (B div 2 mod 32) # pbase32 ! (B mod 2 * 16 + C div 16) # p) 2 (B div 64)
      = apfst ((#) (of_nat B)) (decode32_loop p 4 (C div 16))"
proof -
  have "B mod 2 * 16 + C div 16 < 32" using assms mod_less_divisor [of 2 B] less_mult_imp_div_less [of C 16 16] by linarith
  moreover have "B div 2 mod 32 < 32" by simp
  moreover have "C div 16 < 2 ^ 4" using assms by simp
  moreover have "push_bit 5 (B div 64) OR B div 2 mod 32 = B div 2"
    using or_shifted [of "B div 2 mod 32" 5 "B div 2 div 32"] div_mult_mod_eq [of "B div 2" 32]
    by (simp add: div_mult2_eq [symmetric])
  moreover have "push_bit 1 (B div 2) OR B mod 2 = B" using or_shifted [of "B mod 2" 1 "B div 2"] by simp
  ultimately show ?thesis using packed [of "C div 16" 4 "B mod 2"] by (simp only: decode32_step) (simp add: and_small)
qed

lemma decode32_3:
  assumes "C < 256" "D < 256"
  shows "decode32_loop (pbase32 ! (C mod 16 * 2 + D div 128) # p) 4 (C div 16)
      = apfst ((#) (of_nat C)) (decode32_loop p 5 (D div 128))"
proof -
  have "C mod 16 * 2 + D div 128 < 32" using assms mod_less_divisor [of 16 C] less_mult_imp_div_less [of D 2 128] by linarith
  moreover have "D div 128 < 2 ^ 1" using assms by simp
  moreover have "push_bit 4 (C div 16) OR C mod 16 = C" using or_shifted [of "C mod 16" 4 "C div 16"] by simp
  ultimately show ?thesis using packed [of "D div 128" 1 "C mod 16"] by (simp only: decode32_step) (simp add: and_small)
qed

lemma decode32_4:
  assumes "D < 256" "E < 256"
  shows "decode32_loop (pbase32 ! (D div 4 mod 32) # pbase32 ! (D mod 4 * 8 + E div 32) # p) 5 (D div 128)
      = apfst ((#) (of_nat D)) (decode32_loop p 7 (E div 32))"
proof -
  have "D mod 4 * 8 + E div 32 < 32" using assms mod_less_divisor [of 4 D] less_mult_imp_div_less [of E 8 32] by linarith
  moreover have "D div 4 mod 32 < 32" by simp
  moreover have "E div 32 < 2 ^ 3" using assms by simp
  moreover have "push_bit 5 (D div 128) OR D div 4 mod 32 = D div 4"
    using or_shifted [of "D div 4 mod 32" 5 "D div 4 div 32"] div_mult_mod_eq [of "D div 4" 32]
    by (simp add: div_mult2_eq [symmetric])
  moreover have "push_bit 2 (D div 4) OR D mod 4 = D" using or_shifted [of "D mod 4" 2 "D div 4"] by simp
  ultimately show ?thesis using packed [of "E div 32" 3 "D mod 4"] by (simp only: decode32_step) (simp add: and_small)
qed

lemma decode32_5:
  "decode32_loop (pbase32 ! (E mod 32) # p) 7 (E div 32) = apfst ((#) (of_nat E)) (decode32_loop p 0 (E div 32))"
proof -
  have "push_bit 5 (E div 32) OR E mod 32 = E" using or_shifted [of "E mod 32" 5 "E div 32"] by simp
  moreover have "E mod 32 < 32" by simp
  ultimately show ?thesis by (simp only: decode32_step)
qed

lemmas decode32_pieces = decode32_1 decode32_2 decode32_3 decode32_4 decode32_5

fun fives :: "bytes \<Rightarrow> nat" where
  "fives (a # b # c # d # e # r) = Suc (fives r)"
| "fives r = 0"

lemma fives_induct [case_names group none one two three four]:
  fixes v :: bytes
  assumes "\<And>a b c d e r. P r \<Longrightarrow> P (a # b # c # d # e # r)" "P []" "\<And>a. P [a]" "\<And>a b. P [a, b]"
    "\<And>a b c. P [a, b, c]" "\<And>a b c d. P [a, b, c, d]"
  shows "P v"
  by (induction v rule: fives.induct) (use assms in simp_all)

lemma encode32_left:
  fixes A B :: nat
  assumes "B < 256"
  shows "push_bit 2 (A AND 7) OR drop_bit 6 B = A mod 8 * 4 + B div 64"
    "push_bit 4 (A AND 1) OR drop_bit 4 B = A mod 2 * 16 + B div 16"
    "push_bit 1 (A AND 15) OR drop_bit 7 B = A mod 16 * 2 + B div 128"
    "push_bit 3 (A AND 3) OR drop_bit 5 B = A mod 4 * 8 + B div 32"
  using assms or_shifted [of "B div 64" 2 "A mod 8"] or_shifted [of "B div 16" 4 "A mod 2"]
    or_shifted [of "B div 128" 1 "A mod 16"] or_shifted [of "B div 32" 3 "A mod 4"]
  by (simp_all add: drop_bit_eq_div and_small)

lemma encode32_step:
  "encode32_loop (a # r) 0 l = pbase32 ! (unat a div 8) # encode32_loop r 1 (push_bit 2 (unat a AND 7))"
  "encode32_loop (b # r) 1 l
     = pbase32 ! (l OR drop_bit 6 (unat b)) # pbase32 ! (unat b div 2 mod 32) # encode32_loop r 2 (push_bit 4 (unat b AND 1))"
  "encode32_loop (c # r) 2 l = pbase32 ! (l OR drop_bit 4 (unat c)) # encode32_loop r 3 (push_bit 1 (unat c AND 15))"
  "encode32_loop (d # r) 3 l
     = pbase32 ! (l OR drop_bit 7 (unat d)) # pbase32 ! (unat d div 4 mod 32) # encode32_loop r 4 (push_bit 3 (unat d AND 3))"
  "encode32_loop (e # r) 4 l = pbase32 ! (l OR drop_bit 5 (unat e)) # pbase32 ! (unat e mod 32) # encode32_loop r 0 l"
  by (simp_all add: Let_def drop_bit_eq_div and_small)

lemma encode32_end:
  "encode32_loop [] 0 l = []"
  "encode32_loop [] 1 l = pbase32 ! l # ''======''"
  "encode32_loop [] 2 l = pbase32 ! l # ''====''"
  "encode32_loop [] 3 l = pbase32 ! l # ''===''"
  "encode32_loop [] 4 l = pbase32 ! l # ''=''"
  by (simp_all add: nPadding_def numeral_eq_Suc)

lemma decode32_pad: "decode32_loop (CHR ''='' # p) mode left = ([], mode, left, CHR ''='' # p)"
  using no_padding(2) by simp

lemma decode32_ok:
  "\<not> decode32_invalid 0 left p" "\<not> decode32_invalid 2 0 ''======''" "\<not> decode32_invalid 4 0 ''====''"
  "\<not> decode32_invalid 5 0 ''===''" "\<not> decode32_invalid 7 0 ''=''"
  using no_padding(4) by (simp_all add: decode32_invalid_def padded32_def c_at_def upt_conv_Cons)

lemma left_last: "push_bit k (x :: nat) = x * 2 ^ k + 0 div m"
  by (simp add: push_bit_eq_mult)

lemma decode32_encode32:
  "(case decode32_loop (encode32_loop v 0 l) 0 l' of (w, mode, left, p) \<Rightarrow> w = v \<and> \<not> decode32_invalid mode left p)"
proof (induction v arbitrary: l l' rule: fives_induct)
  case (group a b c d e r)
  note A = byte_less [of a] byte_less [of b] byte_less [of c] byte_less [of d] byte_less [of e]
  have "decode32_loop (encode32_loop (a # b # c # d # e # r) 0 l) 0 l'
      = apfst ((#) a) (apfst ((#) b) (apfst ((#) c) (apfst ((#) d) (apfst ((#) e)
          (decode32_loop (encode32_loop r 0 (push_bit 3 (unat d AND 3))) 0 (unat e div 32))))))"
    by (simp only: encode32_step encode32_left [OF A(2)] encode32_left [OF A(3)] encode32_left [OF A(4)]
        encode32_left [OF A(5)] decode32_1 [OF A(1,2)] decode32_2 [OF A(2,3)] decode32_3 [OF A(3,4)] decode32_4 [OF A(4,5)]
        decode32_5) simp
  then show ?case using group [of "push_bit 3 (unat d AND 3)" "unat e div 32"]
    by (cases "decode32_loop (encode32_loop r 0 (push_bit 3 (unat d AND 3))) 0 (unat e div 32)")
      (simp del: decode32_loop.simps encode32_loop.simps)
next
  case none
  then show ?case by (simp add: decode32_ok)
next
  case (one a)
  have "push_bit 2 (unat a AND 7) = unat a mod 8 * 4 + 0 div 64" by (simp add: push_bit_eq_mult and_small)
  then show ?case by (simp only: encode32_step encode32_end decode32_1 [OF byte_less zero_less_numeral] decode32_pad)
      (simp add: decode32_ok)
next
  case (two a b)
  note A = byte_less [of a] byte_less [of b]
  have "push_bit 4 (unat b AND 1) = unat b mod 2 * 16 + 0 div 16" by (simp add: push_bit_eq_mult and_small)
  then show ?case by (simp only: encode32_step encode32_left [OF A(2)] encode32_end decode32_1 [OF A(1,2)]
        decode32_2 [OF A(2) zero_less_numeral] decode32_pad) (simp add: decode32_ok)
next
  case (three a b c)
  note A = byte_less [of a] byte_less [of b] byte_less [of c]
  have "push_bit 1 (unat c AND 15) = unat c mod 16 * 2 + 0 div 128" by (simp add: push_bit_eq_mult and_small)
  then show ?case by (simp only: encode32_step encode32_left [OF A(2)] encode32_left [OF A(3)] encode32_end
        decode32_1 [OF A(1,2)] decode32_2 [OF A(2,3)] decode32_3 [OF A(3) zero_less_numeral] decode32_pad) (simp add: decode32_ok)
next
  case (four a b c d)
  note A = byte_less [of a] byte_less [of b] byte_less [of c] byte_less [of d]
  have "push_bit 3 (unat d AND 3) = unat d mod 4 * 8 + 0 div 32" by (simp add: push_bit_eq_mult and_small)
  then show ?case by (simp only: encode32_step encode32_left [OF A(2)] encode32_left [OF A(3)] encode32_left [OF A(4)] encode32_end
        decode32_1 [OF A(1,2)] decode32_2 [OF A(2,3)] decode32_3 [OF A(3,4)] decode32_4 [OF A(4) zero_less_numeral] decode32_pad)
      (simp add: decode32_ok)
qed

lemma DecodeBase32_EncodeBase32: "DecodeBase32 (EncodeBase32 v) = (v, False)"
  using decode32_encode32 [of v 0 0] by (simp add: DecodeBase32_def EncodeBase32_def split: prod.splits)


section \<open>Hexadecimal text\<close>

declare ParseHex.simps [simp del]

lemma hex_tables:
  "map (\<lambda>n. phexdigit_table ! of_char (hexdigit n)) [0..<16] = map int [0..<16]"
  "map (\<lambda>n. dump_nibble (hexdigit n)) [0..<16] = map int [0..<16]"
  "list_all (\<lambda>n. \<not> c_isspace (hexdigit n)) [0..<16]"
  "list_all (\<lambda>n. c_isdigit (hexdigit n) \<and> digit_val (hexdigit n) = n \<and> hexdigit n \<noteq> CHR ''.''
     \<and> (hexdigit n = CHR ''0'' \<longleftrightarrow> n = 0)) [0..<10]"
  by code_simp+

lemma map_nth_cong: "map f [0..<k] = map g [0..<k] \<Longrightarrow> n < k \<Longrightarrow> f n = g n"
  by (drule arg_cong [of _ _ "\<lambda>xs. xs ! n"]) simp

lemma hexdigit_text:
  assumes "n < 16"
  shows "phexdigit_table ! of_char (hexdigit n) = int n" "dump_nibble (hexdigit n) = int n" "\<not> c_isspace (hexdigit n)"
  using map_nth_cong [OF hex_tables(1) assms] map_nth_cong [OF hex_tables(2) assms] hex_tables(3) assms
  by (simp_all add: list_all_iff)

lemma decdigit_facts:
  assumes "n < 10"
  shows "c_isdigit (hexdigit n)" "digit_val (hexdigit n) = n" "hexdigit n \<noteq> CHR ''.''"
    "hexdigit n = CHR ''0'' \<longleftrightarrow> n = 0"
  using hex_tables(4) assms by (auto simp: list_all_iff)

lemma hex_nibbles: "push_bit 4 (drop_bit 4 a) OR (a AND 15) = a" "unat (drop_bit 4 a) < 16" "unat (a AND 15) < 16"
  for a :: byte
proof -
  have m: "(15 :: byte) = mask 4" by (simp add: mask_eq_exp_minus_1)
  show "push_bit 4 (drop_bit 4 a) OR (a AND 15) = a"
    unfolding m by (rule bit_eqI) (auto simp: bit_simps not_le)
  show "unat (a AND 15) < 16" unfolding m unat_and_mask by simp
  have "unat (drop_bit 4 a) = unat a div 16" by (subst unsigned_drop_bit_eq) (use byte_less [of a] in \<open>simp add: drop_bit_eq_div take_bit_eq_mod\<close>)
  then show "unat (drop_bit 4 a) < 16" using byte_less [of a] by simp
qed

lemma ParseHex_pair:
  assumes "i < 16" "j < 16"
  shows "ParseHex (hexdigit i # hexdigit j # p) = (push_bit 4 (of_nat i) OR of_nat j) # ParseHex p"
  using hexdigit_text [OF assms(1)] hexdigit_text [OF assms(2)]
  by (subst ParseHex.simps) (simp add: Let_def)

lemma ParseHex_space: "ParseHex (CHR '' '' # p) = ParseHex p"
  by (subst (1 2) ParseHex.simps) (simp add: c_isspace_def)

lemma ParseHex_HexStr_loop: "ParseHex (hexstr_loop fSpaces first v) = v"
proof (induction v arbitrary: first)
  case Nil
  then show ?case by (subst ParseHex.simps) simp
next
  case (Cons a v)
  then show ?case using hex_nibbles [of a] by (cases fSpaces) (simp_all add: ParseHex_space ParseHex_pair)
qed

lemma IsHex_HexStr: "IsHex (HexStr v False) \<longleftrightarrow> v \<noteq> []"
proof -
  have "list_all (\<lambda>c. \<not> phexdigit_table ! of_char c < 0) (hexstr_loop False b v) \<and> length (hexstr_loop False b v) = 2 * length v" for b
    using hex_nibbles(2,3) by (induction v arbitrary: b) (simp_all add: hexdigit_text)
  then show ?thesis by (auto simp: IsHex_def HexStr_def)
qed

lemma DecodeDumpString_plain: "c \<noteq> CHR ''%'' \<Longrightarrow> DecodeDumpString (c # r) = of_nat (of_char c) # DecodeDumpString r"
  by (cases r rule: remdups_adj.cases) auto

lemma DecodeDumpString_hex:
  assumes "i < 16" "j < 16"
  shows "DecodeDumpString (CHR ''%'' # hexdigit i # hexdigit j # r) = (push_bit 4 (of_nat i) OR of_nat j) # DecodeDumpString r"
proof -
  have "(word_of_int (push_bit 4 (int i) OR int j) :: byte) = push_bit 4 (of_nat i) OR of_nat j"
    by (simp only: of_int_or_eq of_int_push_bit of_int_of_nat_eq)
  then show ?thesis using hexdigit_text [OF assms(1)] hexdigit_text [OF assms(2)] by simp
qed

lemma DecodeDumpString_EncodeDumpString: "DecodeDumpString (EncodeDumpString v) = v"
proof (induction v)
  case (Cons a v)
  show ?case
  proof (cases "a \<le> 32 \<or> a \<ge> 128 \<or> a = 37")
    case True
    then have "EncodeDumpString (a # v)
        = CHR ''%'' # hexdigit (unat (drop_bit 4 a)) # hexdigit (unat (a AND 15)) # EncodeDumpString v"
      by (simp add: EncodeDumpString_def HexStr_def)
    then show ?thesis using hex_nibbles [of a] Cons by (simp only: DecodeDumpString_hex) simp
  next
    case False
    have "char_of (unat a) \<noteq> CHR ''%''"
    proof
      assume "char_of (unat a) = CHR ''%''"
      then have "of_char (char_of (unat a)) = (of_char (CHR ''%'') :: nat)" by simp
      then have "unat a = 37" using byte_less [of a] by simp
      then have "a = of_nat 37" by (rule of_nat_of_unat)
      then show False using False by simp
    qed
    moreover have "of_nat (of_char (char_of (unat a))) = a" using byte_less [of a] by simp
    ultimately show ?thesis using False Cons by (simp add: EncodeDumpString_def DecodeDumpString_plain)
  qed
qed (simp add: EncodeDumpString_def)


section \<open>Amounts\<close>

declare dec_string.simps [simp del]

lemma dec_string_digits: "\<exists>ds. dec_string n = map hexdigit ds \<and> list_all (\<lambda>d. d < 10) ds \<and> ds \<noteq> [] \<and> foldl (\<lambda>n d. 10 * n + d) 0 ds = n"
proof (induction n rule: dec_string.induct)
  case (1 n)
  show ?case
  proof (cases "n < 10")
    case True
    then show ?thesis by (intro exI [of _ "[n]"]) (simp add: dec_string.simps)
  next
    case False
    then obtain ds where "dec_string (n div 10) = map hexdigit ds" "list_all (\<lambda>d. d < 10) ds"
      "foldl (\<lambda>n d. 10 * n + d) 0 ds = n div 10" using 1 by blast
    then show ?thesis using False by (intro exI [of _ "ds @ [n mod 10]"]) (simp add: dec_string.simps [of n])
  qed
qed

lemma length_dec_string: "n < 10 ^ k \<Longrightarrow> 0 < k \<Longrightarrow> length (dec_string n) \<le> k"
proof (induction k arbitrary: n)
  case (Suc k)
  show ?case
  proof (cases "n < 10")
    case True
    then show ?thesis by (simp add: dec_string.simps)
  next
    case False
    then have "0 < k" using Suc.prems by (cases k) simp_all
    moreover have "n div 10 < 10 ^ k" using Suc.prems(1) by (simp add: less_mult_imp_div_less mult.commute)
    ultimately show ?thesis using Suc.IH False by (simp add: dec_string.simps [of n])
  qed
qed simp

lemma atoi64_digits: "list_all (\<lambda>d. d < 10) ds \<Longrightarrow> atoi64 (map hexdigit ds) = foldl (\<lambda>n d. 10 * n + d) 0 ds"
proof -
  assume "list_all (\<lambda>d. d < 10) ds"
  then have "foldl (\<lambda>n c. 10 * n + digit_val c) m (map hexdigit ds) = foldl (\<lambda>n d. 10 * n + d) m ds" for m
    by (induction ds arbitrary: m) (simp_all add: decdigit_facts)
  then show ?thesis by (simp add: atoi64_def)
qed

lemma whole_loop_digits:
  "list_all (\<lambda>d. d < 10) ds \<Longrightarrow> whole_loop (map hexdigit ds @ CHR ''.'' # p) w
     = (case units_loop p (CENT * 10) 0 of (nUnits, p) \<Rightarrow> Some (w @ map hexdigit ds, nUnits, p))"
proof (induction ds arbitrary: w)
  case (Cons d ds)
  have "\<not> c_isspace (hexdigit d)" using hexdigit_text(3) [of d] Cons.prems by simp
  then show ?case using Cons decdigit_facts [of d] by simp
qed simp

lemma trim_zeros_stop: "\<not> c_isdigit e \<Longrightarrow> trim_zeros (c # d # e # r) = c # d # e # r"
  by simp

lemma dec6_digits:
  "r < COIN \<Longrightarrow> \<exists>a b c d e f. list_all (\<lambda>x. x < 10) [a, b, c, d, e, f] \<and> dec6 r = map hexdigit [a, b, c, d, e, f]
     \<and> r = a * 100000 + b * 10000 + c * 1000 + d * 100 + e * 10 + f"
proof -
  assume r: "r < COIN"
  have "r = 100000 * (r div 100000 mod 10) + r mod 100000" using r mod_mult2_eq [of r 100000 10] by simp
  moreover have "r mod 100000 = 10000 * (r div 10000 mod 10) + r mod 10000" using mod_mult2_eq [of r 10000 10] by simp
  moreover have "r mod 10000 = 1000 * (r div 1000 mod 10) + r mod 1000" using mod_mult2_eq [of r 1000 10] by simp
  moreover have "r mod 1000 = 100 * (r div 100 mod 10) + r mod 100" using mod_mult2_eq [of r 100 10] by simp
  moreover have "r mod 100 = 10 * (r div 10 mod 10) + r mod 10" using mod_mult2_eq [of r 10 10] by simp
  ultimately have sum: "r = r div 100000 mod 10 * 100000 + r div 10000 mod 10 * 10000 + r div 1000 mod 10 * 1000
      + r div 100 mod 10 * 100 + r div 10 mod 10 * 10 + r mod 10" by linarith
  have dec: "dec6 r = map hexdigit [r div 100000 mod 10, r div 10000 mod 10, r div 1000 mod 10, r div 100 mod 10,
      r div 10 mod 10, r mod 10]" by (simp add: dec6_def upt_conv_Cons)
  have small: "list_all (\<lambda>x. x < 10) [r div 100000 mod 10, r div 10000 mod 10, r div 1000 mod 10, r div 100 mod 10,
      r div 10 mod 10, r mod 10]" by simp
  show ?thesis by (intro exI conjI, rule small, rule dec, rule sum)
qed

lemma units_step:
  assumes "d < 10"
  shows "units_loop (hexdigit d # p) m u = (if 0 < m then units_loop p (m div 10) (u + m * d) else (u, hexdigit d # p))"
  using decdigit_facts [OF assms] by simp

lemma trim_step:
  assumes "c < 10" "e < 10"
  shows "trim_zeros (hexdigit c # d # hexdigit e # r) = (if c = 0 then trim_zeros (d # hexdigit e # r) else hexdigit c # d # hexdigit e # r)"
  using decdigit_facts [OF assms(1)] decdigit_facts [OF assms(2)] by simp

lemma trimmed_units:
  assumes "list_all (\<lambda>x. x < 10) [a, b, c, d, e, f]"
  shows "\<exists>fr. trim_zeros (rev (map hexdigit [a, b, c, d, e, f]) @ CHR ''.'' # w) = rev fr @ CHR ''.'' # w
     \<and> units_loop fr 100000 0 = (a * 100000 + b * 10000 + c * 1000 + d * 100 + e * 10 + f, [])"
proof -
  have x: "a < 10" "b < 10" "c < 10" "d < 10" "e < 10" "f < 10" using assms by simp_all
  have dot: "\<not> c_isdigit (CHR ''.'')" by code_simp
  consider "f \<noteq> 0" | "f = 0" "e \<noteq> 0" | "f = 0" "e = 0" "d \<noteq> 0" | "f = 0" "e = 0" "d = 0" "c \<noteq> 0"
    | "f = 0" "e = 0" "d = 0" "c = 0" by blast
  then show ?thesis
  proof cases
    case 1
    then show ?thesis using x by (intro exI [of _ "map hexdigit [a, b, c, d, e, f]"])
      (simp add: trim_step units_step del: trim_zeros.simps units_loop.simps(2))
  next
    case 2
    then show ?thesis using x by (intro exI [of _ "map hexdigit [a, b, c, d, e]"])
      (simp add: trim_step units_step del: trim_zeros.simps units_loop.simps(2))
  next
    case 3
    then show ?thesis using x by (intro exI [of _ "map hexdigit [a, b, c, d]"])
      (simp add: trim_step units_step del: trim_zeros.simps units_loop.simps(2))
  next
    case 4
    then show ?thesis using x by (intro exI [of _ "map hexdigit [a, b, c]"])
      (simp add: trim_step units_step del: trim_zeros.simps units_loop.simps(2))
  next
    case 5
    then show ?thesis using x by (intro exI [of _ "map hexdigit [a, b]"])
      (simp add: trim_step units_step trim_zeros_stop [OF dot] del: trim_zeros.simps units_loop.simps(2))
  qed
qed

lemma ParseMoney_digits:
  assumes ds: "list_all (\<lambda>d. d < 10) ds" "ds \<noteq> []" "length ds \<le> 10"
    and fr: "units_loop fr 100000 0 = (u, [])" "u \<le> COIN"
  shows "ParseMoney (map hexdigit ds @ CHR ''.'' # fr)
      = Some (of_nat (foldl (\<lambda>n d. 10 * n + d) 0 ds * COIN + u))"
proof -
  obtain d0 ds' where d0: "ds = d0 # ds'" using ds(2) by (cases ds) auto
  have "dropWhile c_isspace (map hexdigit ds @ CHR ''.'' # fr) = map hexdigit ds @ CHR ''.'' # fr"
    using hexdigit_text(3) [of d0] ds(1) by (simp add: d0)
  then show ?thesis using ds(3) fr by (simp add: ParseMoney_def whole_loop_digits [OF ds(1)] atoi64_digits [OF ds(1)])
qed

lemma FormatMoney_digits:
  "\<exists>ds fr. rev (trim_zeros (rev (dec_string (m div COIN) @ ''.'' @ dec6 (m mod COIN)))) = map hexdigit ds @ CHR ''.'' # fr
     \<and> map hexdigit ds = dec_string (m div COIN) \<and> list_all (\<lambda>d. d < 10) ds \<and> ds \<noteq> []
     \<and> foldl (\<lambda>n d. 10 * n + d) 0 ds = m div COIN \<and> units_loop fr 100000 0 = (m mod COIN, [])"
proof -
  obtain ds where ds: "dec_string (m div COIN) = map hexdigit ds" "list_all (\<lambda>d. d < 10) ds" "ds \<noteq> []"
    "foldl (\<lambda>n d. 10 * n + d) 0 ds = m div COIN" using dec_string_digits by blast
  have "m mod COIN < COIN" by simp
  then obtain a b c d e f where x: "list_all (\<lambda>x. x < 10) [a, b, c, d, e, f]" "dec6 (m mod COIN) = map hexdigit [a, b, c, d, e, f]"
     "m mod COIN = a * 100000 + b * 10000 + c * 1000 + d * 100 + e * 10 + f" using dec6_digits by blast
  obtain fr where fr: "trim_zeros (rev (map hexdigit [a, b, c, d, e, f]) @ CHR ''.'' # rev (map hexdigit ds))
      = rev fr @ CHR ''.'' # rev (map hexdigit ds)" "units_loop fr 100000 0 = (m mod COIN, [])"
    using trimmed_units [OF x(1), of "rev (map hexdigit ds)"] unfolding x(3) by blast
  have "rev (dec_string (m div COIN) @ ''.'' @ dec6 (m mod COIN))
      = rev (map hexdigit [a, b, c, d, e, f]) @ CHR ''.'' # rev (map hexdigit ds)" unfolding ds(1) x(2) by simp
  then have "rev (trim_zeros (rev (dec_string (m div COIN) @ ''.'' @ dec6 (m mod COIN)))) = map hexdigit ds @ CHR ''.'' # fr"
    unfolding fr(1) [symmetric] by (simp only: fr(1)) simp
  then show ?thesis using ds fr(2) by (intro exI [of _ ds] exI [of _ fr]) simp
qed

lemma ParseMoney_FormatMoney:
  assumes "0 \<le> sint n" "sint n < 10 ^ 16"
  shows "\<exists>str. FormatMoney n False = Some str \<and> ParseMoney str = Some n"
proof -
  define m where "m = unat n"
  have s: "sint n = int m" using unat_nonnegative [OF assms(1)] by (simp only: m_def)
  have m: "m < 10 ^ 16" using assms(2) unfolding s by simp
  have q: "m div COIN < 10 ^ 10" using m by simp
  obtain ds fr where d: "rev (trim_zeros (rev (dec_string (m div COIN) @ ''.'' @ dec6 (m mod COIN)))) = map hexdigit ds @ CHR ''.'' # fr"
     "map hexdigit ds = dec_string (m div COIN)" "list_all (\<lambda>d. d < 10) ds" "ds \<noteq> []"
     "foldl (\<lambda>n d. 10 * n + d) 0 ds = m div COIN" "units_loop fr 100000 0 = (m mod COIN, [])"
    using FormatMoney_digits by blast
  have abs: "nat (if int m > 0 then int m else - int m) = m" by simp
  have "FormatMoney n False = Some (map hexdigit ds @ CHR ''.'' # fr)"
    unfolding FormatMoney_def s Let_def abs d(1) by simp
  moreover have "length ds \<le> 10" using length_dec_string [OF q] arg_cong [OF d(2), of length] by simp
  moreover have "m mod COIN \<le> COIN" using mod_less_divisor [of COIN m] by linarith
  ultimately show ?thesis using ParseMoney_digits [OF d(3,4) _ d(6)] unfolding d(5) by (simp add: m_def)
qed


lemma digit_val_less: "c_isdigit c \<Longrightarrow> digit_val c < 10"
  by (auto simp: c_isdigit_def digit_val_def Let_def)

lemma units_loop_bound: "units_loop p m u = (u', p') \<Longrightarrow> (m = 0 \<longrightarrow> u' = u) \<and> (0 < m \<longrightarrow> u' < u + 10 * m)"
proof (induction p arbitrary: m u)
  case (Cons c p)
  show ?case
  proof (cases "c_isdigit c \<and> 0 < m")
    case True
    define k where "k = m * digit_val c"
    have k: "k \<le> m * 9" unfolding k_def using digit_val_less [of c] True by (intro mult_le_mono2) simp
    have "units_loop p (m div 10) (u + k) = (u', p')" using Cons.prems True by (simp add: k_def)
    from Cons.IH [OF this] have IH: "m div 10 = 0 \<longrightarrow> u' = u + k" "0 < m div 10 \<longrightarrow> u' < u + k + 10 * (m div 10)" by simp_all
    have "10 * (m div 10) \<le> m" by simp
    then show ?thesis using IH k True by (cases "m div 10 = 0") auto
  next
    case False
    then show ?thesis using Cons.prems by auto
  qed
qed auto

lemma whole_loop_spec:
  "whole_loop p w = Some (w', u, r) \<Longrightarrow> list_all c_isdigit w \<Longrightarrow> list_all c_isdigit w' \<and> u < COIN"
proof (induction p arbitrary: w)
  case (Cons c p)
  then show ?case using units_loop_bound [of p 100000 0 u r]
    by (cases "c = CHR ''.''"; cases "c_isspace c"; cases "c_isdigit c") (auto split: prod.splits)
qed simp

lemma atoi64_bound: "list_all c_isdigit w \<Longrightarrow> atoi64 w < 10 ^ length w"
proof (induction w rule: rev_induct)
  case (snoc c w)
  then show ?case using digit_val_less [of c] by (simp add: atoi64_def)
qed (simp add: atoi64_def)

lemma ParseMoney_bounds:
  assumes "ParseMoney s = Some v"
  shows "0 \<le> sint v \<and> sint v < 10 ^ 16"
proof -
  obtain w u p where p: "whole_loop (dropWhile c_isspace s) [] = Some (w, u, p)" "length w \<le> 10"
    "v = of_nat (atoi64 w) * of_nat COIN + of_nat u"
    using assms by (auto simp: ParseMoney_def split: option.splits if_splits)
  have "list_all c_isdigit w" "u < COIN" using whole_loop_spec [OF p(1)] by simp_all
  then have "atoi64 w < 10 ^ length w" by (intro atoi64_bound)
  also have "(10 :: nat) ^ length w \<le> 10 ^ 10" using p(2) by (intro power_increasing) simp_all
  finally have b: "atoi64 w * COIN + u < 10 ^ 16" using \<open>u < COIN\<close> by simp
  have v: "v = of_nat (atoi64 w * COIN + u)" by (simp add: p(3))
  have "unat v = atoi64 w * COIN + u" using b unfolding v unat_of_nat by simp
  then have "unat v < 10 ^ 16" using b by simp
  then show ?thesis using sint_unat [of v] by (simp split: if_splits del: of_nat_unat)
qed

section \<open>Wildcards\<close>

text \<open>The strings a mask stands for.\<close>

fun wild :: "string \<Rightarrow> string \<Rightarrow> bool" where
  "wild [] psz \<longleftrightarrow> psz = []"
| "wild (m # mk) psz \<longleftrightarrow>
     (if m = CHR ''*'' then \<exists>u v. psz = u @ v \<and> wild mk v
      else \<exists>c v. psz = c # v \<and> (m = CHR ''?'' \<or> c = m) \<and> wild mk v)"

lemma wild_star: "wild (CHR ''*'' # mk) psz \<longleftrightarrow> wild mk psz \<or> psz \<noteq> [] \<and> wild (CHR ''*'' # mk) (tl psz)"
proof
  assume "wild (CHR ''*'' # mk) psz"
  then obtain u v where "psz = u @ v" "wild mk v" by auto
  then show "wild mk psz \<or> psz \<noteq> [] \<and> wild (CHR ''*'' # mk) (tl psz)" by (cases u) auto
next
  assume "wild mk psz \<or> psz \<noteq> [] \<and> wild (CHR ''*'' # mk) (tl psz)"
  then show "wild (CHR ''*'' # mk) psz"
  proof
    assume "wild mk psz"
    then show ?thesis by (auto intro: exI [of _ "[]"])
  next
    assume r: "psz \<noteq> [] \<and> wild (CHR ''*'' # mk) (tl psz)"
    then obtain u v where "tl psz = u @ v" "wild mk v" by auto
    then have "psz = (hd psz # u) @ v" using r by (cases psz) auto
    then show ?thesis using \<open>wild mk v\<close> by (auto simp only: wild.simps simp_thms if_True)
  qed
qed

section \<open>Properties\<close>

text \<open>C34: the text encodings are undone by their decoders: base 64 and base 32 with their padding judged
  valid, hexadecimal text with or without spaces, which \<open>IsHex\<close> accepts, and the escaped strings of
  wallet dumps.\<close>

theorem text_encodings_roundtrip:
  "DecodeBase64 (EncodeBase64 v) = (v, False) \<and> DecodeBase32 (EncodeBase32 v) = (v, False)
   \<and> ParseHex (HexStr v fSpaces) = v \<and> (IsHex (HexStr v False) \<longleftrightarrow> v \<noteq> [])
   \<and> DecodeDumpString (EncodeDumpString v) = v"
  using DecodeBase64_EncodeBase64 DecodeBase32_EncodeBase32 ParseHex_HexStr_loop IsHex_HexStr
    DecodeDumpString_EncodeDumpString by (simp add: HexStr_def)

text \<open>C35: an amount of fewer than ten digits before the point is read back from its text, whatever zeros were
  trimmed, and every text \<open>ParseMoney\<close> accepts is an amount from zero up to that size: the computation
  cannot overflow.\<close>

theorem money_text:
  assumes "0 \<le> sint n" "sint n < 10 ^ 16"
  shows "(\<exists>str. FormatMoney n False = Some str \<and> ParseMoney str = Some n)
    \<and> (case ParseMoney s of None \<Rightarrow> True | Some v \<Rightarrow> 0 \<le> sint v \<and> sint v < 10 ^ 16)"
  using ParseMoney_FormatMoney [OF assms] ParseMoney_bounds [of s] by (auto split: option.split)

theorem money_text_witness:
  "(\<exists>str. FormatMoney 12340000 False = Some str \<and> ParseMoney str = Some 12340000)
   \<and> (case ParseMoney ''9999999999.999999'' of None \<Rightarrow> True | Some v \<Rightarrow> 0 \<le> sint v \<and> sint v < 10 ^ 16)"
  by (rule money_text) simp_all

text \<open>\<open>WildcardMatch\<close> ends on every input and accepts exactly the strings its mask stands for.\<close>

theorem WildcardMatch_language: "WildcardMatch psz mk \<longleftrightarrow> wild mk psz"
proof (induction psz mk rule: WildcardMatch.induct)
  case (2 psz m mk)
  then show ?case
  proof (cases "m = CHR ''*''")
    case True
    then show ?thesis using 2 wild_star [of mk psz] by (auto simp del: wild.simps)
  next
    case False
    then show ?thesis using 2 by (cases psz) auto
  qed
qed simp

end
