(* ===== verification/Netbase.thy ===== *)
theory Netbase
  imports Key Encoding
begin

text \<open>Network addresses of \<^verbatim>\<open>netbase.cpp\<close> and \<^verbatim>\<open>netbase.h\<close>: an address is its 16 bytes, a service an address and
  a port. The theory has the splitting of host and port, the classification of addresses, their
  groups and reachability, their texts, their serialization and the table of proxies.
  The system's \<^verbatim>\<open>getnameinfo\<close> is a parameter; sockets and name lookups are not modelled.\<close>

unbundle bit_operations_syntax

section \<open>Networks and host texts\<close>

datatype Network = NET_UNROUTABLE | NET_IPV4 | NET_IPV6 | NET_TOR | NET_I2P

text \<open>The value of the enumerator, and the first value after them.\<close>

fun network_val :: "Network \<Rightarrow> nat" where
  "network_val NET_UNROUTABLE = 0"
| "network_val NET_IPV4 = 1"
| "network_val NET_IPV6 = 2"
| "network_val NET_TOR = 3"
| "network_val NET_I2P = 4"

abbreviation (input) NET_MAX :: nat where "NET_MAX \<equiv> 5"

definition c_tolower :: "char \<Rightarrow> char" where
  "c_tolower c = (let n = of_char c :: nat in if 65 \<le> n \<and> n \<le> 90 then char_of (n + 32) else c)"

definition ParseNetwork :: "string \<Rightarrow> Network" where
  "ParseNetwork net =
     (let net = map c_tolower net
      in if net = ''ipv4'' then NET_IPV4
         else if net = ''ipv6'' then NET_IPV6
         else if net = ''tor'' \<or> net = ''onion'' then NET_TOR
         else if net = ''i2p'' then NET_I2P
         else NET_UNROUTABLE)"

text \<open>\<open>strtol\<close> in base ten: the value, clamped to a 64-bit \<open>long\<close>, and the characters from \<open>*endp\<close> on.
  Without digits the value is zero and nothing is consumed.\<close>

definition c_strtol :: "string \<Rightarrow> int \<times> string" where
  "c_strtol s =
     (let p = dropWhile c_isspace s;
          neg = (p \<noteq> [] \<and> hd p = CHR ''-'');
          p = (if p \<noteq> [] \<and> (hd p = CHR ''-'' \<or> hd p = CHR ''+'') then tl p else p);
          ds = takeWhile c_isdigit p
      in if ds = [] then (0, s)
         else let v = int (atoi64 ds); v = (if neg then - v else v)
              in (max (- (2 ^ 63)) (min (2 ^ 63 - 1) v), dropWhile c_isdigit p))"

text \<open>The last colon splits the text into what is before it and what is after it. The result has the
  port, when one is assigned, and the host.\<close>

definition last_colon :: "string \<Rightarrow> (string \<times> string) option" where
  "last_colon s =
     (if CHR '':'' \<in> set s
      then let post = takeWhile (\<lambda>c. c \<noteq> CHR '':'') (rev s)
           in Some (take (length s - length post - 1) s, rev post)
      else None)"

definition SplitHostPort :: "string \<Rightarrow> u16 option \<times> string" where
  "SplitHostPort inp =
     (let (portOut, inp) =
        (case last_colon inp of None \<Rightarrow> (None, inp)
         | Some (pre, post) \<Rightarrow>
             let fBracketed = (pre \<noteq> [] \<and> hd pre = CHR ''['' \<and> last pre = CHR '']'');
                 fMultiColon = (CHR '':'' \<in> set pre)
             in if pre = [] \<or> fBracketed \<or> \<not> fMultiColon
                then let (l, endp) = c_strtol post; n = sint (word_of_int l :: 32 word)
                     in if (endp = [] \<or> hd endp = CHR 0x00) \<and> n \<ge> 0
                        then (if n > 0 \<and> n < 0x10000 then Some (word_of_int n) else None, pre)
                        else (None, inp)
                else (None, inp))
      in (portOut,
          if length inp > 0 \<and> hd inp = CHR ''['' \<and> last inp = CHR '']''
          then take (length inp - 2) (drop 1 inp) else inp))"

section \<open>Addresses\<close>

type_synonym CNetAddr = bytes

definition pchIPv4 :: bytes where
  "pchIPv4 = [0, 0, 0, 0, 0, 0, 0, 0, 0, 0, 0xff, 0xff]"

definition pchOnionCat :: bytes where
  "pchOnionCat = [0xFD, 0x87, 0xD8, 0x7E, 0xEB, 0x43]"

definition pchGarliCat :: bytes where
  "pchGarliCat = [0xFD, 0x60, 0xDB, 0x4D, 0xDD, 0xB5]"

definition CNetAddr_Init :: CNetAddr where
  "CNetAddr_Init = replicate 16 0"

definition CNetAddr_of_in_addr :: "bytes \<Rightarrow> CNetAddr" where
  "CNetAddr_of_in_addr ipv4Addr = pchIPv4 @ ipv4Addr"

text \<open>The name without its last \<open>n\<close> characters, if these are the suffix.\<close>

definition cut_suffix :: "string \<Rightarrow> string \<Rightarrow> string option" where
  "cut_suffix strName suffix =
     (let n = length suffix; k = length strName - n
      in if length strName > n \<and> drop k strName = suffix then Some (take k strName) else None)"

definition SetSpecial :: "CNetAddr \<Rightarrow> string \<Rightarrow> bool \<times> CNetAddr" where
  "SetSpecial ip strName =
     (case cut_suffix strName ''.onion'' of
        Some name \<Rightarrow>
          let vchAddr = fst (DecodeBase32 name)
          in if length vchAddr \<noteq> 16 - length pchOnionCat then (False, ip)
             else (True, pchOnionCat @ take (16 - length pchOnionCat) vchAddr)
      | None \<Rightarrow>
          (case cut_suffix strName ''.oc.b32.i2p'' of
             Some name \<Rightarrow>
               let vchAddr = fst (DecodeBase32 name)
               in if length vchAddr \<noteq> 16 - length pchGarliCat then (False, ip)
                  else (True, pchOnionCat @ take (16 - length pchGarliCat) vchAddr)
           | None \<Rightarrow> (False, ip)))"

definition GetByte :: "CNetAddr \<Rightarrow> nat \<Rightarrow> byte" where
  "GetByte ip n = ip ! (15 - n)"

definition IsIPv4 :: "CNetAddr \<Rightarrow> bool" where
  "IsIPv4 ip = (take 12 ip = pchIPv4)"

definition IsRFC1918 :: "CNetAddr \<Rightarrow> bool" where
  "IsRFC1918 ip =
     (IsIPv4 ip \<and> (GetByte ip 3 = 10 \<or> GetByte ip 3 = 192 \<and> GetByte ip 2 = 168
       \<or> GetByte ip 3 = 172 \<and> GetByte ip 2 \<ge> 16 \<and> GetByte ip 2 \<le> 31))"

definition IsRFC3927 :: "CNetAddr \<Rightarrow> bool" where
  "IsRFC3927 ip = (IsIPv4 ip \<and> GetByte ip 3 = 169 \<and> GetByte ip 2 = 254)"

definition IsRFC3849 :: "CNetAddr \<Rightarrow> bool" where
  "IsRFC3849 ip =
     (GetByte ip 15 = 0x20 \<and> GetByte ip 14 = 0x01 \<and> GetByte ip 13 = 0x0D \<and> GetByte ip 12 = 0xB8)"

definition IsRFC3964 :: "CNetAddr \<Rightarrow> bool" where
  "IsRFC3964 ip = (GetByte ip 15 = 0x20 \<and> GetByte ip 14 = 0x02)"

definition IsRFC6052 :: "CNetAddr \<Rightarrow> bool" where
  "IsRFC6052 ip = (take 12 ip = [0, 0x64, 0xFF, 0x9B, 0, 0, 0, 0, 0, 0, 0, 0])"

definition IsRFC4380 :: "CNetAddr \<Rightarrow> bool" where
  "IsRFC4380 ip = (GetByte ip 15 = 0x20 \<and> GetByte ip 14 = 0x01 \<and> GetByte ip 13 = 0 \<and> GetByte ip 12 = 0)"

definition IsRFC4862 :: "CNetAddr \<Rightarrow> bool" where
  "IsRFC4862 ip = (take 8 ip = [0xFE, 0x80, 0, 0, 0, 0, 0, 0])"

definition IsRFC4193 :: "CNetAddr \<Rightarrow> bool" where
  "IsRFC4193 ip = (GetByte ip 15 AND 0xFE = 0xFC)"

definition IsRFC6145 :: "CNetAddr \<Rightarrow> bool" where
  "IsRFC6145 ip = (take 12 ip = [0, 0, 0, 0, 0, 0, 0, 0, 0xFF, 0xFF, 0, 0])"

definition IsRFC4843 :: "CNetAddr \<Rightarrow> bool" where
  "IsRFC4843 ip =
     (GetByte ip 15 = 0x20 \<and> GetByte ip 14 = 0x01 \<and> GetByte ip 13 = 0x00 \<and> GetByte ip 12 AND 0xF0 = 0x10)"

definition IsTor :: "CNetAddr \<Rightarrow> bool" where
  "IsTor ip = (take 6 ip = pchOnionCat)"

definition IsI2P :: "CNetAddr \<Rightarrow> bool" where
  "IsI2P ip = (take 6 ip = pchGarliCat)"

definition IsIPv6 :: "CNetAddr \<Rightarrow> bool" where
  "IsIPv6 ip = (\<not> IsIPv4 ip \<and> \<not> IsTor ip \<and> \<not> IsI2P ip)"

definition IsLocal :: "CNetAddr \<Rightarrow> bool" where
  "IsLocal ip =
     (if IsIPv4 ip \<and> (GetByte ip 3 = 127 \<or> GetByte ip 3 = 0) then True
      else if take 16 ip = replicate 15 0 @ [1] then True else False)"

definition IsMulticast :: "CNetAddr \<Rightarrow> bool" where
  "IsMulticast ip = (IsIPv4 ip \<and> GetByte ip 3 AND 0xF0 = 0xE0 \<or> GetByte ip 15 = 0xFF)"

definition CNetAddr_IsValid :: "CNetAddr \<Rightarrow> bool" where
  "CNetAddr_IsValid ip =
     (if take 9 ip = drop 3 pchIPv4 then False
      else if take 16 ip = replicate 16 0 then False
      else if IsRFC3849 ip then False
      else if IsIPv4 ip
      then if take 4 (drop 12 ip) = [0xff, 0xff, 0xff, 0xff] then False
           else if take 4 (drop 12 ip) = [0, 0, 0, 0] then False else True
      else True)"

definition IsRoutable :: "CNetAddr \<Rightarrow> bool" where
  "IsRoutable ip =
     (CNetAddr_IsValid ip
      \<and> \<not> (IsRFC1918 ip \<or> IsRFC3927 ip \<or> IsRFC4862 ip \<or> (IsRFC4193 ip \<and> \<not> IsTor ip \<and> \<not> IsI2P ip)
           \<or> IsRFC4843 ip \<or> IsLocal ip))"

definition GetNetwork :: "CNetAddr \<Rightarrow> Network" where
  "GetNetwork ip =
     (if \<not> IsRoutable ip then NET_UNROUTABLE
      else if IsIPv4 ip then NET_IPV4
      else if IsTor ip then NET_TOR
      else if IsI2P ip then NET_I2P
      else NET_IPV6)"

text \<open>\<open>getnameinfo\<close> stands for the call to the operating system with the socket address of \<open>ip\<close>;
  \<open>None\<close> is its failure. \<open>hex_group\<close> is \<open>%x\<close> of a 16-bit number.\<close>

fun hex_group :: "nat \<Rightarrow> string" where
  "hex_group n = (if n < 16 then [hexdigit n] else hex_group (n div 16) @ [hexdigit (n mod 16)])"

definition byte_pair :: "CNetAddr \<Rightarrow> nat \<Rightarrow> nat" where
  "byte_pair ip n = push_bit 8 (unat (GetByte ip (n + 1))) OR unat (GetByte ip n)"

definition ToStringIP :: "(bytes \<Rightarrow> string option) \<Rightarrow> CNetAddr \<Rightarrow> string" where
  "ToStringIP getnameinfo ip =
     (if IsTor ip then EncodeBase32 (take 10 (drop 6 ip)) @ ''.onion''
      else if IsI2P ip then EncodeBase32 (take 10 (drop 6 ip)) @ ''.oc.b32.i2p''
      else case getnameinfo ip of Some name \<Rightarrow> name
      | None \<Rightarrow>
          if IsIPv4 ip
          then dec_string (unat (GetByte ip 3)) @ ''.'' @ dec_string (unat (GetByte ip 2)) @ ''.''
               @ dec_string (unat (GetByte ip 1)) @ ''.'' @ dec_string (unat (GetByte ip 0))
          else hex_group (byte_pair ip 14) @ '':'' @ hex_group (byte_pair ip 12) @ '':''
               @ hex_group (byte_pair ip 10) @ '':'' @ hex_group (byte_pair ip 8) @ '':''
               @ hex_group (byte_pair ip 6) @ '':'' @ hex_group (byte_pair ip 4) @ '':''
               @ hex_group (byte_pair ip 2) @ '':'' @ hex_group (byte_pair ip 0))"

definition GetInAddr :: "CNetAddr \<Rightarrow> bytes option" where
  "GetInAddr ip = (if \<not> IsIPv4 ip then None else Some (take 4 (drop 12 ip)))"

text \<open>The loop that appends whole bytes, and the last partial one.\<close>

function group_bytes :: "CNetAddr \<Rightarrow> nat \<Rightarrow> nat \<Rightarrow> bytes" where
  "group_bytes ip nStartByte nBits =
     (if nBits \<ge> 8 then GetByte ip (15 - nStartByte) # group_bytes ip (nStartByte + 1) (nBits - 8)
      else if nBits > 0 then [GetByte ip (15 - nStartByte) OR of_nat (2 ^ nBits - 1)]
      else [])"
  by pat_completeness auto
termination
  by (relation "measure (\<lambda>(ip, nStartByte, nBits). nBits)") auto

definition GetGroup :: "CNetAddr \<Rightarrow> bytes" where
  "GetGroup ip =
     (let (nClass, nStartByte, nBits) = (of_nat (network_val NET_IPV6), 0, 16);
          (nClass, nBits) = (if IsLocal ip then (255, 0) else (nClass, nBits))
      in if \<not> IsRoutable ip then of_nat (network_val NET_UNROUTABLE) # group_bytes ip nStartByte 0
         else if IsIPv4 ip \<or> IsRFC6145 ip \<or> IsRFC6052 ip
         then of_nat (network_val NET_IPV4) # group_bytes ip 12 nBits
         else if IsRFC3964 ip then of_nat (network_val NET_IPV4) # group_bytes ip 2 nBits
         else if IsRFC4380 ip
         then [of_nat (network_val NET_IPV4), GetByte ip 3 XOR 0xFF, GetByte ip 2 XOR 0xFF]
         else if IsTor ip then of_nat (network_val NET_TOR) # group_bytes ip 6 4
         else if IsI2P ip then of_nat (network_val NET_I2P) # group_bytes ip 6 4
         else if GetByte ip 15 = 0x20 \<and> GetByte ip 14 = 0x01 \<and> GetByte ip 13 = 0x04 \<and> GetByte ip 12 = 0x70
         then nClass # group_bytes ip nStartByte 36
         else nClass # group_bytes ip nStartByte 32)"

definition CNetAddr_GetHash :: "('k, 'g) crypto \<Rightarrow> CNetAddr \<Rightarrow> u64" where
  "CNetAddr_GetHash C ip = of_nat (le_val (take 8 (base_uint_getBytes (Hash C ip))))"

abbreviation (input) NET_UNKNOWN :: nat where "NET_UNKNOWN \<equiv> NET_MAX"
abbreviation (input) NET_TEREDO :: nat where "NET_TEREDO \<equiv> NET_MAX + 1"

definition GetExtNetwork :: "CNetAddr option \<Rightarrow> nat" where
  "GetExtNetwork addr =
     (case addr of None \<Rightarrow> NET_UNKNOWN
      | Some ip \<Rightarrow> if IsRFC4380 ip then NET_TEREDO else network_val (GetNetwork ip))"

datatype Reachability =
  REACH_UNREACHABLE | REACH_DEFAULT | REACH_TEREDO | REACH_IPV6_WEAK | REACH_IPV4 | REACH_IPV6_STRONG | REACH_PRIVATE

definition GetReachabilityFrom :: "CNetAddr \<Rightarrow> CNetAddr option \<Rightarrow> Reachability" where
  "GetReachabilityFrom ip paddrPartner =
     (if \<not> IsRoutable ip then REACH_UNREACHABLE
      else let ourNet = GetExtNetwork (Some ip); theirNet = GetExtNetwork paddrPartner;
               fTunnel = (IsRFC3964 ip \<or> IsRFC6052 ip \<or> IsRFC6145 ip)
           in if theirNet = network_val NET_IPV4
              then if ourNet = network_val NET_IPV4 then REACH_IPV4 else REACH_DEFAULT
              else if theirNet = network_val NET_IPV6
              then if ourNet = NET_TEREDO then REACH_TEREDO
                   else if ourNet = network_val NET_IPV4 then REACH_IPV4
                   else if ourNet = network_val NET_IPV6 then if fTunnel then REACH_IPV6_WEAK else REACH_IPV6_STRONG
                   else REACH_DEFAULT
              else if theirNet = network_val NET_TOR
              then if ourNet = network_val NET_IPV4 then REACH_IPV4
                   else if ourNet = network_val NET_TOR then REACH_PRIVATE else REACH_DEFAULT
              else if theirNet = network_val NET_I2P
              then if ourNet = network_val NET_I2P then REACH_PRIVATE else REACH_DEFAULT
              else if theirNet = NET_TEREDO
              then if ourNet = NET_TEREDO then REACH_TEREDO
                   else if ourNet = network_val NET_IPV6 then REACH_IPV6_WEAK
                   else if ourNet = network_val NET_IPV4 then REACH_IPV4 else REACH_DEFAULT
              else if ourNet = NET_TEREDO then REACH_TEREDO
                   else if ourNet = network_val NET_IPV6 then REACH_IPV6_WEAK
                   else if ourNet = network_val NET_IPV4 then REACH_IPV4
                   else if ourNet = network_val NET_I2P \<or> ourNet = network_val NET_TOR then REACH_PRIVATE
                   else REACH_DEFAULT)"

section \<open>Services\<close>

record CService =
  sv_ip :: CNetAddr
  sv_port :: u16

definition CService_Init :: CService where
  "CService_Init = \<lparr> sv_ip = CNetAddr_Init, sv_port = 0 \<rparr>"

definition CService_eq :: "CService \<Rightarrow> CService \<Rightarrow> bool" where
  "CService_eq a b = (take 16 (sv_ip a) = take 16 (sv_ip b) \<and> sv_port a = sv_port b)"

definition CService_lt :: "CService \<Rightarrow> CService \<Rightarrow> bool" where
  "CService_lt a b =
     (bytes_lt (take 16 (sv_ip a)) (take 16 (sv_ip b))
      \<or> take 16 (sv_ip a) = take 16 (sv_ip b) \<and> sv_port a < sv_port b)"

definition CService_GetKey :: "CService \<Rightarrow> bytes" where
  "CService_GetKey s = take 16 (sv_ip s) @ [ucast (sv_port s div 0x100), ucast (sv_port s AND 0x0FF)]"

text \<open>\<open>htons\<close> makes the two bytes of the port go out high byte first.\<close>

definition ser_CService :: "CService \<Rightarrow> bytes" where
  "ser_CService s = take 16 (sv_ip s) @ rev (ser_uint 2 (sv_port s))"

definition unser_CService :: "'s rd \<Rightarrow> 's \<Rightarrow> (CService \<times> 's) option" where
  "unser_CService rd s =
     (case rd s 16 of None \<Rightarrow> None
      | Some (ip, s) \<Rightarrow>
          (case rd s 2 of None \<Rightarrow> None
           | Some (p, s) \<Rightarrow> Some (\<lparr> sv_ip = ip, sv_port = of_nat (le_val (rev p)) \<rparr>, s)))"

definition ToStringPort :: "CService \<Rightarrow> string" where
  "ToStringPort s = dec_string (unat (sv_port s))"

definition ToStringIPPort :: "(bytes \<Rightarrow> string option) \<Rightarrow> CService \<Rightarrow> string" where
  "ToStringIPPort getnameinfo s =
     (if IsIPv4 (sv_ip s) \<or> IsTor (sv_ip s) \<or> IsI2P (sv_ip s)
      then ToStringIP getnameinfo (sv_ip s) @ '':'' @ ToStringPort s
      else ''['' @ ToStringIP getnameinfo (sv_ip s) @ '']:'' @ ToStringPort s)"

section \<open>Proxies\<close>

type_synonym proxyType = "CService \<times> int"

record proxies =
  proxyInfo :: "Network \<Rightarrow> proxyType"
  nameproxyInfo :: proxyType

definition SetProxy :: "proxies \<Rightarrow> Network \<Rightarrow> CService \<Rightarrow> int \<Rightarrow> bool \<times> proxies" where
  "SetProxy st net addrProxy nSocksVersion =
     (if nSocksVersion \<noteq> 0 \<and> nSocksVersion \<noteq> 4 \<and> nSocksVersion \<noteq> 5 then (False, st)
      else if nSocksVersion \<noteq> 0 \<and> \<not> CNetAddr_IsValid (sv_ip addrProxy) then (False, st)
      else (True, st\<lparr> proxyInfo := (proxyInfo st)(net := (addrProxy, nSocksVersion)) \<rparr>))"

definition GetProxy :: "proxies \<Rightarrow> Network \<Rightarrow> proxyType option" where
  "GetProxy st net = (if snd (proxyInfo st net) = 0 then None else Some (proxyInfo st net))"

definition SetNameProxy :: "proxies \<Rightarrow> CService \<Rightarrow> int \<Rightarrow> bool \<times> proxies" where
  "SetNameProxy st addrProxy nSocksVersion =
     (if nSocksVersion \<noteq> 0 \<and> nSocksVersion \<noteq> 5 then (False, st)
      else if nSocksVersion \<noteq> 0 \<and> \<not> CNetAddr_IsValid (sv_ip addrProxy) then (False, st)
      else (True, st\<lparr> nameproxyInfo := (addrProxy, nSocksVersion) \<rparr>))"

definition GetNameProxy :: "proxies \<Rightarrow> proxyType option" where
  "GetNameProxy st = (if snd (nameproxyInfo st) = 0 then None else Some (nameproxyInfo st))"

definition HaveNameProxy :: "proxies \<Rightarrow> bool" where
  "HaveNameProxy st = (snd (nameproxyInfo st) \<noteq> 0)"

definition IsProxy :: "proxies \<Rightarrow> CNetAddr \<Rightarrow> bool" where
  "IsProxy st addr =
     list_ex (\<lambda>net. snd (proxyInfo st net) \<noteq> 0 \<and> take 16 addr = take 16 (sv_ip (fst (proxyInfo st net))))
       [NET_UNROUTABLE, NET_IPV4, NET_IPV6, NET_TOR, NET_I2P]"


declare group_bytes.simps [simp del]

section \<open>Groups\<close>

lemma group_bytes_0 [simp]: "group_bytes ip s 0 = []"
  by (simp add: group_bytes.simps)

lemma group_bytes_4 [simp]: "group_bytes ip s 4 = [GetByte ip (15 - s) OR 15]"
  by (simp add: group_bytes.simps)

lemma group_bytes_16 [simp]: "group_bytes ip s 16 = [GetByte ip (15 - s), GetByte ip (15 - (s + 1))]"
  by (simp add: group_bytes.simps [of _ _ 16] group_bytes.simps [of _ _ 8])

lemma local_unroutable: "IsLocal ip \<Longrightarrow> \<not> IsRoutable ip"
  by (simp add: IsRoutable_def)

lemma length_group_bytes: "length (group_bytes ip s n) = (n + 7) div 8"
proof (induction ip s n rule: group_bytes.induct)
  case (1 ip s n)
  then show ?case by (subst group_bytes.simps) auto
qed

lemma replicate_zeros:
  "replicate 16 (0 :: byte) = [0, 0, 0, 0, 0, 0, 0, 0, 0, 0, 0, 0, 0, 0, 0, 0]"
  "replicate 15 (0 :: byte) = [0, 0, 0, 0, 0, 0, 0, 0, 0, 0, 0, 0, 0, 0, 0]"
  by (simp_all add: numeral_eq_Suc)

lemmas address_class_defs = IsIPv4_def IsRFC1918_def IsRFC3927_def IsRFC3849_def IsRFC3964_def IsRFC6052_def IsRFC4380_def
  IsRFC4862_def IsRFC4193_def IsRFC6145_def IsRFC4843_def IsTor_def IsI2P_def IsLocal_def CNetAddr_IsValid_def
  GetByte_def pchIPv4_def pchOnionCat_def pchGarliCat_def replicate_zeros

lemma group_mapped: "IsRoutable (pchIPv4 @ [a, b, c, d]) \<Longrightarrow> GetGroup (pchIPv4 @ [a, b, c, d]) = [1, a, b]"
  using local_unroutable [of "pchIPv4 @ [a, b, c, d]"]
  by (auto simp: GetGroup_def Let_def IsIPv4_def GetByte_def pchIPv4_def)

lemma group_translated:
  "GetGroup ([0, 0, 0, 0, 0, 0, 0, 0, 0xFF, 0xFF, 0, 0] @ [a, b, c, d]) = [1, a, b]"
  "GetGroup ([0, 0x64, 0xFF, 0x9B, 0, 0, 0, 0, 0, 0, 0, 0] @ [a, b, c, d]) = [1, a, b]"
  by (simp_all add: GetGroup_def Let_def IsRoutable_def address_class_defs)

lemma group_tunnelled:
  assumes "length r = 10" "length t = 8"
  shows "GetGroup ([0x20, 0x02, a, b, c, d] @ r) = [1, a, b]"
    "GetGroup ([0x20, 0x01, 0, 0] @ t @ [a XOR 0xFF, b XOR 0xFF, c XOR 0xFF, d XOR 0xFF]) = [1, a, b]"
  using assms by (simp_all add: GetGroup_def Let_def IsRoutable_def address_class_defs nth_append xor.assoc)


section \<open>Special names\<close>

lemma cut_suffix_append: "s \<noteq> [] \<Longrightarrow> cut_suffix (s @ suffix) suffix = Some s"
  by (simp add: cut_suffix_def Let_def)

lemma cut_onion_i2p: "cut_suffix (s @ ''.oc.b32.i2p'') ''.onion'' = None"
  by (simp add: cut_suffix_def Let_def)

lemma EncodeBase32_nonempty: "v \<noteq> [] \<Longrightarrow> EncodeBase32 v \<noteq> []"
  by (cases v) (simp_all add: EncodeBase32_def Let_def)

lemma quintet_bounds:
  fixes x y :: nat
  assumes "x < 256" "y < 256"
  shows "x div 8 < 32" "x mod 8 * 4 + y div 64 < 32" "x div 2 mod 32 < 32" "x mod 2 * 16 + y div 16 < 32"
    "x mod 16 * 2 + y div 128 < 32" "x div 4 mod 32 < 32" "x mod 4 * 8 + y div 32 < 32" "x mod 32 < 32"
proof -
  have "y div 64 < 4" "y div 16 < 16" "y div 128 < 2" "y div 32 < 8" using assms(2) by simp_all
  moreover have "x mod 8 < 8" "x mod 2 < 2" "x mod 16 < 16" "x mod 4 < 4" by simp_all
  ultimately show "x mod 8 * 4 + y div 64 < 32" "x mod 2 * 16 + y div 16 < 32"
    "x mod 16 * 2 + y div 128 < 32" "x mod 4 * 8 + y div 32 < 32" by linarith+
qed (use assms in simp_all)

definition base32_char :: "char \<Rightarrow> bool" where
  "base32_char c = (c \<in> set pbase32 \<or> c = CHR ''='')"

lemma length_pbase32: "length pbase32 = 32"
  using arg_cong [OF base32_table, of length] by simp

lemma base32_char_nth: "n < 32 \<Longrightarrow> base32_char (pbase32 ! n)"
  by (simp add: base32_char_def length_pbase32)

lemma base32_padding: "base32_char (CHR ''='')"
  by (simp add: base32_char_def)

lemma encode32_chars: "list_all base32_char (encode32_loop v 0 l)"
proof (induction v arbitrary: l rule: fives_induct)
  case (group a b c d e r)
  note A = byte_less [of a] byte_less [of b] byte_less [of c] byte_less [of d] byte_less [of e]
  show ?case unfolding encode32_step encode32_left [OF A(2)] encode32_left [OF A(3)] encode32_left [OF A(4)]
        encode32_left [OF A(5)] list.pred_inject(2) by (intro conjI base32_char_nth quintet_bounds [OF byte_less byte_less] group)
next
  case none
  then show ?case by simp
next
  case (one a)
  have l: "push_bit 2 (unat a AND 7) = unat a mod 8 * 4 + 0 div 64" by (simp add: push_bit_eq_mult and_small)
  show ?case unfolding encode32_step l encode32_end list.pred_inject(2)
    by (intro conjI base32_char_nth quintet_bounds [OF byte_less byte_less] quintet_bounds [OF byte_less, where y = 0] base32_padding) simp_all
next
  case (two a b)
  note A = byte_less [of a] byte_less [of b]
  have l: "push_bit 4 (unat b AND 1) = unat b mod 2 * 16 + 0 div 16" by (simp add: push_bit_eq_mult and_small)
  show ?case unfolding encode32_step encode32_left [OF A(2)] l encode32_end list.pred_inject(2)
    by (intro conjI base32_char_nth quintet_bounds [OF byte_less byte_less] quintet_bounds [OF byte_less, where y = 0] base32_padding) simp_all
next
  case (three a b c)
  note A = byte_less [of a] byte_less [of b] byte_less [of c]
  have l: "push_bit 1 (unat c AND 15) = unat c mod 16 * 2 + 0 div 128" by (simp add: push_bit_eq_mult and_small)
  show ?case unfolding encode32_step encode32_left [OF A(2)] encode32_left [OF A(3)] l encode32_end list.pred_inject(2)
    by (intro conjI base32_char_nth quintet_bounds [OF byte_less byte_less] quintet_bounds [OF byte_less, where y = 0] base32_padding) simp_all
next
  case (four a b c d)
  note A = byte_less [of a] byte_less [of b] byte_less [of c] byte_less [of d]
  have l: "push_bit 3 (unat d AND 3) = unat d mod 4 * 8 + 0 div 32" by (simp add: push_bit_eq_mult and_small)
  show ?case unfolding encode32_step encode32_left [OF A(2)] encode32_left [OF A(3)] encode32_left [OF A(4)] l encode32_end
      list.pred_inject(2)
    by (intro conjI base32_char_nth quintet_bounds [OF byte_less byte_less] quintet_bounds [OF byte_less, where y = 0] base32_padding) simp_all
qed

section \<open>Host and port\<close>

definition plain_char :: "char \<Rightarrow> bool" where
  "plain_char c = (c \<noteq> CHR '':'' \<and> c \<noteq> CHR ''['')"

lemma dec_string_plain: "list_all plain_char (dec_string n) \<and> list_all c_isdigit (dec_string n) \<and> dec_string n \<noteq> []
    \<and> atoi64 (dec_string n) = n \<and> list_all (\<lambda>c. \<not> c_isspace c) (dec_string n)"
proof -
  obtain ds where ds: "dec_string n = map hexdigit ds" "list_all (\<lambda>d. d < 10) ds" "ds \<noteq> []"
    "foldl (\<lambda>n d. 10 * n + d) 0 ds = n" using dec_string_digits by blast
  have "list_all (\<lambda>d. plain_char (hexdigit d)) [0..<10]" by code_simp
  then have "list_all plain_char (map hexdigit ds)" using ds(2) by (auto simp: list_all_iff)
  moreover have "list_all c_isdigit (map hexdigit ds)" "list_all (\<lambda>c. \<not> c_isspace c) (map hexdigit ds)"
    using ds(2) decdigit_facts(1) hexdigit_text(3) by (auto simp: list_all_iff)
  ultimately show ?thesis using ds atoi64_digits [OF ds(2)] by simp
qed

lemma takeWhile_all: "list_all P xs \<Longrightarrow> takeWhile P xs = xs" "list_all P xs \<Longrightarrow> dropWhile P xs = []"
  by (induction xs) auto

lemma c_strtol_dec: "n < 2 ^ 63 \<Longrightarrow> c_strtol (dec_string n) = (int n, [])"
proof -
  assume n: "n < 2 ^ 63"
  note d = dec_string_plain [of n]
  then obtain c r where cr: "dec_string n = c # r" by (cases "dec_string n") auto
  have c: "\<not> c_isspace c" "c_isdigit c" using d cr by auto
  then have "c \<noteq> CHR ''-''" "c \<noteq> CHR ''+''" by (auto simp: c_isdigit_def)
  moreover have "dropWhile c_isspace (dec_string n) = dec_string n" using c cr by simp
  moreover have "min (2 ^ 63 - 1) (int n) = int n" "max (- (2 ^ 63)) (int n) = int n" using n by (auto simp: min_def max_def)
  moreover have "hd (dec_string n) = c" "dec_string n \<noteq> []" by (simp_all add: cr)
  moreover have tw: "takeWhile c_isdigit (dec_string n) = dec_string n" "dropWhile c_isdigit (dec_string n) = []"
    using d by (simp_all add: takeWhile_all)
  ultimately show ?thesis using d by (simp add: c_strtol_def Let_def tw)
qed

lemma last_colon_append: "list_all plain_char t \<Longrightarrow> last_colon (s @ CHR '':'' # t) = Some (s, t)"
proof -
  assume t: "list_all plain_char t"
  then have "takeWhile (\<lambda>c. c \<noteq> CHR '':'') (rev t) = rev t"
    by (intro takeWhile_all) (auto simp: list_all_iff plain_char_def)
  moreover have "CHR '':'' \<notin> set t" using t by (auto simp: list_all_iff plain_char_def)
  ultimately have "takeWhile (\<lambda>c. c \<noteq> CHR '':'') (rev (s @ CHR '':'' # t)) = rev t"
    by (simp add: takeWhile_tail)
  then show ?thesis by (simp add: last_colon_def Let_def)
qed

lemma port_number:
  assumes "p \<noteq> (0 :: u16)"
  shows "sint (word_of_int (int (unat p)) :: 32 word) = int (unat p)" "0 < int (unat p)" "int (unat p) < 0x10000"
proof -
  have "unat p < 2 ^ 16" using unat_less_power [of p] by simp
  then show "int (unat p) < 0x10000" by (simp del: of_nat_unat)
  show "0 < int (unat p)" using assms by (simp add: unat_gt_0 del: of_nat_unat)
  have "unat (of_nat (unat p) :: 32 word) = unat p" using \<open>unat p < 2 ^ 16\<close> by (simp only: unat_of_nat) simp
  then have "sint (of_nat (unat p) :: 32 word) = int (unat p)"
    using sint_unat [of "of_nat (unat p) :: 32 word"] \<open>unat p < 2 ^ 16\<close> by simp
  then show "sint (word_of_int (int (unat p)) :: 32 word) = int (unat p)" by (simp only: of_int_of_nat_eq)
qed

lemma SplitHostPort_port:
  assumes "p \<noteq> 0" "pre \<noteq> []" "hd pre = CHR ''['' \<and> last pre = CHR '']'' \<or> CHR '':'' \<notin> set pre"
  shows "SplitHostPort (pre @ CHR '':'' # dec_string (unat p))
    = (Some p, if hd pre = CHR ''['' \<and> last pre = CHR '']'' then take (length pre - 2) (drop 1 pre) else pre)"
proof -
  have "unat p < 2 ^ 16" using unat_less_power [of p] by simp
  then have "unat p < 2 ^ 63" by simp
  then have "c_strtol (dec_string (unat p)) = (int (unat p), [])" by (rule c_strtol_dec)
  moreover have "last_colon (pre @ CHR '':'' # dec_string (unat p)) = Some (pre, dec_string (unat p))"
    using dec_string_plain by (intro last_colon_append) simp
  moreover have "(word_of_int (int (unat p)) :: u16) = p" by simp
  ultimately show ?thesis using port_number [OF assms(1)] assms(2,3)
    by (auto simp: SplitHostPort_def Let_def simp del: of_nat_unat)
qed


lemma ToStringIP_plain:
  assumes "IsIPv4 ip \<or> IsTor ip \<or> IsI2P ip" "length ip = 16" "\<And>name. getnameinfo ip = Some name \<Longrightarrow> list_all plain_char name \<and> name \<noteq> []"
  shows "list_all plain_char (ToStringIP getnameinfo ip) \<and> ToStringIP getnameinfo ip \<noteq> []"
proof -
  have "list_all plain_char pbase32 \<and> plain_char (CHR ''='')" by code_simp
  then have "plain_char c" if "base32_char c" for c using that by (auto simp: base32_char_def list_all_iff)
  then have b: "list_all plain_char (EncodeBase32 v)" for v
    using encode32_chars [of v 0] by (auto simp: EncodeBase32_def list_all_iff)
  have s: "list_all plain_char ''.onion''" "list_all plain_char ''.oc.b32.i2p''" "plain_char (CHR ''.'')" by code_simp+
  have d: "list_all plain_char (dec_string n)" for n using dec_string_plain by simp
  consider "IsTor ip" | "\<not> IsTor ip" "IsI2P ip" | "\<not> IsTor ip" "\<not> IsI2P ip" "IsIPv4 ip" using assms(1) by blast
  then show ?thesis
  proof cases
    case 3
    then show ?thesis using assms(3) s(3) d by (cases "getnameinfo ip") (simp_all add: ToStringIP_def)
  qed (use b s in \<open>simp_all add: ToStringIP_def\<close>)
qed

lemma ToStringIP_special: "IsTor ip \<or> IsI2P ip \<Longrightarrow> ToStringIP f ip = ToStringIP g ip"
  by (elim disjE) (simp_all add: ToStringIP_def)

lemma SplitHostPort_bare:
  assumes "p \<noteq> 0" "list_all plain_char h" "h \<noteq> []"
  shows "SplitHostPort (h @ CHR '':'' # dec_string (unat p)) = (Some p, h)"
proof -
  have "plain_char (hd h)" "CHR '':'' \<notin> set h" using assms(2,3) by (auto simp: list_all_iff plain_char_def)
  then show ?thesis using SplitHostPort_port [OF assms(1,3)] by (simp add: plain_char_def)
qed

lemma SplitHostPort_bracketed:
  assumes "p \<noteq> 0"
  shows "SplitHostPort (CHR ''['' # h @ CHR '']'' # CHR '':'' # dec_string (unat p)) = (Some p, h)"
  using SplitHostPort_port [OF assms, of "CHR ''['' # h @ [CHR '']'']"] by simp

lemma ToStringIP_bare:
  assumes "IsIPv4 ip \<or> IsTor ip \<or> IsI2P ip" "length ip = 16"
    and "\<And>name. getnameinfo ip = Some name \<Longrightarrow> name \<noteq> [] \<and> (IsIPv4 ip \<longrightarrow> list_all plain_char name)"
  shows "list_all plain_char (ToStringIP getnameinfo ip) \<and> ToStringIP getnameinfo ip \<noteq> []"
proof (cases "IsTor ip \<or> IsI2P ip")
  case True
  show ?thesis unfolding ToStringIP_special [OF True, of getnameinfo "\<lambda>_. None"]
    by (rule ToStringIP_plain [OF assms(1,2)]) simp
next
  case False
  then have "IsIPv4 ip" using assms(1) by blast
  then show ?thesis using assms(3) by (intro ToStringIP_plain [OF assms(1,2)]) blast
qed

lemma SplitHostPort_ToStringIPPort:
  assumes "sv_port sv \<noteq> 0" "length (sv_ip sv) = 16"
    and "\<And>name. getnameinfo (sv_ip sv) = Some name \<Longrightarrow> name \<noteq> [] \<and> (IsIPv4 (sv_ip sv) \<longrightarrow> list_all plain_char name)"
  shows "SplitHostPort (ToStringIPPort getnameinfo sv) = (Some (sv_port sv), ToStringIP getnameinfo (sv_ip sv))"
proof (cases "IsIPv4 (sv_ip sv) \<or> IsTor (sv_ip sv) \<or> IsI2P (sv_ip sv)")
  case True
  note h = ToStringIP_bare [OF True assms(2,3)]
  have "ToStringIPPort getnameinfo sv = ToStringIP getnameinfo (sv_ip sv) @ CHR '':'' # dec_string (unat (sv_port sv))"
    unfolding ToStringIPPort_def ToStringPort_def if_P [OF True] by simp
  then show ?thesis by (simp only: SplitHostPort_bare [OF assms(1) conjunct1 [OF h] conjunct2 [OF h]])
next
  case False
  have "ToStringIPPort getnameinfo sv
      = CHR ''['' # ToStringIP getnameinfo (sv_ip sv) @ CHR '']'' # CHR '':'' # dec_string (unat (sv_port sv))"
    unfolding ToStringIPPort_def ToStringPort_def if_not_P [OF False] by simp
  then show ?thesis by (simp only: SplitHostPort_bracketed [OF assms(1)])
qed

section \<open>Properties\<close>

text \<open>C36: for a routable IPv4 address, every way of embedding it in an IPv6 address falls into the address
  group of the embedded address: mapped, translated, behind the well-known prefix, 6to4 and Teredo, whose
  embedded address is complemented. An unroutable address has the group of all unroutable ones, while
  the tests for routability look into mapped addresses only, not into translated or tunnelled ones.\<close>

theorem embedded_address_group:
  assumes "IsRoutable (pchIPv4 @ [a, b, c, d])" "length r = 10" "length t = 8"
  shows "GetGroup (pchIPv4 @ [a, b, c, d]) = [1, a, b]
    \<and> GetGroup ([0, 0, 0, 0, 0, 0, 0, 0, 0xFF, 0xFF, 0, 0] @ [a, b, c, d]) = [1, a, b]
    \<and> GetGroup ([0, 0x64, 0xFF, 0x9B, 0, 0, 0, 0, 0, 0, 0, 0] @ [a, b, c, d]) = [1, a, b]
    \<and> GetGroup ([0x20, 0x02, a, b, c, d] @ r) = [1, a, b]
    \<and> GetGroup ([0x20, 0x01, 0, 0] @ t @ [a XOR 0xFF, b XOR 0xFF, c XOR 0xFF, d XOR 0xFF]) = [1, a, b]"
  using group_mapped [OF assms(1)] group_translated group_tunnelled [OF assms(2,3)] by blast

theorem embedded_address_group_witness:
  "IsRoutable (pchIPv4 @ [8, 8, 4, 4])
   \<and> GetGroup ([0x20, 0x02, 8, 8, 4, 4] @ replicate 10 7) = GetGroup (pchIPv4 @ [8, 8, 4, 4])"
proof -
  have r: "IsRoutable (pchIPv4 @ [8, 8, 4, 4])" by (simp add: IsRoutable_def address_class_defs)
  show ?thesis using embedded_address_group [OF r, of "replicate 10 7" "replicate 8 0"] r by simp
qed

text \<open>C37: the text of a Tor address is read back as that address. The text of an I2P address is read as a
  Tor address: \<open>SetSpecial\<close> copies the Tor prefix in both of its branches.\<close>

theorem special_names:
  assumes "length v = 10"
  shows "SetSpecial ip (ToStringIP getnameinfo (pchOnionCat @ v)) = (True, pchOnionCat @ v)
    \<and> SetSpecial ip (ToStringIP getnameinfo (pchGarliCat @ v)) = (True, pchOnionCat @ v)
    \<and> IsI2P (pchGarliCat @ v) \<and> \<not> IsI2P (pchOnionCat @ v)"
proof -
  have ne: "EncodeBase32 v \<noteq> []" using assms by (intro EncodeBase32_nonempty) auto
  have tor: "ToStringIP getnameinfo (pchOnionCat @ v) = EncodeBase32 v @ ''.onion''"
    and i2p: "ToStringIP getnameinfo (pchGarliCat @ v) = EncodeBase32 v @ ''.oc.b32.i2p''"
    using assms by (simp_all add: ToStringIP_def IsTor_def IsI2P_def pchOnionCat_def pchGarliCat_def)
  show ?thesis unfolding tor i2p SetSpecial_def cut_suffix_append [OF ne] cut_onion_i2p
    using assms by (simp add: DecodeBase32_EncodeBase32 IsI2P_def pchOnionCat_def pchGarliCat_def)
qed

theorem special_names_witness:
  "SetSpecial CNetAddr_Init (ToStringIP (\<lambda>_. None) (pchGarliCat @ replicate 10 3)) = (True, pchOnionCat @ replicate 10 3)"
  using special_names [of "replicate 10 3" CNetAddr_Init "\<lambda>_. None"] by simp

text \<open>C38: the text of a service is split into the text of its address and its port, with or without
  brackets, when the system's numeric host names are not empty and those of IPv4 addresses have no
  colon and no bracket.\<close>

theorem service_text_split:
  assumes "sv_port sv \<noteq> 0" "length (sv_ip sv) = 16"
    and "\<And>name. getnameinfo (sv_ip sv) = Some name \<Longrightarrow> name \<noteq> [] \<and> (IsIPv4 (sv_ip sv) \<longrightarrow> list_all plain_char name)"
  shows "SplitHostPort (ToStringIPPort getnameinfo sv) = (Some (sv_port sv), ToStringIP getnameinfo (sv_ip sv))"
  using assms by (rule SplitHostPort_ToStringIPPort)

theorem service_text_split_witness:
  "SplitHostPort (ToStringIPPort (\<lambda>_. Some ''2001:db8::7'') \<lparr> sv_ip = replicate 16 0, sv_port = 7777 \<rparr>)
     = (Some 7777, ToStringIP (\<lambda>_. Some ''2001:db8::7'') (replicate 16 0))"
proof -
  have "\<not> IsIPv4 (replicate 16 0)" by (simp add: IsIPv4_def pchIPv4_def replicate_zeros)
  then show ?thesis
    using service_text_split [of "\<lparr> sv_ip = replicate 16 0, sv_port = 7777 \<rparr>" "\<lambda>_. Some ''2001:db8::7''"] by simp
qed

end
