(* ===== verification/Protocol.thy ===== *)
theory Protocol
  imports Netbase
begin

text \<open>Messages between peers of \<^verbatim>\<open>protocol.h\<close> and \<^verbatim>\<open>protocol.cpp\<close>: the message header, the address of a
  peer and the inventory entry, with their serialization and tests. The network's four start bytes,
  a global the start-up code sets, are a parameter.\<close>

unbundle bit_operations_syntax

section \<open>Message headers\<close>

record CMessageHeader =
  hdr_start :: bytes
  hdr_command :: bytes
  hdr_nMessageSize :: u32
  hdr_nChecksum :: u32

abbreviation (input) COMMAND_SIZE :: nat where "COMMAND_SIZE \<equiv> 12"

definition CMessageHeader_default :: "bytes \<Rightarrow> CMessageHeader" where
  "CMessageHeader_default magic =
     \<lparr> hdr_start = magic, hdr_command = (replicate COMMAND_SIZE 0)[1 := 1], hdr_nMessageSize = - 1, hdr_nChecksum = 0 \<rparr>"

text \<open>\<open>strncpy\<close> copies up to the first zero or to the size and fills up with zeros.\<close>

definition c_strncpy :: "nat \<Rightarrow> bytes \<Rightarrow> bytes" where
  "c_strncpy n src = (let p = take n (takeWhile (\<lambda>c. c \<noteq> 0) src) in p @ replicate (n - length p) 0)"

definition CMessageHeader_new :: "bytes \<Rightarrow> bytes \<Rightarrow> u32 \<Rightarrow> CMessageHeader" where
  "CMessageHeader_new magic pszCommand nMessageSizeIn =
     \<lparr> hdr_start = magic, hdr_command = c_strncpy COMMAND_SIZE pszCommand,
       hdr_nMessageSize = nMessageSizeIn, hdr_nChecksum = 0 \<rparr>"

definition CMessageHeader_GetCommand :: "CMessageHeader \<Rightarrow> bytes" where
  "CMessageHeader_GetCommand h =
     (if hdr_command h ! (COMMAND_SIZE - 1) = 0 then takeWhile (\<lambda>c. c \<noteq> 0) (hdr_command h)
      else take COMMAND_SIZE (hdr_command h))"

text \<open>The loop over the command: after a zero only zeros, before it printable characters.\<close>

fun command_ok :: "bytes \<Rightarrow> bool" where
  "command_ok [] = True"
| "command_ok (c # p1) =
     (if c = 0 then list_all (\<lambda>c. c = 0) p1
      else if c < 0x20 \<or> c > 0x7E then False else command_ok p1)"

definition CMessageHeader_IsValid :: "bytes \<Rightarrow> CMessageHeader \<Rightarrow> bool" where
  "CMessageHeader_IsValid magic h =
     (if hdr_start h \<noteq> magic then False
      else if \<not> command_ok (hdr_command h) then False
      else if unat (hdr_nMessageSize h) > MAX_SIZE then False
      else True)"

definition ser_CMessageHeader :: "CMessageHeader \<Rightarrow> bytes" where
  "ser_CMessageHeader h =
     hdr_start h @ hdr_command h @ ser_uint 4 (hdr_nMessageSize h) @ ser_uint 4 (hdr_nChecksum h)"

definition unser_CMessageHeader :: "'s rd \<Rightarrow> 's \<Rightarrow> (CMessageHeader \<times> 's) option" where
  "unser_CMessageHeader rd s =
     (case rd s 4 of None \<Rightarrow> None
      | Some (st, s) \<Rightarrow>
     (case rd s COMMAND_SIZE of None \<Rightarrow> None
      | Some (cmd, s) \<Rightarrow>
     (case unser_uint 4 rd s of None \<Rightarrow> None
      | Some (sz, s) \<Rightarrow>
     (case unser_uint 4 rd s of None \<Rightarrow> None
      | Some (ck, s) \<Rightarrow>
          Some (\<lparr> hdr_start = st, hdr_command = cmd, hdr_nMessageSize = sz, hdr_nChecksum = ck \<rparr>, s)))))"

section \<open>Peer addresses\<close>

record CAddress = CService +
  ca_nServices :: u64
  ca_nTime :: u32
  ca_nLastTry :: int

abbreviation (input) NODE_NETWORK :: u64 where "NODE_NETWORK \<equiv> 1"

definition CAddress_of :: "CService \<Rightarrow> u64 \<Rightarrow> CAddress" where
  "CAddress_of ipIn nServicesIn =
     \<lparr> sv_ip = sv_ip ipIn, sv_port = sv_port ipIn, ca_nServices = nServicesIn, ca_nTime = 100000000, ca_nLastTry = 0 \<rparr>"

definition CAddress_default :: CAddress where
  "CAddress_default = CAddress_of CService_Init NODE_NETWORK"

abbreviation (input) SER_DISK :: u32 where "SER_DISK \<equiv> 2"
abbreviation (input) SER_GETHASH :: u32 where "SER_GETHASH \<equiv> 4"
abbreviation (input) CADDR_TIME_VERSION :: u32 where "CADDR_TIME_VERSION \<equiv> 31402"

definition caddress_time :: "u32 \<Rightarrow> u32 \<Rightarrow> bool" where
  "caddress_time nType nVersion \<longleftrightarrow>
     nType AND SER_DISK \<noteq> 0 \<or> sint nVersion \<ge> sint CADDR_TIME_VERSION \<and> nType AND SER_GETHASH = 0"

definition ser_CAddress :: "u32 \<Rightarrow> u32 \<Rightarrow> CAddress \<Rightarrow> bytes" where
  "ser_CAddress nType nVersion a =
     (if nType AND SER_DISK \<noteq> 0 then ser_uint 4 nVersion else [])
     @ (if caddress_time nType nVersion then ser_uint 4 (ca_nTime a) else [])
     @ ser_uint 8 (ca_nServices a) @ ser_CService (CService.truncate a)"

text \<open>\<open>Init\<close> is that of \<open>CService\<close> and resets the port only; the object that is read into is \<open>a\<close>.
  A version that is read replaces the argument.\<close>

definition unser_CAddress :: "u32 \<Rightarrow> u32 \<Rightarrow> CAddress \<Rightarrow> 's rd \<Rightarrow> 's \<Rightarrow> (CAddress \<times> 's) option" where
  "unser_CAddress nType nVersion a rd s =
     (case (if nType AND SER_DISK \<noteq> 0 then unser_uint 4 rd s else Some (nVersion, s)) of None \<Rightarrow> None
      | Some (nVersion, s) \<Rightarrow>
     (case (if caddress_time nType nVersion then unser_uint 4 rd s else Some (ca_nTime a, s)) of None \<Rightarrow> None
      | Some (t, s) \<Rightarrow>
     (case unser_uint 8 rd s of None \<Rightarrow> None
      | Some (sv, s) \<Rightarrow>
     (case unser_CService rd s of None \<Rightarrow> None
      | Some (ip, s) \<Rightarrow>
          Some (\<lparr> sv_ip = sv_ip ip, sv_port = sv_port ip, ca_nServices = sv, ca_nTime = t,
                  ca_nLastTry = ca_nLastTry a \<rparr>, s)))))"

section \<open>Inventory entries\<close>

record CInv =
  inv_type :: "32 word"
  inv_hash :: base_uint

definition vpszTypeName :: "string list" where
  "vpszTypeName = [''ERROR'', ''tx'', ''block'']"

definition CInv_default :: CInv where
  "CInv_default = \<lparr> inv_type = 0, inv_hash = base_uint_assign64 8 0 \<rparr>"

text \<open>The loop over the names from the first one on; running past the last one throws.\<close>

fun inv_type_loop :: "string \<Rightarrow> nat \<Rightarrow> string list \<Rightarrow> nat option" where
  "inv_type_loop strType i [] = None"
| "inv_type_loop strType i (n # ns) = (if strType = n then Some i else inv_type_loop strType (i + 1) ns)"

definition CInv_of_name :: "string \<Rightarrow> base_uint \<Rightarrow> CInv option" where
  "CInv_of_name strType hashIn =
     (case inv_type_loop strType 1 (tl vpszTypeName) of None \<Rightarrow> None
      | Some i \<Rightarrow> Some \<lparr> inv_type = of_nat i, inv_hash = hashIn \<rparr>)"

definition CInv_lt :: "CInv \<Rightarrow> CInv \<Rightarrow> bool" where
  "CInv_lt a b \<longleftrightarrow>
     sint (inv_type a) < sint (inv_type b) \<or> inv_type a = inv_type b \<and> base_uint_lt (inv_hash a) (inv_hash b)"

definition CInv_IsKnownType :: "CInv \<Rightarrow> bool" where
  "CInv_IsKnownType v \<longleftrightarrow> sint (inv_type v) \<ge> 1 \<and> sint (inv_type v) < int (length vpszTypeName)"

definition CInv_GetCommand :: "CInv \<Rightarrow> string option" where
  "CInv_GetCommand v = (if \<not> CInv_IsKnownType v then None else Some (vpszTypeName ! nat (sint (inv_type v))))"

definition CInv_ToString :: "CInv \<Rightarrow> string option" where
  "CInv_ToString v =
     (case CInv_GetCommand v of None \<Rightarrow> None
      | Some c \<Rightarrow> Some (c @ '' '' @ take 20 (base_uint_GetHex (inv_hash v))))"

definition ser_CInv :: "CInv \<Rightarrow> bytes" where
  "ser_CInv v = ser_uint 4 (inv_type v) @ base_uint_getBytes (inv_hash v)"

definition unser_CInv :: "'s rd \<Rightarrow> 's \<Rightarrow> (CInv \<times> 's) option" where
  "unser_CInv rd s =
     (case unser_uint 4 rd s of None \<Rightarrow> None
      | Some (t, s) \<Rightarrow>
     (case unser_base_uint 8 rd s of None \<Rightarrow> None
      | Some (h, s) \<Rightarrow> Some (\<lparr> inv_type = t, inv_hash = h \<rparr>, s)))"

section \<open>Readers consume what the writers write\<close>

definition CMessageHeader_wf :: "CMessageHeader \<Rightarrow> bool" where
  "CMessageHeader_wf h \<longleftrightarrow> length (hdr_start h) = 4 \<and> length (hdr_command h) = COMMAND_SIZE"

lemma ser_uint_le_val:
  assumes "length b = n" "LENGTH('a) = 8 * n"
  shows "ser_uint n (of_nat (le_val b) :: 'a::len word) = b"
proof -
  have "le_val b < 2 ^ LENGTH('a)" using le_val_bound [of b] assms by (simp add: power_mult)
  then have "unat (of_nat (le_val b) :: 'a word) = le_val b" by (simp add: unat_of_nat)
  then show ?thesis using assms(1) wsplit_wval [of b] by (simp add: ser_uint_def)
qed

lemma getBytes_limbs_of_bytes: "length b = 4 * m \<Longrightarrow> base_uint_getBytes (limbs_of_bytes b) = b"
  using wval_limbs_of_bytes [of b m] le_val_getBytes [of "limbs_of_bytes b"] wval_inject [of "base_uint_getBytes (limbs_of_bytes b)" b]
  by (simp add: length_getBytes)

text \<open>A reader of \<open>n\<close> bytes: it fails exactly on a shorter content, and otherwise removes \<open>n\<close> bytes from its
  front, which are related to its result.\<close>

definition consumes :: "('s \<Rightarrow> bytes) \<Rightarrow> ('s \<Rightarrow> bool) \<Rightarrow> ('s \<Rightarrow> ('a \<times> 's) option) \<Rightarrow> ('a \<Rightarrow> bytes \<Rightarrow> bool) \<Rightarrow> nat \<Rightarrow> bool" where
  "consumes content ok f R n \<longleftrightarrow>
     (\<forall>s. ok s \<longrightarrow>
        (f s = None \<longleftrightarrow> length (content s) < n)
        \<and> (\<forall>x s'. f s = Some (x, s') \<longrightarrow> ok s' \<and> (\<exists>b. length b = n \<and> content s = b @ content s' \<and> R x b)))"

lemma consumesI:
  assumes "\<And>s. ok s \<Longrightarrow> f s = None \<longleftrightarrow> length (content s) < n"
    and "\<And>s x s'. ok s \<Longrightarrow> f s = Some (x, s') \<Longrightarrow> ok s' \<and> (\<exists>b. length b = n \<and> content s = b @ content s' \<and> R x b)"
  shows "consumes content ok f R n"
  using assms unfolding consumes_def by blast

lemma consumesD:
  assumes "consumes content ok f R n" "ok s"
  shows "f s = None \<longleftrightarrow> length (content s) < n"
    and "f s = Some (x, s') \<Longrightarrow> ok s' \<and> (\<exists>b. length b = n \<and> content s = b @ content s' \<and> R x b)"
  using assms unfolding consumes_def by blast+

lemma consumes_return: "R x [] \<Longrightarrow> consumes content ok (\<lambda>s. Some (x, s)) R 0"
  by (simp add: consumes_def)

lemma consumes_bind:
  assumes f: "consumes content ok f Q n" and g: "\<And>x b. Q x b \<Longrightarrow> consumes content ok (g x) (\<lambda>y c. R y (b @ c)) m"
  shows "consumes content ok (\<lambda>s. case f s of None \<Rightarrow> None | Some (x, s) \<Rightarrow> g x s) R (n + m)"
proof (rule consumesI)
  fix s
  assume s: "ok s"
  show "(case f s of None \<Rightarrow> None | Some (x, s) \<Rightarrow> g x s) = None \<longleftrightarrow> length (content s) < n + m"
  proof (cases "f s")
    case None
    then show ?thesis using consumesD(1) [OF f s] by simp
  next
    case (Some p)
    obtain x s1 where fs: "f s = Some (x, s1)" using Some by (cases p) simp
    then obtain b where b: "ok s1" "length b = n" "content s = b @ content s1" "Q x b" using consumesD(2) [OF f s] by blast
    then show ?thesis using consumesD(1) [OF g [OF b(4)] b(1)] fs by simp
  qed
next
  fix s y s'
  assume s: "ok s" and r: "(case f s of None \<Rightarrow> None | Some (x, s) \<Rightarrow> g x s) = Some (y, s')"
  obtain x s1 where fs: "f s = Some (x, s1)" "g x s1 = Some (y, s')" using r by (auto split: option.splits)
  then obtain b where b: "ok s1" "length b = n" "content s = b @ content s1" "Q x b" using consumesD(2) [OF f s] by blast
  obtain c where "ok s'" "length c = m" "content s1 = c @ content s'" "R y (b @ c)"
    using consumesD(2) [OF g [OF b(4)] b(1) fs(2)] by blast
  then show "ok s' \<and> (\<exists>b. length b = n + m \<and> content s = b @ content s' \<and> R y b)"
    using b by (intro conjI exI [of _ "b @ c"]) simp_all
qed

context input_stream
begin

lemma consumes_raw: "consumes content ok (\<lambda>s. rd s n) (\<lambda>x b. b = x \<and> length x = n) n"
proof (rule consumesI)
  show "rd s n = None \<longleftrightarrow> length (content s) < n" if "ok s" for s
    using read_some [OF that, of n] read_none [OF that, of n] by (cases "n \<le> length (content s)") auto
  show "ok s' \<and> (\<exists>b. length b = n \<and> content s = b @ content s' \<and> (b = x \<and> length x = n))"
    if "ok s" "rd s n = Some (x, s')" for s x s'
  proof -
    have "n \<le> length (content s)" using read_none [OF that(1), of n] that(2) by (cases "n \<le> length (content s)") auto
    then show ?thesis using read_some [OF that(1)] that(2) by force
  qed
qed

lemma consumes_uint:
  assumes "LENGTH('a) = 8 * n"
  shows "consumes content ok (unser_uint n rd) (\<lambda>(x :: 'a::len word) b. b = ser_uint n x) n"
  using consumes_bind [OF consumes_raw [of n], where m = 0 and g = "\<lambda>b s. Some (of_nat (le_val b) :: 'a word, s)"
      and R = "\<lambda>x b. b = ser_uint n x"] consumes_return assms
  by (simp add: unser_uint_def [abs_def] ser_uint_le_val consumes_def)

lemma consumes_base_uint:
  "consumes content ok (unser_base_uint w rd) (\<lambda>x b. b = base_uint_getBytes x) (4 * w)"
  using consumes_bind [OF consumes_raw [of "4 * w"], where m = 0 and g = "\<lambda>b s. Some (limbs_of_bytes b, s)"
      and R = "\<lambda>x b. b = base_uint_getBytes x"]
  by (simp add: unser_base_uint_def [abs_def] getBytes_limbs_of_bytes consumes_def)

lemma consumes_CMessageHeader:
  "consumes content ok (unser_CMessageHeader rd) (\<lambda>h b. b = ser_CMessageHeader h) (4 + (COMMAND_SIZE + (4 + (4 + 0))))"
  unfolding unser_CMessageHeader_def [abs_def]
  by (intro consumes_bind [OF consumes_raw] consumes_bind [OF consumes_uint] consumes_return)
    (simp_all add: ser_CMessageHeader_def)

lemma consumes_CService: "consumes content ok (unser_CService rd) (\<lambda>v b. b = ser_CService v) (16 + (2 + 0))"
  unfolding unser_CService_def [abs_def]
  by (intro consumes_bind [OF consumes_raw] consumes_return) (simp add: ser_CService_def ser_uint_le_val)

lemma consumes_CInv: "consumes content ok (unser_CInv rd) (\<lambda>v b. b = ser_CInv v) (4 + (4 * 8 + 0))"
  unfolding unser_CInv_def [abs_def]
  by (intro consumes_bind [OF consumes_uint] consumes_bind [OF consumes_base_uint] consumes_return)
    (simp_all add: ser_CInv_def)

text \<open>To disk the version comes first, and the time always follows; the version that is read need not be
  that of the call.\<close>

lemma consumes_CAddress:
  "consumes content ok (unser_CAddress nType nVersion a rd)
    (\<lambda>v b. \<exists>ver. (nType AND SER_DISK = 0 \<longrightarrow> ver = nVersion) \<and> b = ser_CAddress nType ver v
       \<and> ca_nLastTry v = ca_nLastTry a \<and> (\<not> caddress_time nType nVersion \<longrightarrow> ca_nTime v = ca_nTime a))
    ((if nType AND SER_DISK = 0 then 0 else 4) + ((if caddress_time nType nVersion then 4 else 0) + (8 + (16 + (2 + 0) + 0))))"
proof -
  have time: "caddress_time nType ver = caddress_time nType nVersion" if "nType AND SER_DISK = 0 \<longrightarrow> ver = nVersion" for ver
    using that by (auto simp: caddress_time_def)
  have v: "consumes content ok (\<lambda>s. if nType AND SER_DISK \<noteq> 0 then unser_uint 4 rd s else Some (nVersion, s))
      (\<lambda>ver b. (nType AND SER_DISK = 0 \<longrightarrow> ver = nVersion) \<and> b = (if nType AND SER_DISK = 0 then [] else ser_uint 4 ver))
      (if nType AND SER_DISK = 0 then 0 else 4)"
    using consumes_uint [where 'a = 32, of 4] by (simp add: consumes_return)
  have t: "consumes content ok (\<lambda>s. if caddress_time nType ver then unser_uint 4 rd s else Some (ca_nTime a, s))
      (\<lambda>t b. (\<not> caddress_time nType nVersion \<longrightarrow> t = ca_nTime a) \<and> b = (if caddress_time nType nVersion then ser_uint 4 t else []))
      (if caddress_time nType nVersion then 4 else 0)" if "nType AND SER_DISK = 0 \<longrightarrow> ver = nVersion" for ver
    unfolding time [OF that] using consumes_uint [where 'a = 32, of 4] by (simp add: consumes_return)
  have tr: "CService.truncate \<lparr> sv_ip = sv_ip ip, sv_port = sv_port ip, ca_nServices = sv, ca_nTime = tm, ca_nLastTry = l \<rparr> = ip"
    for ip :: CService and sv tm l by (cases ip) (simp add: CService.defs)
  show ?thesis unfolding unser_CAddress_def [abs_def]
  proof (rule consumes_bind [OF v], elim conjE, rule consumes_bind [OF t], assumption, elim conjE,
      rule consumes_bind [OF consumes_uint], simp, rule consumes_bind [OF consumes_CService], rule consumes_return,
      intro exI conjI)
    fix ver :: u32 and b and tm :: u32 and c and sv :: u64 and d and ip :: CService and e
    assume *: "nType AND SER_DISK = 0 \<longrightarrow> ver = nVersion" "b = (if nType AND SER_DISK = 0 then [] else ser_uint 4 ver)"
      "c = (if caddress_time nType nVersion then ser_uint 4 tm else [])" "d = ser_uint 8 sv" "e = ser_CService ip"
    show "nType AND SER_DISK = 0 \<longrightarrow> ver = nVersion" by (rule *(1))
    show "b @ c @ d @ e @ [] = ser_CAddress nType ver \<lparr> sv_ip = sv_ip ip, sv_port = sv_port ip, ca_nServices = sv,
        ca_nTime = tm, ca_nLastTry = ca_nLastTry a \<rparr>"
      unfolding ser_CAddress_def tr time [OF *(1)] *(2-5) by simp
  qed simp_all
qed

lemma reads_end:
  "reads content ok f bs x \<Longrightarrow> h x = y \<Longrightarrow>
   reads content ok (\<lambda>s. case f s of None \<Rightarrow> None | Some (x, s) \<Rightarrow> Some (h x, s)) bs y"
  by (drule reads_bind_last [where h = h]) simp

lemma reads_fixed: "length bs = n \<Longrightarrow> reads content ok (\<lambda>s. rd s n) bs bs"
  using reads_raw [of bs] by simp

lemma reads_CMessageHeader:
  assumes "CMessageHeader_wf h"
  shows "reads content ok (unser_CMessageHeader rd) (ser_CMessageHeader h) h"
  unfolding unser_CMessageHeader_def [abs_def] ser_CMessageHeader_def
  using assms
  by (intro reads_bind [OF reads_fixed] reads_bind [OF reads_uint] reads_end [OF reads_uint])
    (simp_all add: CMessageHeader_wf_def)

lemma reads_CService:
  assumes "length (sv_ip v) = 16"
  shows "reads content ok (unser_CService rd) (ser_CService v) v"
proof -
  have "unat (sv_port v) < 256 ^ 2" using unat_less_power [of "sv_port v"] by simp
  then have p: "of_nat (le_val (le_bytes 2 (unat (sv_port v)))) = sv_port v" by (simp only: le_val_le_bytes) simp
  then show ?thesis
    unfolding unser_CService_def [abs_def] ser_CService_def
    using assms
    by (intro reads_bind [OF reads_fixed] reads_end [OF reads_fixed]) (simp_all add: ser_uint_def)
qed

text \<open>What the reader keeps of the object it reads into: the last try, and the time when none is sent.\<close>

lemma reads_CAddress:
  assumes "length (sv_ip v) = 16"
  shows "reads content ok (unser_CAddress nType nVersion a rd) (ser_CAddress nType nVersion v)
    (v\<lparr> ca_nTime := if caddress_time nType nVersion then ca_nTime v else ca_nTime a, ca_nLastTry := ca_nLastTry a \<rparr>)"
proof -
  have ver: "reads content ok (\<lambda>s. if nType AND SER_DISK \<noteq> 0 then unser_uint 4 rd s else Some (nVersion, s))
      (if nType AND SER_DISK \<noteq> 0 then ser_uint 4 nVersion else []) nVersion"
    using reads_uint [of 4 nVersion] by (simp add: reads_return)
  have time: "reads content ok (\<lambda>s. if caddress_time nType nVersion then unser_uint 4 rd s else Some (ca_nTime a, s))
      (if caddress_time nType nVersion then ser_uint 4 (ca_nTime v) else [])
      (if caddress_time nType nVersion then ca_nTime v else ca_nTime a)"
    using reads_uint [of 4 "ca_nTime v"] by (simp add: reads_return)
  have ip: "reads content ok (unser_CService rd) (ser_CService (CService.truncate v)) (CService.truncate v)"
    using assms by (intro reads_CService) (simp add: CService.defs)
  show ?thesis unfolding unser_CAddress_def [abs_def] ser_CAddress_def
    by (intro reads_bind [OF ver] reads_bind [OF time] reads_bind [OF reads_uint] reads_end [OF ip])
      (simp_all add: CService.defs)
qed

lemma reads_CInv:
  "length (inv_hash v) = 8 \<Longrightarrow> reads content ok (unser_CInv rd) (ser_CInv v) v"
  unfolding unser_CInv_def [abs_def] ser_CInv_def
  by (intro reads_bind [OF reads_uint] reads_end [OF reads_base_uint]) simp_all

end

section \<open>Commands\<close>

abbreviation printable_command :: "bytes \<Rightarrow> bool" where
  "printable_command c \<equiv> list_all (\<lambda>c. 0x20 \<le> c \<and> c \<le> 0x7E) c"

lemma command_ok_zeros: "command_ok (replicate n 0)"
  by (cases n) (auto simp: list_all_iff)

lemma command_ok_padded: "printable_command c \<Longrightarrow> command_ok (c @ replicate n 0)"
  by (induction c) (auto simp: command_ok_zeros not_less)

lemma printable_nonzero: "printable_command c \<Longrightarrow> takeWhile (\<lambda>c. c \<noteq> 0) c = c"
  by (induction c) auto

lemma c_strncpy_printable: "printable_command c \<Longrightarrow> length c \<le> n \<Longrightarrow> c_strncpy n c = c @ replicate (n - length c) 0"
  by (simp add: c_strncpy_def Let_def printable_nonzero)

lemma GetCommand_new:
  assumes "printable_command c" "length c \<le> COMMAND_SIZE"
  shows "CMessageHeader_GetCommand (CMessageHeader_new magic c n) = c"
proof (cases "length c = COMMAND_SIZE")
  case True
  then have "0x20 \<le> c ! 11" using assms(1) by (simp add: list_all_length)
  then have "c ! 11 \<noteq> 0" by auto
  then show ?thesis using True assms
    by (simp add: CMessageHeader_GetCommand_def CMessageHeader_new_def c_strncpy_printable)
next
  case False
  then have l: "length c < 12" using assms(2) by simp
  have "takeWhile (\<lambda>c. c \<noteq> 0) (c @ replicate (12 - length c) 0) = c"
    using l printable_nonzero [OF assms(1)] by (subst takeWhile_append) (auto simp: takeWhile_eq_all_conv)
  moreover have "(c @ replicate (12 - length c) 0) ! 11 = 0" using l by (simp add: nth_append)
  ultimately show ?thesis using assms
    by (simp add: CMessageHeader_GetCommand_def CMessageHeader_new_def c_strncpy_printable)
qed

section \<open>Properties\<close>

text \<open>C39: what the readers of message headers, inventory entries and peer addresses do on every stream. They
  fail exactly when too few bytes are left, 24 for a header, 36 for an entry and 26 to 34 for an
  address, and otherwise what they return is what the writer would write as the very bytes they removed, so
  that no two different contents are read as the same value. An address to disk is written under the version
  that was read; a reader keeps the last try, and the time when none is sent.\<close>

theorem wire_exact:
  assumes "input_stream rd content ok" "ok s"
  shows "(unser_CMessageHeader rd s = None \<longleftrightarrow> length (content s) < 24)
    \<and> (unser_CInv rd s = None \<longleftrightarrow> length (content s) < 36)
    \<and> (unser_CAddress nType nVersion a rd s = None \<longleftrightarrow> length (content s)
         < (if nType AND SER_DISK = 0 then 0 else 4) + (if caddress_time nType nVersion then 4 else 0) + 26)
    \<and> (\<forall>h s'. unser_CMessageHeader rd s = Some (h, s') \<longrightarrow> content s = ser_CMessageHeader h @ content s')
    \<and> (\<forall>v s'. unser_CInv rd s = Some (v, s') \<longrightarrow> content s = ser_CInv v @ content s')
    \<and> (\<forall>v s'. unser_CAddress nType nVersion a rd s = Some (v, s') \<longrightarrow>
         (\<exists>ver. (nType AND SER_DISK = 0 \<longrightarrow> ver = nVersion) \<and> content s = ser_CAddress nType ver v @ content s'
           \<and> ca_nLastTry v = ca_nLastTry a \<and> (\<not> caddress_time nType nVersion \<longrightarrow> ca_nTime v = ca_nTime a)))"
proof -
  note h = consumesD [OF input_stream.consumes_CMessageHeader [OF assms(1)] assms(2)]
  note i = consumesD [OF input_stream.consumes_CInv [OF assms(1)] assms(2)]
  note c = consumesD [OF input_stream.consumes_CAddress [OF assms(1)] assms(2), of nType nVersion a]
  have "unser_CMessageHeader rd s = None \<longleftrightarrow> length (content s) < 24" "unser_CInv rd s = None \<longleftrightarrow> length (content s) < 36"
    using h(1) i(1) by simp_all
  moreover have "unser_CAddress nType nVersion a rd s = None \<longleftrightarrow> length (content s)
         < (if nType AND SER_DISK = 0 then 0 else 4) + (if caddress_time nType nVersion then 4 else 0) + 26"
    unfolding c(1) by simp
  moreover have "content s = ser_CMessageHeader x @ content s'" if "unser_CMessageHeader rd s = Some (x, s')" for x s'
    using h(2) [OF that] by blast
  moreover have "content s = ser_CInv x @ content s'" if "unser_CInv rd s = Some (x, s')" for x s'
    using i(2) [OF that] by blast
  moreover have "\<exists>ver. (nType AND SER_DISK = 0 \<longrightarrow> ver = nVersion) \<and> content s = ser_CAddress nType ver x @ content s'
      \<and> ca_nLastTry x = ca_nLastTry a \<and> (\<not> caddress_time nType nVersion \<longrightarrow> ca_nTime x = ca_nTime a)"
    if "unser_CAddress nType nVersion a rd s = Some (x, s')" for x s'
    using c(2) [OF that] by blast
  ultimately show ?thesis by (intro conjI allI impI)
qed

theorem wire_exact_witness:
  "(\<exists>h s'. unser_CMessageHeader CDataStream_read (CDataStream_Init (replicate 30 5)) = Some (h, s')
      \<and> replicate 30 5 = ser_CMessageHeader h @ CDataStream_content s')
   \<and> unser_CInv CDataStream_read (CDataStream_Init (replicate 30 5)) = None
   \<and> (\<exists>v s'. unser_CAddress 1 60000 CAddress_default CDataStream_read (CDataStream_Init (replicate 30 5)) = Some (v, s')
      \<and> replicate 30 5 = ser_CAddress 1 60000 v @ CDataStream_content s')"
proof -
  let ?s = "CDataStream_Init (replicate 30 5)"
  have ok: "CDataStream_ok ?s" and len: "length (CDataStream_content ?s) = 30" and c: "CDataStream_content ?s = replicate 30 5"
    by (simp_all add: CDataStream_ok_def CDataStream_Init_def CDataStream_content_def)
  have t: "(1 :: u32) AND SER_DISK = 0" "caddress_time 1 60000" by (simp_all add: caddress_time_def)
  note w = wire_exact [OF data_stream.input_stream_axioms ok, of 1 60000 CAddress_default, unfolded len c]
  have "unser_CMessageHeader CDataStream_read ?s \<noteq> None" "unser_CInv CDataStream_read ?s = None"
    "unser_CAddress 1 60000 CAddress_default CDataStream_read ?s \<noteq> None" using w t by simp_all
  then show ?thesis using w t by fast
qed

text \<open>C40: a header made for a printable command of at most twelve characters and an allowed size is
  valid on its network and on no other, gives back its command, and is read back from its bytes;
  headers, peer addresses and inventory entries survive the wire, where the time of an address is sent
  only to disk and to peers of a recent version and the last try never is.\<close>

theorem messages_roundtrip:
  assumes "printable_command c" "length c \<le> COMMAND_SIZE" "unat n \<le> MAX_SIZE" "length magic = 4"
    and "length (sv_ip v) = 16" "length (inv_hash i) = 8" "input_stream rd content ok"
  shows "CMessageHeader_IsValid magic' (CMessageHeader_new magic c n) = (magic' = magic)
    \<and> CMessageHeader_GetCommand (CMessageHeader_new magic c n) = c
    \<and> reads content ok (unser_CMessageHeader rd) (ser_CMessageHeader (CMessageHeader_new magic c n)) (CMessageHeader_new magic c n)
    \<and> reads content ok (unser_CAddress nType nVersion a rd) (ser_CAddress nType nVersion v)
        (v\<lparr> ca_nTime := if caddress_time nType nVersion then ca_nTime v else ca_nTime a, ca_nLastTry := ca_nLastTry a \<rparr>)
    \<and> reads content ok (unser_CInv rd) (ser_CInv i) i"
proof -
  have "CMessageHeader_wf (CMessageHeader_new magic c n)"
    using assms(1,2,4) by (simp add: CMessageHeader_wf_def CMessageHeader_new_def c_strncpy_printable)
  moreover have "CMessageHeader_IsValid magic' (CMessageHeader_new magic c n) = (magic' = magic)"
    using assms(1-3) by (auto simp: CMessageHeader_IsValid_def CMessageHeader_new_def c_strncpy_printable command_ok_padded)
  ultimately show ?thesis
    using GetCommand_new [OF assms(1,2)] input_stream.reads_CMessageHeader [OF assms(7)]
      input_stream.reads_CAddress [OF assms(7,5)] input_stream.reads_CInv [OF assms(7,6)] by blast
qed

theorem messages_roundtrip_witness:
  "CMessageHeader_IsValid [0xcd, 0xf2, 0xc0, 0xef] (CMessageHeader_new [0xcd, 0xf2, 0xc0, 0xef] [0x61, 0x64, 0x64, 0x72] 31)
   \<and> reads CDataStream_content CDataStream_ok (unser_CAddress 1 60000 CAddress_default CDataStream_read)
       (ser_CAddress 1 60000 CAddress_default) CAddress_default"
  using messages_roundtrip [of "[0x61, 0x64, 0x64, 0x72]" 31 "[0xcd, 0xf2, 0xc0, 0xef]" CAddress_default CInv_default,
      OF _ _ _ _ _ _ data_stream.input_stream_axioms, of "[0xcd, 0xf2, 0xc0, 0xef]" 1 60000 CAddress_default]
  by (simp add: CAddress_default_def CAddress_of_def CService_Init_def CNetAddr_Init_def CInv_default_def length_assign64)

end
