(* ===== verification/Spec2Isabelle.thy ===== *)
theory Spec2Isabelle
  imports Prelude Uint256 Bignum Serialize Transaction Script Key Solver ScriptEval ScriptProps Base58 Encoding Netbase Protocol
begin

text \<open>
  NovaCoin is a peer-to-peer currency node written in C++.  This development
  models the parts of it that compute on values: numbers, byte formats,
  transactions, scripts, keys, addresses and their texts.  File names below
  are relative to \<^verbatim>\<open>src/src\<close>.

  \<^bold>\<open>Parts and how they interact.\<close>  Numbers (\<^verbatim>\<open>uint256\<close>, \<^verbatim>\<open>bignum\<close>) are used by
  every other part.  The serialization templates turn data into bytes and back.
  A transaction is such data; its outputs carry scripts, and its inputs carry
  the scripts that spend earlier outputs.  The interpreter runs both, and for
  a signature operation it serializes a modified copy of the transaction,
  hashes it and asks the public key to verify the signature.  The recogniser
  of standard scripts maps a script to a destination (a key, a key hash, a
  script hash or a pair of malleable keys), and the address code maps a
  destination to a text and back.

  \<^bold>\<open>Theories and sources.\<close>
  \<^item> \<^verbatim>\<open>Prelude\<close>: byte strings and lists of digits shared by the components, and
    the lexicographic comparison of \<^verbatim>\<open>std::vector<unsigned char>\<close>.
  \<^item> \<^verbatim>\<open>Uint256\<close> (\<^verbatim>\<open>uint256.h\<close>, \<^verbatim>\<open>uint256.cpp\<close>): a fixed-width number is the list
    of its 32-bit limbs, as the array \<^verbatim>\<open>pn\<close> is, and each operator is the loop
    of the source over the limbs, with wrap-around of each limb.
  \<^item> \<^verbatim>\<open>Bignum\<close> (\<^verbatim>\<open>bignum.h\<close>, \<^verbatim>\<open>bignum.cpp\<close>): \<^verbatim>\<open>CBigNum\<close> over OpenSSL's numbers.
    OpenSSL is a parameter (a record of functions); the locale
    \<^verbatim>\<open>openssl_bn\<close> states its documented behaviour and is interpreted on integers.
  \<^item> \<^verbatim>\<open>Serialize\<close> (\<^verbatim>\<open>serialize.h\<close>, \<^verbatim>\<open>streams.h\<close>, \<^verbatim>\<open>streams.cpp\<close>): encodings of
    integers, compact sizes, variable length integers, vectors and strings,
    and \<^verbatim>\<open>CDataStream\<close> as buffer and read position.  The locale
    \<^verbatim>\<open>input_stream\<close> is what the readers rely on; \<^verbatim>\<open>CDataStream\<close> satisfies it.
  \<^item> \<^verbatim>\<open>Transaction\<close> (\<^verbatim>\<open>main.h\<close>): the records of a transaction, their
    serialization, finality, the coinbase and coinstake tests, the sum of outputs.
  \<^item> \<^verbatim>\<open>Script\<close> (\<^verbatim>\<open>script.h\<close>, \<^verbatim>\<open>script.cpp\<close>): opcodes, builders, the instruction
    parser \<^verbatim>\<open>GetOp2\<close>, the scans over a script and \<^verbatim>\<open>FindAndDelete\<close>.
  \<^item> \<^verbatim>\<open>Key\<close> (\<^verbatim>\<open>hash.h\<close>, \<^verbatim>\<open>key.h\<close>, \<^verbatim>\<open>key.cpp\<close>): hash wrappers, \<^verbatim>\<open>CPubKey\<close>, the
    range test of signature elements.  Digests and elliptic curve operations
    are a record parameter, of which only the digest lengths are assumed.
  \<^item> \<^verbatim>\<open>Solver\<close> (\<^verbatim>\<open>script.cpp\<close>): template matching, standardness, destinations.
  \<^item> \<^verbatim>\<open>ScriptEval\<close> (\<^verbatim>\<open>script.cpp\<close>): \<^verbatim>\<open>EvalScript\<close> with every opcode, signature
    hashes, signature encodings, the signature cache, \<^verbatim>\<open>VerifyScript\<close>.  The
    interpreter is a step function on a record of the local variables of
    \<^verbatim>\<open>EvalScript\<close>; the head of the stack list is the top of the stack.
  \<^item> \<^verbatim>\<open>ScriptProps\<close>: the properties of the interpreter.
  \<^item> \<^verbatim>\<open>Base58\<close> (\<^verbatim>\<open>base58.h\<close>, \<^verbatim>\<open>base58.cpp\<close>, \<^verbatim>\<open>key.cpp\<close>): base 58, checksums,
    addresses, secrets, pairs of malleable keys.
  \<^item> \<^verbatim>\<open>Encoding\<close> (\<^verbatim>\<open>util.h\<close>, \<^verbatim>\<open>util.cpp\<close>): hexadecimal, base 64, base 32, dump
    strings, amounts, splitting and wildcards.
  \<^item> \<^verbatim>\<open>Netbase\<close> (\<^verbatim>\<open>netbase.h\<close>, \<^verbatim>\<open>netbase.cpp\<close>): network addresses as their 16
    bytes, their classification, groups, reachability and texts, services,
    proxies.  The system's numeric host names are a parameter.
  \<^item> \<^verbatim>\<open>Protocol\<close> (\<^verbatim>\<open>protocol.h\<close>, \<^verbatim>\<open>protocol.cpp\<close>): message headers, peer addresses
    and inventory entries.

  \<^bold>\<open>Conventions.\<close>  An exception, a failed assertion or a \<^verbatim>\<open>false\<close> with no
  result is \<^verbatim>\<open>None\<close>.  Machine integers are words of their width where
  wrap-around can happen, and integers with explicit bounds elsewhere.  Time,
  configuration and random choices are arguments.

  \<^bold>\<open>Bounds and abstractions.\<close>  A signed addition or negation that leaves its range
  has no defined result in C++ and is an outcome of its own (\<^verbatim>\<open>SignedOverflow\<close> of
  \<^verbatim>\<open>GetValueOut\<close>, \<^verbatim>\<open>None\<close> of \<^verbatim>\<open>FormatMoney\<close>).  Lengths are unbounded: the cast of a
  length to 32 bits in \<^verbatim>\<open>GetOp2\<close> and the assertion on the size of a write
  to \<^verbatim>\<open>CDataStream\<close> matter only beyond two gigabytes.  \<^verbatim>\<open>DecodeBase58\<close> returns an
  empty vector where it fails before it assigns its output, which its callers
  pass empty.  In the template matcher a failed \<^verbatim>\<open>GetOp\<close> leaves the position
  where it was; no template looks at it again.

  \<^bold>\<open>What the lemmas show.\<close>  The limb loops compute modulo a power of two, and
  division is exact.  Compact forms, signed byte encodings and the two number
  types agree with each other.  Every serialized value is read back, on any
  stream that keeps the contract.  The sum of outputs is exact, refused, or an
  overflow, and it is known which.
  Pushed data is read back and \<^verbatim>\<open>FindAndDelete\<close> works on whole instructions.
  The recogniser inverts the builders of standard scripts.  Every run of the
  interpreter stays within its limits, ends, and cannot trip its assertions;
  disabled opcodes, locks, signature encodings, signature hashes, multiple
  signatures and the cache behave as stated there.  Texts of numbers,
  addresses, secrets and amounts are read back, and the group of a network
  address is that of the IPv4 address it embeds.

  \<^bold>\<open>Loops.\<close>  Loops over a list or a word are structural recursions or have a
  termination proof by a measure.  The interpreter recurses over the bytes
  that remain, since \<^verbatim>\<open>GetOp2\<close> consumes at least one; no definition has a
  fuel argument.

  \<^bold>\<open>Not modelled.\<close>  Threads, sockets, the clock and the operating system
  (\<^verbatim>\<open>net\<close>, \<^verbatim>\<open>irc\<close>, \<^verbatim>\<open>ntp\<close>, \<^verbatim>\<open>stun\<close>, \<^verbatim>\<open>init\<close>, \<^verbatim>\<open>sync\<close>); the databases and what
  rests on them (\<^verbatim>\<open>db\<close>, \<^verbatim>\<open>txdb-leveldb\<close>, \<^verbatim>\<open>walletdb\<close>, the wallet, the block
  index, the proof of stake kernel, the miner); the remote procedure calls and
  the graphical interface, which translate between formats around those
  parts; the vendored LevelDB and JSON libraries; cryptography, which is a
  parameter.  The tables of known peers (\<^verbatim>\<open>addrman\<close>) are computations on values
  too, but are not covered yet.  Of the modelled files, stream operators for text output,
  printing for logs, signing, encryption of keys, sockets and name lookups are
  left out.
\<close>

end
